(* ===== verification/VDB_Prelude.thy ===== *)
theory VDB_Prelude
  imports Main "HOL-Library.Word"
begin

text \<open>
  Shared vocabulary of the development: machine types, the ways a Rust computation can fail,
  the two result types used by the component theories, three-way comparison of byte slices,
  fixed-width byte encodings and the list lemmas the components share.

  A function without a loop that may run forever has type \<open>'a res\<close> (\<open>Inl\<close> is a panic or
  an access outside the allocation, \<open>Inr\<close> a value). A function with such a loop has type
  \<open>'a comp\<close>, where \<open>None\<close> is \<open>does not return\<close>.
\<close>

section \<open>Machine types\<close>

type_synonym u8 = "8 word"
type_synonym u32 = "32 word"
type_synonym u64 = "64 word"
type_synonym bytes = "u8 list"

text \<open>
  Lengths, offsets and counters of type \<^verbatim>\<open>usize\<close> are naturals below \<open>usize_limit\<close>
  (64-bit targets, the only ones the crates compile for); additions that can leave that range are
  written with \<open>add_usize\<close>, which is Rust's checked addition of a build with overflow checks.
\<close>

abbreviation usize_limit :: nat where
  "usize_limit \<equiv> 2 ^ 64"

abbreviation u16_limit :: nat where
  "u16_limit \<equiv> 2 ^ 16"

abbreviation u32_limit :: nat where
  "u32_limit \<equiv> 2 ^ 32"

section \<open>Failures and results\<close>

datatype arena_error =
    AllocationError nat
  | ArenaOverflow
  | ChunkDoubleCheckFailed
  | ArenaFull

datatype fault =
    AssertFailed
  | ArithOverflow
  | OutOfBounds
  | DivByZero
  | UnwrapNone
  | UnreachableCode
  | TodoPanic
  | LayoutFailed
  | CapacityOverflow
  | ArenaPanic arena_error
  | ExplicitPanic
  | InvalidAccess

text \<open>
  \<open>InvalidAccess\<close> stands for a raw access outside the memory the code owns (a null or
  dangling node, a tower slot past the height, a copy past the end of an allocation); the other
  constructors are panics.
\<close>

type_synonym 'a res = "fault + 'a"
type_synonym 'a comp = "'a res option"

definition rbind :: "'a res \<Rightarrow> ('a \<Rightarrow> 'b res) \<Rightarrow> 'b res" where
  "rbind m f = (case m of Inl e \<Rightarrow> Inl e | Inr x \<Rightarrow> f x)"

definition cbind :: "'a comp \<Rightarrow> ('a \<Rightarrow> 'b comp) \<Rightarrow> 'b comp" where
  "cbind m f = (case m of None \<Rightarrow> None | Some (Inl e) \<Rightarrow> Some (Inl e) | Some (Inr x) \<Rightarrow> f x)"

definition ret :: "'a \<Rightarrow> 'a comp" where
  "ret x = Some (Inr x)"

definition assert_that :: "bool \<Rightarrow> unit res" where
  "assert_that b = (if b then Inr () else Inl AssertFailed)"

definition debug_assert :: "bool \<Rightarrow> bool \<Rightarrow> unit res" where
  "debug_assert dbg b = (if dbg then assert_that b else Inr ())"

definition add_usize :: "nat \<Rightarrow> nat \<Rightarrow> nat res" where
  "add_usize a b = (if a + b < usize_limit then Inr (a + b) else Inl ArithOverflow)"

text \<open>Unfolding a computation into the cases of its result.\<close>

named_theorems comp_defs

declare rbind_def [comp_defs] cbind_def [comp_defs] ret_def [comp_defs]

lemma rbind_simps [simp]:
  "rbind (Inl e) f = Inl e"
  "rbind (Inr x) f = f x"
  by (simp_all add: rbind_def)

lemma cbind_simps [simp]:
  "cbind None f = None"
  "cbind (Some (Inl e)) f = Some (Inl e)"
  "cbind (Some (Inr x)) f = f x"
  "cbind (ret x) f = f x"
  by (simp_all add: cbind_def ret_def)

lemma ret_eq_iff [simp]:
  "ret x = ret y \<longleftrightarrow> x = y"
  "ret x \<noteq> None"
  "Some r = ret y \<longleftrightarrow> r = Inr y"
  "ret y = Some r \<longleftrightarrow> Inr y = r"
  by (auto simp: ret_def)

lemma rbind_eq_Inr_iff: "rbind m f = Inr y \<longleftrightarrow> (\<exists>x. m = Inr x \<and> f x = Inr y)"
  by (cases m) auto

lemma rbind_eq_Inl_iff: "rbind m f = Inl e \<longleftrightarrow> m = Inl e \<or> (\<exists>x. m = Inr x \<and> f x = Inl e)"
  by (cases m) auto

lemma cbind_eq_ret_iff: "cbind m f = ret y \<longleftrightarrow> (\<exists>x. m = ret x \<and> f x = ret y)"
  by (auto simp: cbind_def ret_def split: option.splits sum.splits)

lemma cbind_mono [partial_function_mono]:
  fixes B :: "('a \<Rightarrow> 'b option) \<Rightarrow> 'c comp"
  assumes B: "mono_option B" and C: "\<And>y. mono_option (C y)"
  shows "mono_option (\<lambda>f. cbind (B f) (\<lambda>y. C y f))"
proof (rule monotoneI)
  fix f g :: "'a \<Rightarrow> 'b option"
  assume fg: "fun_ord option_ord f g"
  have b: "option_ord (B f) (B g)" using B fg by (rule monotoneD [of _ _ _ f g])
  show "option_ord (cbind (B f) (\<lambda>y. C y f)) (cbind (B g) (\<lambda>y. C y g))"
  proof (cases "B f")
    case None
    then show ?thesis by (simp add: flat_ord_def)
  next
    case (Some r)
    with b have g: "B g = Some r" by (simp add: flat_ord_def)
    show ?thesis
    proof (cases r)
      case (Inl e)
      with Some g show ?thesis by (simp add: flat_ord_def)
    next
      case (Inr x)
      with Some g show ?thesis using monotoneD [OF C, of f g] fg by simp
    qed
  qed
qed

lemma assert_that_simps [simp]:
  "assert_that True = Inr ()"
  "assert_that False = Inl AssertFailed"
  "assert_that b = Inr u \<longleftrightarrow> b"
  by (simp_all add: assert_that_def)

lemma debug_assert_simps [simp]:
  "debug_assert False b = Inr ()"
  "debug_assert dbg True = Inr ()"
  "debug_assert True b = assert_that b"
  "debug_assert dbg b = Inr u \<longleftrightarrow> (dbg \<longrightarrow> b)"
  by (simp_all add: debug_assert_def)

section \<open>Three-way comparison of byte slices\<close>

datatype ordering = Less | Equal | Greater

definition nat_cmp :: "nat \<Rightarrow> nat \<Rightarrow> ordering" where
  "nat_cmp a b = (if a < b then Less else if a = b then Equal else Greater)"

text \<open>\<^verbatim>\<open>Ord\<close> for \<^verbatim>\<open>[u8]\<close>: lexicographic on unsigned bytes, a proper prefix is smaller.\<close>

fun bytes_cmp :: "bytes \<Rightarrow> bytes \<Rightarrow> ordering" where
  "bytes_cmp [] [] = Equal"
| "bytes_cmp [] (b # bs) = Less"
| "bytes_cmp (a # as) [] = Greater"
| "bytes_cmp (a # as) (b # bs) = (if a < b then Less else if b < a then Greater else bytes_cmp as bs)"

lemma nat_cmp_simps [simp]:
  "nat_cmp a b = Less \<longleftrightarrow> a < b"
  "nat_cmp a b = Equal \<longleftrightarrow> a = b"
  "nat_cmp a b = Greater \<longleftrightarrow> b < a"
  by (auto simp: nat_cmp_def)

lemma bytes_cmp_Equal [simp]: "bytes_cmp a b = Equal \<longleftrightarrow> a = b"
  by (induction a b rule: bytes_cmp.induct) auto

lemma bytes_cmp_refl [simp]: "bytes_cmp a a = Equal"
  by simp

primrec flip_ordering :: "ordering \<Rightarrow> ordering" where
  "flip_ordering Less = Greater"
| "flip_ordering Equal = Equal"
| "flip_ordering Greater = Less"

lemma flip_ordering_iff [simp]:
  "flip_ordering r = Less \<longleftrightarrow> r = Greater"
  "flip_ordering r = Equal \<longleftrightarrow> r = Equal"
  "flip_ordering r = Greater \<longleftrightarrow> r = Less"
  by (cases r; simp)+

lemma bytes_cmp_flip: "bytes_cmp b a = flip_ordering (bytes_cmp a b)"
  by (induction a b rule: bytes_cmp.induct) auto

lemma bytes_cmp_swap: "bytes_cmp a b = Less \<longleftrightarrow> bytes_cmp b a = Greater"
  by (subst bytes_cmp_flip) (cases "bytes_cmp b a"; simp)

lemma bytes_cmp_trans: "bytes_cmp a b = Less \<Longrightarrow> bytes_cmp b c = Less \<Longrightarrow> bytes_cmp a c = Less"
proof (induction a b arbitrary: c rule: bytes_cmp.induct)
  case (4 a as b bs)
  then show ?case by (cases c) (auto split: if_splits)
qed (auto elim: bytes_cmp.elims)

lemma ordering_exhaust3: "r \<noteq> Less \<Longrightarrow> r \<noteq> Equal \<Longrightarrow> r = Greater"
  by (cases r) auto

section \<open>Fixed-width byte encodings\<close>

text \<open>\<open>be_bytes n x\<close> are the \<open>n\<close> big-endian bytes of \<open>x\<close>, \<open>be_val\<close> reads them back.\<close>

fun be_bytes :: "nat \<Rightarrow> nat \<Rightarrow> bytes" where
  "be_bytes 0 x = []"
| "be_bytes (Suc n) x = word_of_nat (x div 256 ^ n) # be_bytes n x"

fun be_val :: "bytes \<Rightarrow> nat" where
  "be_val [] = 0"
| "be_val (b # bs) = unat b * 256 ^ length bs + be_val bs"

definition le_bytes :: "nat \<Rightarrow> nat \<Rightarrow> bytes" where
  "le_bytes n x = rev (be_bytes n x)"

definition le_val :: "bytes \<Rightarrow> nat" where
  "le_val bs = be_val (rev bs)"

lemma length_be_bytes [simp]: "length (be_bytes n x) = n"
  by (induction n) auto

lemma length_le_bytes [simp]: "length (le_bytes n x) = n"
  by (simp add: le_bytes_def)

lemma unat_u8_less [simp]: "unat (b :: u8) < 256"
  using unsigned_less [of b] by simp

lemma list_of_length_4: "length xs = 4 \<Longrightarrow> \<exists>a b c d. xs = [a, b, c, d]"
  by (simp add: numeral_eq_Suc length_Suc_conv) blast

lemma unat_drop_bit_div: "unat (drop_bit n w) = unat w div 2 ^ n"
  by (simp only: unat_drop_bit_eq drop_bit_eq_div [where 'a = nat])

lemma unat_u8_of_nat: "unat (word_of_nat x :: u8) = x mod 256"
  by (simp add: unat_of_nat)

lemma be_val_less: "be_val bs < 256 ^ length bs"
proof (induction bs)
  case (Cons b bs)
  have "unat b * 256 ^ length bs + be_val bs < unat b * 256 ^ length bs + 256 ^ length bs"
    using Cons by simp
  also have "\<dots> = (unat b + 1) * 256 ^ length bs" by (simp add: algebra_simps)
  also have "\<dots> \<le> 256 * 256 ^ length bs"
    using unat_u8_less [of b] by (intro mult_right_mono) linarith+
  finally show ?case by simp
qed simp

lemma be_val_be_bytes: "be_val (be_bytes n x) = x mod 256 ^ n"
proof (induction n)
  case (Suc n)
  have "x mod 256 ^ Suc n = x mod (256 ^ n * 256)" by (simp add: mult.commute)
  also have "\<dots> = 256 ^ n * (x div 256 ^ n mod 256) + x mod 256 ^ n" by (rule mod_mult2_eq)
  finally show ?case using Suc by (simp add: unat_u8_of_nat mult.commute)
qed simp

lemma be_val_be_bytes_id: "x < 256 ^ n \<Longrightarrow> be_val (be_bytes n x) = x"
  by (simp add: be_val_be_bytes)

lemma le_val_le_bytes: "le_val (le_bytes n x) = x mod 256 ^ n"
  by (simp add: le_val_def le_bytes_def be_val_be_bytes)

lemma le_val_less: "le_val bs < 256 ^ length bs"
  using be_val_less [of "rev bs"] by (simp add: le_val_def)

lemma be_val_inj: "length a = length b \<Longrightarrow> be_val a = be_val b \<longleftrightarrow> a = b"
proof (induction a b rule: list_induct2)
  case (Cons x xs y ys)
  have "unat x * 256 ^ length ys + be_val xs = unat y * 256 ^ length ys + be_val ys
        \<longleftrightarrow> unat x = unat y \<and> be_val xs = be_val ys"
    (is "?l \<longleftrightarrow> ?r")
  proof
    assume l: ?l
    have "(unat x * 256 ^ length ys + be_val xs) div 256 ^ length ys = unat x"
      using be_val_less [of xs] Cons.hyps by simp
    moreover have "(unat y * 256 ^ length ys + be_val ys) div 256 ^ length ys = unat y"
      using be_val_less [of ys] by simp
    ultimately have "unat x = unat y" using l by simp
    with l show ?r by simp
  qed simp
  with Cons show ?case by (auto simp: unsigned_word_eqI)
qed simp

text \<open>Bytewise comparison of equally long big-endian encodings is numeric comparison.\<close>

lemma bytes_cmp_be_val:
  "length a = length b \<Longrightarrow> bytes_cmp a b = nat_cmp (be_val a) (be_val b)"
proof (induction a b rule: list_induct2)
  case (Cons x xs y ys)
  let ?p = "256 ^ length ys :: nat"
  have px: "be_val xs < ?p" using be_val_less [of xs] Cons.hyps by simp
  have py: "be_val ys < ?p" using be_val_less [of ys] by simp
  show ?case
  proof (cases "x = y")
    case True
    with Cons show ?thesis by (auto simp: nat_cmp_def)
  next
    case False
    have lt: "unat u * ?p + a < unat v * ?p + b" if "u < v" "a < ?p" for u v :: u8 and a b
    proof -
      have "(unat u + 1) * ?p \<le> unat v * ?p"
        using that(1) by (intro mult_right_mono) (auto simp: word_less_nat_alt)
      then show ?thesis using that(2) by (simp add: algebra_simps)
    qed
    from False consider "x < y" | "y < x" by (metis linorder_neqE)
    then show ?thesis
    proof cases
      case 1
      then show ?thesis using lt [OF 1 px, of "be_val ys"] Cons.hyps by (simp add: nat_cmp_def)
    next
      case 2
      then show ?thesis using lt [OF 2 py, of "be_val xs"] Cons.hyps by (auto simp: nat_cmp_def)
    qed
  qed
qed (simp add: nat_cmp_def)

end
