(* ===== verification/Byte_Codec.thy ===== *)
theory Byte_Codec
  imports VDB_Prelude
begin

unbundle bit_operations_syntax

text \<open>
  The byte-level helpers of the engine: the unaligned little- and big-endian reads and writes of
  \<^verbatim>\<open>utils/mod.rs\<close> and the variable-length integers of \<^verbatim>\<open>utils/var_int.rs\<close>.
  A raw pointer into a buffer is the pair of the buffer and an offset; an access that does not fit
  in the buffer is \<open>InvalidAccess\<close>.
\<close>

section \<open>Fixed-width reads and writes\<close>

datatype endian = LittleEndian | BigEndian

text \<open>
  \<^verbatim>\<open>ptr::read_unaligned\<close> reads in the target's byte order; \<^verbatim>\<open>to_le\<close> and
  \<^verbatim>\<open>to_be\<close> swap bytes when the target's order is the other one.
\<close>

definition read_native :: "endian \<Rightarrow> bytes \<Rightarrow> nat" where
  "read_native e bs = (case e of LittleEndian \<Rightarrow> le_val bs | BigEndian \<Rightarrow> be_val bs)"

definition swap_bytes :: "nat \<Rightarrow> nat \<Rightarrow> nat" where
  "swap_bytes n x = le_val (be_bytes n x)"

definition to_le :: "endian \<Rightarrow> nat \<Rightarrow> nat \<Rightarrow> nat" where
  "to_le e n x = (case e of LittleEndian \<Rightarrow> x | BigEndian \<Rightarrow> swap_bytes n x)"

definition to_be :: "endian \<Rightarrow> nat \<Rightarrow> nat \<Rightarrow> nat" where
  "to_be e n x = (case e of LittleEndian \<Rightarrow> swap_bytes n x | BigEndian \<Rightarrow> x)"

definition slice_at :: "bytes \<Rightarrow> nat \<Rightarrow> nat \<Rightarrow> bytes res" where
  "slice_at buf off n = (if off + n \<le> length buf then Inr (take n (drop off buf)) else Inl InvalidAccess)"

definition copy_into :: "bytes \<Rightarrow> nat \<Rightarrow> bytes \<Rightarrow> bytes res" where
  "copy_into buf off src =
     (if off + length src \<le> length buf
      then Inr (take off buf @ src @ drop (off + length src) buf) else Inl InvalidAccess)"

definition read_u16_le_unsafe :: "endian \<Rightarrow> bytes \<Rightarrow> nat \<Rightarrow> nat res" where
  "read_u16_le_unsafe e buf off = rbind (slice_at buf off 2) (\<lambda>bs. Inr (to_le e 2 (read_native e bs)))"

definition write_u16_le_unsafe :: "bytes \<Rightarrow> nat \<Rightarrow> nat \<Rightarrow> bytes res" where
  "write_u16_le_unsafe buf off value = copy_into buf off (le_bytes 2 value)"

definition read_u32_le_unsafe :: "endian \<Rightarrow> bytes \<Rightarrow> nat \<Rightarrow> nat res" where
  "read_u32_le_unsafe e buf off = rbind (slice_at buf off 4) (\<lambda>bs. Inr (to_le e 4 (read_native e bs)))"

definition write_u32_le_unsafe :: "bytes \<Rightarrow> nat \<Rightarrow> nat \<Rightarrow> bytes res" where
  "write_u32_le_unsafe buf off value = copy_into buf off (le_bytes 4 value)"

definition read_u32_be_unsafe :: "endian \<Rightarrow> bytes \<Rightarrow> nat \<Rightarrow> nat res" where
  "read_u32_be_unsafe e buf off = rbind (slice_at buf off 4) (\<lambda>bs. Inr (to_be e 4 (read_native e bs)))"

definition write_u32_be_unsafe :: "bytes \<Rightarrow> nat \<Rightarrow> nat \<Rightarrow> bytes res" where
  "write_u32_be_unsafe buf off value = copy_into buf off (be_bytes 4 value)"

section \<open>Variable-length integers\<close>

datatype var_int =
    One u8
  | Two u8 u8
  | Three u8 u8 u8
  | Four u8 u8 u8 u8

definition MSB :: u8 where "MSB = 0x80"
definition LOW_7_BITS :: u32 where "LOW_7_BITS = 0x7F"
definition SHIFT_7_BITS :: nat where "SHIFT_7_BITS = 7"

function var_int_loop :: "bytes \<Rightarrow> u32 \<Rightarrow> nat \<Rightarrow> (bytes \<times> u32 \<times> nat) res" where
  "var_int_loop buf v i =
     (if 127 < v then
        (if i < length buf
         then var_int_loop (buf[i := ucast (v AND LOW_7_BITS) OR MSB]) (drop_bit SHIFT_7_BITS v) (i + 1)
         else Inl OutOfBounds)
      else Inr (buf, v, i))"
  by pat_completeness auto
termination
proof (relation "measure (\<lambda>(buf, v, i). unat v)")
  fix buf :: bytes and v :: u32 and i :: nat
  assume "127 < v"
  then have "0 < unat v" by (simp add: word_less_nat_alt)
  then have "unat (drop_bit SHIFT_7_BITS v) < unat v"
    by (simp only: SHIFT_7_BITS_def unat_drop_bit_div) simp
  then show "((buf[i := ucast (v AND LOW_7_BITS) OR MSB], drop_bit SHIFT_7_BITS v, i + 1), buf, v, i)
        \<in> measure (\<lambda>(buf, v, i). unat v)" by simp
qed simp

declare var_int_loop.simps [simp del]

definition var_int_new :: "u32 \<Rightarrow> var_int res" where
  "var_int_new value =
     rbind (var_int_loop (replicate 4 0) value 0) (\<lambda>(buf, v, i).
       if i < length buf then
         let buf = buf[i := ucast v] in
         Inr (if i + 1 = 1 then One (buf ! 0)
              else if i + 1 = 2 then Two (buf ! 0) (buf ! 1)
              else if i + 1 = 3 then Three (buf ! 0) (buf ! 1) (buf ! 2)
              else Four (buf ! 0) (buf ! 1) (buf ! 2) (buf ! 3))
       else Inl OutOfBounds)"

text \<open>
  The shift amount grows with every continuation byte; a shift by 32 or more panics in a build
  with overflow checks (\<open>dbg\<close>) and is taken modulo 32 otherwise.
\<close>

fun var_int_decode_loop :: "bool \<Rightarrow> bytes \<Rightarrow> u32 \<Rightarrow> nat \<Rightarrow> nat \<Rightarrow> (u32 \<times> nat) res" where
  "var_int_decode_loop dbg [] result shift bytes_read = Inr (result, bytes_read)"
| "var_int_decode_loop dbg (byte # buf) result shift bytes_read =
     (if dbg \<and> 32 \<le> shift then Inl ArithOverflow
      else let result = result OR push_bit (shift mod 32) (ucast (byte AND 0x7F)) in
        (if byte AND 0x80 = 0 then Inr (result, bytes_read + 1)
         else var_int_decode_loop dbg buf result (shift + 7) (bytes_read + 1)))"

definition var_int_decode :: "bool \<Rightarrow> bytes \<Rightarrow> (u32 \<times> nat) res" where
  "var_int_decode dbg buf = var_int_decode_loop dbg buf 0 0 0"

fun var_int_as_slice :: "var_int \<Rightarrow> bytes" where
  "var_int_as_slice (One a) = [a]"
| "var_int_as_slice (Two a b) = [a, b]"
| "var_int_as_slice (Three a b c) = [a, b, c]"
| "var_int_as_slice (Four a b c d) = [a, b, c, d]"

text \<open>The reference encoding, seven bits per byte, least significant group first.\<close>

function leb128 :: "nat \<Rightarrow> bytes" where
  "leb128 n = (if n < 128 then [word_of_nat n] else word_of_nat (128 + n mod 128) # leb128 (n div 128))"
  by pat_completeness auto
termination
  by (relation "measure id") auto

declare leb128.simps [simp del]

section \<open>Reads and writes do not depend on the target\<close>

lemma swap_bytes_be_val: "length bs = n \<Longrightarrow> swap_bytes n (be_val bs) = le_val bs"
proof -
  assume n: "length bs = n"
  have "be_val (be_bytes n (be_val bs)) = be_val bs"
    using be_val_less [of bs] n by (simp add: be_val_be_bytes)
  then have "be_bytes n (be_val bs) = bs" using n by (simp add: be_val_inj)
  then show ?thesis by (simp add: swap_bytes_def)
qed

lemma swap_bytes_le_val: "length bs = n \<Longrightarrow> swap_bytes n (le_val bs) = be_val bs"
  using swap_bytes_be_val [of "rev bs" n] by (simp add: le_val_def)

lemma to_le_read_native: "length bs = n \<Longrightarrow> to_le e n (read_native e bs) = le_val bs"
  by (cases e) (simp_all add: to_le_def read_native_def swap_bytes_be_val)

lemma to_be_read_native: "length bs = n \<Longrightarrow> to_be e n (read_native e bs) = be_val bs"
  by (cases e) (simp_all add: to_be_def read_native_def swap_bytes_le_val)

lemma copy_into_fits:
  "off + length src \<le> length buf \<Longrightarrow>
   copy_into buf off src = Inr (take off buf @ src @ drop (off + length src) buf)"
  by (simp add: copy_into_def)

lemma slice_at_written:
  "off + length src \<le> length buf \<Longrightarrow>
   slice_at (take off buf @ src @ drop (off + length src) buf) off (length src) = Inr src"
  by (simp add: slice_at_def)

lemma length_copy_into: "copy_into buf off src = Inr buf' \<Longrightarrow> length buf' = length buf"
  by (auto simp: copy_into_def split: if_splits)


section \<open>Correctness of the variable-length encoding\<close>

lemma leb128_small: "n < 128 \<Longrightarrow> leb128 n = [word_of_nat n]"
  by (simp add: leb128.simps)

lemma leb128_large: "128 \<le> n \<Longrightarrow> leb128 n = word_of_nat (128 + n mod 128) # leb128 (n div 128)"
  by (simp add: leb128.simps [of n])

lemma leb128_length_pos: "0 < length (leb128 n)"
  by (subst leb128.simps) simp

lemma and_7F: "w AND 0x7F = take_bit 7 (w :: 'a :: len word)"
  by (simp add: take_bit_eq_mask mask_eq_exp_minus_1)

lemma unat_and_7F: "unat (w AND 0x7F) = unat (w :: 'a :: len word) mod 128"
  by (simp only: and_7F unsigned_take_bit_eq take_bit_eq_mod [where 'a = nat]) simp

lemma group_byte: "ucast (v AND LOW_7_BITS) OR MSB = (word_of_nat (128 + unat v mod 128) :: u8)"
proof -
  let ?m = "ucast (v AND 0x7F) :: u8"
  have m: "unat ?m = unat v mod 128"
    by (simp only: unsigned_ucast_eq unat_and_7F) (simp add: take_bit_eq_mod)
  have "?m OR 0x80 = ?m + 0x80"
  proof (rule disjunctive_add [symmetric])
    fix n
    have "(0x80 :: u8) = 2 ^ 7" by simp
    then have "bit (0x80 :: u8) n \<longleftrightarrow> n = 7" by (simp only: bit_exp_iff) (auto simp: possible_bit_def)
    then show "\<not> bit ?m n \<or> \<not> bit (0x80 :: u8) n"
      by (auto simp: and_7F bit_simps)
  qed
  also have "\<dots> = word_of_nat (128 + unat v mod 128)"
    using m by (simp add: word_unat_eq_iff unat_word_ariths unat_of_nat)
  finally show ?thesis by (simp add: LOW_7_BITS_def MSB_def)
qed


lemma group_byte_and:
  assumes "m < 128"
  shows "(word_of_nat (128 + m) :: u8) AND 0x7F = word_of_nat m"
    and "(word_of_nat m :: u8) AND 0x7F = word_of_nat m"
  using assms by (simp_all only: word_unat_eq_iff unat_and_7F) (simp_all add: unat_of_nat unat_word_ariths)

lemma and_80_iff: "(w :: u8) AND 0x80 = 0 \<longleftrightarrow> unat w < 128"
proof -
  have "(0x80 :: u8) = 2 ^ 7" by simp
  then have "w AND 0x80 = 0 \<longleftrightarrow> \<not> bit w 7"
    by (simp only: and_exp_eq_0_iff_not_bit)
  also have "\<dots> \<longleftrightarrow> even (unat w div 128)"
    using bit_unsigned_iff [where 'a = nat, of w 7] by (simp add: bit_iff_odd)
  also have "\<dots> \<longleftrightarrow> unat w < 128"
  proof -
    have "unat w div 128 = 0 \<or> unat w div 128 = 1" using unat_u8_less [of w] by linarith
    then show ?thesis by auto
  qed
  finally show ?thesis .
qed


lemma ucast_small: "m < 256 \<Longrightarrow> ucast (word_of_nat m :: u8) = (word_of_nat m :: u32)"
  by (simp add: word_unat_eq_iff unsigned_ucast_eq unat_of_nat take_bit_eq_mod)

lemma group_shift:
  "push_bit s (word_of_nat (n mod 128)) OR push_bit (s + 7) (word_of_nat (n div 128))
   = push_bit s (word_of_nat n :: u32)"
proof -
  have "take_bit 7 n OR push_bit 7 (drop_bit 7 n) = n"
  proof (rule bit_eqI)
    fix i
    show "bit (take_bit 7 n OR push_bit 7 (drop_bit 7 n)) i \<longleftrightarrow> bit n i"
      by (cases "i < 7") (auto simp: bit_simps)
  qed
  then have "push_bit s (take_bit 7 n) OR push_bit (s + 7) (drop_bit 7 n) = push_bit s n"
    by (metis push_bit_or push_bit_push_bit)
  then have "push_bit s (n mod 128) OR push_bit (s + 7) (n div 128) = push_bit s n"
    by (simp add: take_bit_eq_mod drop_bit_eq_div)
  from arg_cong [where f = "word_of_nat :: nat \<Rightarrow> u32", OF this] show ?thesis
    by (simp add: push_bit_eq_mult of_nat_or_eq)
qed

lemma var_int_decode_loop_leb128:
  assumes "n * 2 ^ s < 2 ^ 32" "s < 32"
  shows "var_int_decode_loop dbg (leb128 n @ rest) r s k
         = Inr (r OR push_bit s (word_of_nat n), k + length (leb128 n))"
  using assms
proof (induction n arbitrary: r s k rule: leb128.induct)
  case (1 n)
  show ?case
  proof (cases "n < 128")
    case True
    then show ?thesis using "1.prems"
      by (simp add: leb128_small group_byte_and and_80_iff unat_of_nat ucast_small)
  next
    case False
    have lt: "n div 128 * 2 ^ (s + 7) < 2 ^ 32"
    proof -
      have "n div 128 * 2 ^ (s + 7) = n div 128 * 128 * 2 ^ s" by (simp add: power_add)
      also have "\<dots> \<le> n * 2 ^ s" by (intro mult_right_mono) simp_all
      finally show ?thesis using "1.prems"(1) by (rule le_less_trans)
    qed
    have s: "s + 7 < 32"
    proof -
      have "2 ^ (s + 7) \<le> n div 128 * 2 ^ (s + 7)" using False by simp
      then have "(2 :: nat) ^ (s + 7) < 2 ^ 32" using lt by (rule le_less_trans)
      then show ?thesis by (simp only: power_strict_increasing_iff one_less_numeral_iff semiring_norm(76))
    qed
    have "\<not> (word_of_nat (128 + n mod 128) :: u8) AND 0x80 = 0"
      by (simp add: and_80_iff unat_of_nat del: of_nat_add)
    moreover have "(word_of_nat (128 + n mod 128) :: u8) AND 0x7F = word_of_nat (n mod 128)"
      by (rule group_byte_and) simp
    ultimately show ?thesis
      using False "1.prems"(2) "1.IH" [OF False lt s, of "r OR push_bit s (word_of_nat (n mod 128))" "k + 1"]
      by (simp add: leb128_large ucast_small or.assoc group_shift del: of_nat_add)
  qed
qed


lemma var_int_loop_small: "\<not> 127 < v \<Longrightarrow> var_int_loop buf v i = Inr (buf, v, i)"
  by (simp add: var_int_loop.simps)

lemma var_int_loop_large:
  "127 < v \<Longrightarrow> i < length buf \<Longrightarrow> var_int_loop buf v i
    = var_int_loop (buf[i := word_of_nat (128 + unat v mod 128)]) (drop_bit 7 v) (i + 1)"
  by (subst var_int_loop.simps) (simp add: group_byte SHIFT_7_BITS_def del: of_nat_add)

lemma var_int_loop_full: "127 < v \<Longrightarrow> \<not> i < length buf \<Longrightarrow> var_int_loop buf v i = Inl OutOfBounds"
  by (subst var_int_loop.simps) simp

lemma u32_gt_127: "(127 < (v :: u32)) \<longleftrightarrow> 128 \<le> unat v"
  by (auto simp: word_less_nat_alt)

text \<open>The encoder's loop writes all groups but the last and leaves the last one in \<open>v\<close>.\<close>

lemma var_int_loop_leb128:
  assumes "unat v < 128 ^ (length buf - i)" "i < length buf"
  shows "\<exists>buf' v' j. var_int_loop buf v i = Inr (buf', v', j) \<and> j < length buf' \<and>
           length buf' = length buf \<and>
           take (Suc j) (buf'[j := ucast v']) = take i buf @ leb128 (unat v)"
  using assms
proof (induction buf v i rule: var_int_loop.induct)
  case (1 buf v i)
  show ?case
  proof (cases "127 < v")
    case False
    then have lt: "unat v < 128" by (simp add: u32_gt_127)
    then have "(ucast v :: u8) = word_of_nat (unat v)"
      by (simp add: word_unat_eq_iff unsigned_ucast_eq unat_of_nat take_bit_eq_mod)
    then show ?thesis using False lt "1.prems"(2)
      by (simp add: var_int_loop_small leb128_small take_Suc_conv_app_nth)
  next
    case True
    then have ge: "128 \<le> unat v" by (simp add: u32_gt_127)
    have i1: "i + 1 < length buf"
    proof (rule ccontr)
      assume "\<not> i + 1 < length buf"
      then have "length buf - i = 1" using "1.prems"(2) by simp
      then show False using "1.prems"(1) ge by simp
    qed
    have v7: "unat (drop_bit 7 v) = unat v div 128" by (simp only: unat_drop_bit_div) simp
    have "unat v < 128 ^ (length buf - (i + 1)) * 128"
      using "1.prems" by (metis Suc_diff_Suc Suc_eq_plus1 power_Suc2)
    then have "unat (drop_bit 7 v) < 128 ^ (length buf - (i + 1))"
      by (simp only: v7 less_mult_imp_div_less)
    then show ?thesis
      using "1.IH" [OF True "1.prems"(2)] i1 v7 "1.prems"(2) ge
      by (simp add: group_byte SHIFT_7_BITS_def var_int_loop_large [OF True "1.prems"(2)]
          leb128_large take_Suc_conv_app_nth [of i buf] del: of_nat_add)
        (simp add: take_Suc_conv_app_nth)
  qed
qed


lemma var_int_loop_overflow:
  assumes "128 ^ (length buf - i) \<le> unat v" "i \<le> length buf"
  shows "case var_int_loop buf v i of Inl e \<Rightarrow> e = OutOfBounds | Inr r \<Rightarrow> \<not> snd (snd r) < length (fst r)"
  using assms
proof (induction buf v i rule: var_int_loop.induct)
  case (1 buf v i)
  show ?case
  proof (cases "i < length buf")
    case False
    then show ?thesis by (cases "127 < v") (simp_all add: var_int_loop_full var_int_loop_small)
  next
    case True
    then have "128 ^ 1 \<le> (128 :: nat) ^ (length buf - i)" by (intro power_increasing) auto
    then have "128 \<le> unat v" using "1.prems" by simp
    then have v: "127 < v" by (simp add: u32_gt_127)
    have v7: "unat (drop_bit 7 v) = unat v div 128" by (simp only: unat_drop_bit_div) simp
    have "128 ^ (length buf - (i + 1)) * 128 \<le> unat v"
      using "1.prems" True by (metis Suc_diff_Suc Suc_eq_plus1 power_Suc2)
    then have "128 ^ (length buf - (i + 1)) \<le> unat (drop_bit 7 v)"
      by (simp only: v7 less_eq_div_iff_mult_less_eq zero_less_numeral)
    then show ?thesis
      using "1.IH" [OF v True] True
      by (simp add: group_byte SHIFT_7_BITS_def var_int_loop_large [OF v True] del: of_nat_add)
  qed
qed

lemma var_int_new_leb128:
  assumes "unat v < 2 ^ 28"
  shows "\<exists>x. var_int_new v = Inr x \<and> var_int_as_slice x = leb128 (unat v)"
proof -
  obtain buf w j where loop: "var_int_loop (replicate 4 0) v 0 = Inr (buf, w, j)"
    and j: "j < length buf" "length buf = 4"
    and eq: "take (Suc j) (buf[j := ucast w]) = leb128 (unat v)"
    using var_int_loop_leb128 [of v "replicate 4 0" 0] assms by auto
  obtain a b c d where abcd: "buf[j := ucast w] = [a, b, c, d]"
    using list_of_length_4 [of "buf[j := ucast w]"] j(2) by auto
  have "j = 0 \<or> j = 1 \<or> j = 2 \<or> j = 3" using j by auto
  then show ?thesis
    unfolding var_int_new_def loop using j eq abcd
    by (auto simp: Let_def)
qed

text \<open>
  C38: For every value below 2^28, \<^verbatim>\<open>VarInt::new\<close> succeeds, its slice is at most four bytes long, and
  \<^verbatim>\<open>VarInt::decode\<close> on that slice followed by any bytes returns the value and exactly the number
  of bytes written, in builds with and without overflow checks.
\<close>

theorem var_int_roundtrip:
  assumes "unat v < 2 ^ 28"
  shows "\<exists>x. var_int_new v = Inr x \<and> length (var_int_as_slice x) \<le> 4 \<and>
             var_int_decode dbg (var_int_as_slice x @ rest) = Inr (v, length (var_int_as_slice x))"
proof -
  obtain x where x: "var_int_new v = Inr x" "var_int_as_slice x = leb128 (unat v)"
    using var_int_new_leb128 [OF assms] by blast
  have "length (var_int_as_slice x) \<le> 4" by (cases x) simp_all
  moreover have "var_int_decode dbg (leb128 (unat v) @ rest) = Inr (v, length (leb128 (unat v)))"
    using assms by (simp add: var_int_decode_def var_int_decode_loop_leb128)
  ultimately show ?thesis using x by auto
qed

theorem var_int_roundtrip_witness:
  "\<exists>x. var_int_new 3000000 = Inr x \<and> length (var_int_as_slice x) \<le> 4 \<and>
       var_int_decode True (var_int_as_slice x @ [7]) = Inr (3000000, length (var_int_as_slice x))"
  by (rule var_int_roundtrip) simp

lemma var_int_new_fails: "2 ^ 28 \<le> unat v \<Longrightarrow> var_int_new v = Inl OutOfBounds"
  using var_int_loop_overflow [of "replicate 4 0" 0 v] by (auto simp: var_int_new_def split: sum.splits)

text \<open>
  \<^verbatim>\<open>VarInt::new\<close> panics with an index out of bounds exactly on the values of 2^28 and
  above, which need a fifth byte in its four-byte buffer.
\<close>

theorem var_int_new_panics_iff: "var_int_new v = Inl OutOfBounds \<longleftrightarrow> 2 ^ 28 \<le> unat v"
proof (cases "unat v < 2 ^ 28")
  case True
  then show ?thesis using var_int_new_leb128 [OF True] by auto
next
  case False
  then show ?thesis using var_int_new_fails [of v] by simp
qed

lemma write_read:
  assumes "off + length src \<le> length buf"
  shows "rbind (copy_into buf off src) (\<lambda>buf'. rbind (slice_at buf' off (length src)) f) = f src"
  using assms slice_at_written [of off src buf] by (simp add: copy_into_fits)

text \<open>
  A value written with one of the fixed-width writers and read back with the matching reader
  at the same place of a large enough buffer is unchanged, on little- and big-endian targets alike.
\<close>

theorem fixed_width_roundtrip:
  assumes "off + 4 \<le> length buf" "x < 2 ^ 32"
  shows "rbind (write_u32_le_unsafe buf off x) (\<lambda>b. read_u32_le_unsafe e b off) = Inr x \<and>
         rbind (write_u32_be_unsafe buf off x) (\<lambda>b. read_u32_be_unsafe e b off) = Inr x \<and>
         rbind (write_u16_le_unsafe buf off x) (\<lambda>b. read_u16_le_unsafe e b off) = Inr (x mod 2 ^ 16)"
proof (intro conjI)
  show "rbind (write_u32_le_unsafe buf off x) (\<lambda>b. read_u32_le_unsafe e b off) = Inr x"
    using assms write_read [of off "le_bytes 4 x" buf "\<lambda>bs. Inr (to_le e 4 (read_native e bs))"]
    by (simp add: write_u32_le_unsafe_def read_u32_le_unsafe_def to_le_read_native le_val_le_bytes)
  show "rbind (write_u32_be_unsafe buf off x) (\<lambda>b. read_u32_be_unsafe e b off) = Inr x"
    using assms write_read [of off "be_bytes 4 x" buf "\<lambda>bs. Inr (to_be e 4 (read_native e bs))"]
    by (simp add: write_u32_be_unsafe_def read_u32_be_unsafe_def to_be_read_native be_val_be_bytes)
  show "rbind (write_u16_le_unsafe buf off x) (\<lambda>b. read_u16_le_unsafe e b off) = Inr (x mod 2 ^ 16)"
    using assms write_read [of off "le_bytes 2 x" buf "\<lambda>bs. Inr (to_le e 2 (read_native e bs))"]
    by (simp add: write_u16_le_unsafe_def read_u16_le_unsafe_def to_le_read_native le_val_le_bytes)
qed

theorem fixed_width_roundtrip_witness:
  "rbind (write_u32_le_unsafe (replicate 12 0) 8 70000) (\<lambda>b. read_u32_le_unsafe BigEndian b 8) = Inr 70000 \<and>
   rbind (write_u32_be_unsafe (replicate 12 0) 8 70000) (\<lambda>b. read_u32_be_unsafe BigEndian b 8) = Inr 70000 \<and>
   rbind (write_u16_le_unsafe (replicate 12 0) 8 70000) (\<lambda>b. read_u16_le_unsafe BigEndian b 8)
     = Inr (70000 mod 2 ^ 16)"
  by (rule fixed_width_roundtrip) simp_all

end
