(* ===== verification/Internal_Key.thy ===== *)
theory Internal_Key
  imports VDB_Prelude
begin

unbundle bit_operations_syntax

text \<open>
  Internal keys (\<^verbatim>\<open>key/internal_key.rs\<close>, \<^verbatim>\<open>key/mod.rs\<close>) and the two comparators
  (\<^verbatim>\<open>key/comparator.rs\<close>). An internal key is the user key followed by the eight big-endian
  bytes of \<open>(seq_no << 8) | op\<close>. The locale \<open>key_comparator\<close> is the contract the skip list
  needs of a comparator; both comparators of the code are interpretations of it.

  The flag \<open>dbg\<close> is \<^verbatim>\<open>cfg!(debug_assertions)\<close>: with it, \<^verbatim>\<open>debug_assert!\<close> and
  overflow checks panic; without it, the code goes on.
\<close>

section \<open>Operation types and trailers\<close>

datatype operation_type = Put | Delete | Merge | Max

definition INLINE_IK_SIZE :: nat where "INLINE_IK_SIZE = 20"
definition MAX_KEY_SIZE :: nat where "MAX_KEY_SIZE = 65535"
definition INITIAL_KEY_BUFFER_CAP :: nat where "INITIAL_KEY_BUFFER_CAP = 512"

fun op_as_u8 :: "operation_type \<Rightarrow> u8" where
  "op_as_u8 Put = 1"
| "op_as_u8 Delete = 2"
| "op_as_u8 Merge = 3"
| "op_as_u8 Max = 255"

definition op_as_u64 :: "operation_type \<Rightarrow> u64" where
  "op_as_u64 op = ucast (op_as_u8 op)"

definition op_from_u8 :: "u8 \<Rightarrow> operation_type res" where
  "op_from_u8 b =
     (if b = 1 then Inr Put else if b = 2 then Inr Delete else if b = 3 then Inr Merge
      else if b = 255 then Inr Max else Inl UnreachableCode)"

fun op_display :: "operation_type \<Rightarrow> string" where
  "op_display Put = ''Put''"
| "op_display Delete = ''Delete''"
| "op_display Merge = ''Merge''"
| "op_display Max = ''Max''"

definition pack_trailer :: "bool \<Rightarrow> u64 \<Rightarrow> operation_type \<Rightarrow> u64 res" where
  "pack_trailer dbg seq_no op =
     rbind (debug_assert dbg (seq_no < push_bit 56 1)) (\<lambda>_. Inr (push_bit 8 seq_no OR op_as_u64 op))"

definition u64_to_be_bytes :: "u64 \<Rightarrow> bytes" where
  "u64_to_be_bytes w = be_bytes 8 (unat w)"

definition u64_from_be_bytes :: "bytes \<Rightarrow> u64" where
  "u64_from_be_bytes bs = word_of_nat (be_val bs)"

definition encode_trailer :: "bool \<Rightarrow> u64 \<Rightarrow> operation_type \<Rightarrow> bytes res" where
  "encode_trailer dbg seq_no op = rbind (pack_trailer dbg seq_no op) (\<lambda>t. Inr (u64_to_be_bytes t))"

definition unpack_trailer_raw :: "u64 \<Rightarrow> u64 \<times> u8" where
  "unpack_trailer_raw trailer = (drop_bit 8 trailer, ucast (trailer AND 0xFF))"

definition unpack_trailer :: "u64 \<Rightarrow> (u64 \<times> operation_type) res" where
  "unpack_trailer trailer =
     (let (seq_no, op) = unpack_trailer_raw trailer in rbind (op_from_u8 op) (\<lambda>t. Inr (seq_no, t)))"

definition extract_seq_no :: "u64 \<Rightarrow> u64" where
  "extract_seq_no trailer = drop_bit 8 trailer"

definition extract_op :: "u64 \<Rightarrow> operation_type res" where
  "extract_op trailer = op_from_u8 (ucast (trailer AND 0xFF))"

definition extract_op_raw :: "u64 \<Rightarrow> u8" where
  "extract_op_raw trailer = ucast (trailer AND 0xFF)"

section \<open>Decoded view and encoding into a buffer\<close>

record internal_key_ref =
  ik_user_key :: bytes
  ik_seq_no :: u64
  ik_op :: u8

text \<open>
  A key shorter than the trailer fails the debug assertion; without assertions
  \<open>key.len() - 8\<close> wraps and \<^verbatim>\<open>split_at\<close> panics.
\<close>

definition internal_key_from :: "bool \<Rightarrow> bytes \<Rightarrow> internal_key_ref res" where
  "internal_key_from dbg key =
     rbind (debug_assert dbg (8 \<le> length key)) (\<lambda>_.
       if length key < 8 then Inl OutOfBounds
       else let (s, p) = unpack_trailer_raw (u64_from_be_bytes (drop (length key - 8) key))
            in Inr \<lparr>ik_user_key = take (length key - 8) key, ik_seq_no = s, ik_op = p\<rparr>)"

definition encode_into :: "bool \<Rightarrow> bytes \<Rightarrow> bytes \<Rightarrow> u64 \<Rightarrow> operation_type \<Rightarrow> bytes res" where
  "encode_into dbg dst user_key seq_no op_type =
     (let user_len = length user_key in
      rbind (debug_assert dbg (user_len + 8 \<le> length dst)) (\<lambda>_.
        if length dst < user_len then Inl OutOfBounds
        else let dst = user_key @ drop user_len dst in
          rbind (encode_trailer dbg seq_no op_type) (\<lambda>trailer.
            if length dst < user_len + 8 then Inl OutOfBounds
            else Inr (take user_len dst @ trailer @ drop (user_len + 8) dst))))"

section \<open>Comparators\<close>

definition default_compare :: "bytes \<Rightarrow> bytes \<Rightarrow> ordering res" where
  "default_compare a b = Inr (bytes_cmp a b)"

text \<open>\<open>split_user\<close> is \<open>k.split_at(k.len() - 8)\<close>.\<close>

definition split_user :: "bool \<Rightarrow> bytes \<Rightarrow> (bytes \<times> bytes) res" where
  "split_user dbg k =
     (if length k < 8 then Inl (if dbg then ArithOverflow else OutOfBounds)
      else Inr (take (length k - 8) k, drop (length k - 8) k))"

definition internal_compare :: "bool \<Rightarrow> bytes \<Rightarrow> bytes \<Rightarrow> ordering res" where
  "internal_compare dbg a b =
     rbind (split_user dbg a) (\<lambda>(a_user, a_trailer).
     rbind (split_user dbg b) (\<lambda>(b_user, b_trailer).
       (case bytes_cmp a_user b_user of
          Equal \<Rightarrow> Inr (bytes_cmp b_trailer a_trailer)
        | other \<Rightarrow> Inr other)))"

text \<open>The comparator of a list is one of the two implementations of the trait, chosen when it is made.\<close>

datatype comparator = DefaultComparator | InternalKeyComparator

fun dyn_compare :: "bool \<Rightarrow> comparator \<Rightarrow> bytes \<Rightarrow> bytes \<Rightarrow> ordering res" where
  "dyn_compare dbg DefaultComparator = default_compare"
| "dyn_compare dbg InternalKeyComparator = internal_compare dbg"

fun key_valid :: "comparator \<Rightarrow> bytes \<Rightarrow> bool" where
  "key_valid DefaultComparator k = True"
| "key_valid InternalKeyComparator k = (8 \<le> length k)"

section \<open>The contract of a comparator\<close>

locale key_comparator =
  fixes cmp :: "bytes \<Rightarrow> bytes \<Rightarrow> ordering res"
    and valid :: "bytes \<Rightarrow> bool"
  assumes cmp_returns: "valid a \<Longrightarrow> valid b \<Longrightarrow> \<exists>r. cmp a b = Inr r"
    and cmp_equal: "valid a \<Longrightarrow> valid b \<Longrightarrow> cmp a b = Inr Equal \<longleftrightarrow> a = b"
    and cmp_swap: "valid a \<Longrightarrow> valid b \<Longrightarrow> cmp a b = Inr Less \<longleftrightarrow> cmp b a = Inr Greater"
    and cmp_trans: "valid a \<Longrightarrow> valid b \<Longrightarrow> valid c \<Longrightarrow>
      cmp a b = Inr Less \<Longrightarrow> cmp b c = Inr Less \<Longrightarrow> cmp a c = Inr Less"
begin

lemma cmp_cases:
  assumes "valid a" "valid b"
  obtains (less) "cmp a b = Inr Less" | (equal) "a = b" "cmp a b = Inr Equal"
    | (greater) "cmp a b = Inr Greater" "cmp b a = Inr Less"
proof -
  obtain r where "cmp a b = Inr r" using cmp_returns [OF assms] by blast
  with assms show thesis
    by (cases r) (use less equal greater cmp_equal cmp_swap in auto)
qed

lemma cmp_irrefl: "valid a \<Longrightarrow> cmp a a \<noteq> Inr Less"
  using cmp_equal [of a a] by simp

lemma less_not_less_trans:
  assumes "valid a" "valid b" "valid c" "cmp a c = Inr Less" "cmp b c \<noteq> Inr Less"
  shows "cmp a b = Inr Less"
  using assms(1,2)
proof (cases rule: cmp_cases)
  case equal
  with assms show ?thesis by simp
next
  case greater
  with assms show ?thesis using cmp_trans [of b a c] by simp
qed

lemma not_less_trans:
  assumes "valid a" "valid b" "valid c" "cmp b a \<noteq> Inr Less" "cmp c b \<noteq> Inr Less"
  shows "cmp c a \<noteq> Inr Less"
  using less_not_less_trans [of c b a] assms by blast

end

lemma internal_compare_valid:
  assumes "8 \<le> length a" "8 \<le> length b"
  shows "internal_compare dbg a b =
    (let ua = take (length a - 8) a; ta = drop (length a - 8) a;
         ub = take (length b - 8) b; tb = drop (length b - 8) b
     in Inr (case bytes_cmp ua ub of Equal \<Rightarrow> bytes_cmp tb ta | r \<Rightarrow> r))"
  using assms by (simp add: internal_compare_def split_user_def Let_def split: ordering.splits)


interpretation default_cmp: key_comparator default_compare "\<lambda>_. True"
proof unfold_locales
  show "default_compare a b = Inr Less \<longleftrightarrow> default_compare b a = Inr Greater" for a b
    by (simp add: default_compare_def bytes_cmp_swap)
qed (auto simp: default_compare_def intro: bytes_cmp_trans)

lemma internal_less_iff:
  assumes "8 \<le> length a" "8 \<le> length b"
  shows "internal_compare dbg a b = Inr Less \<longleftrightarrow>
    bytes_cmp (take (length a - 8) a) (take (length b - 8) b) = Less \<or>
    take (length a - 8) a = take (length b - 8) b \<and>
    bytes_cmp (drop (length b - 8) b) (drop (length a - 8) a) = Less"
  by (auto simp: internal_compare_valid [OF assms] Let_def split: ordering.splits)

abbreviation has_trailer :: "bytes \<Rightarrow> bool" where
  "has_trailer k \<equiv> 8 \<le> length k"

lemma split_eq_iff:
  assumes "has_trailer a" "has_trailer b"
    "take (length a - 8) a = take (length b - 8) b" "drop (length a - 8) a = drop (length b - 8) b"
  shows "a = b"
  using assms by (metis append_take_drop_id)

interpretation internal_cmp: key_comparator "internal_compare dbg" has_trailer for dbg
proof unfold_locales
  fix a b c :: bytes
  assume a: "has_trailer a" and b: "has_trailer b"
  show "\<exists>r. internal_compare dbg a b = Inr r"
    using internal_compare_valid [OF a b] by (simp add: Let_def)
  show "internal_compare dbg a b = Inr Equal \<longleftrightarrow> a = b"
    using split_eq_iff [OF a b]
    by (auto simp: internal_compare_valid [OF a b] Let_def split: ordering.splits)
  show "internal_compare dbg a b = Inr Less \<longleftrightarrow> internal_compare dbg b a = Inr Greater"
    using bytes_cmp_flip [of "take (length b - 8) b" "take (length a - 8) a"]
      bytes_cmp_flip [of "drop (length b - 8) b" "drop (length a - 8) a"]
    by (auto simp: internal_compare_valid [OF a b] internal_compare_valid [OF b a] Let_def
        split: ordering.splits)
  assume c: "has_trailer c" and ab: "internal_compare dbg a b = Inr Less"
    and bc: "internal_compare dbg b c = Inr Less"
  show "internal_compare dbg a c = Inr Less"
    using ab bc unfolding internal_less_iff [OF a b] internal_less_iff [OF b c] internal_less_iff [OF a c]
    by (auto dest: bytes_cmp_trans)
qed

lemma key_valid_fun: "key_valid DefaultComparator = (\<lambda>_. True)" "key_valid InternalKeyComparator = has_trailer"
  by auto

interpretation dyn_cmp: key_comparator "dyn_compare dbg c" "key_valid c" for dbg c
  by (cases c)
    (simp_all only: dyn_compare.simps key_valid_fun default_cmp.key_comparator_axioms
      internal_cmp.key_comparator_axioms)

section \<open>Trailers\<close>

lemma unat_op_as_u64: "unat (op_as_u64 p) = unat (op_as_u8 p)"
  by (cases p) (simp_all add: op_as_u64_def)

lemma unat_op_as_u64_less: "unat (op_as_u64 p) < 256"
  by (simp add: unat_op_as_u64)

lemma op_from_as_u8 [simp]: "op_from_u8 (op_as_u8 p) = Inr p"
  by (cases p) (simp_all add: op_from_u8_def)

lemma op_as_u8_inj [simp]: "op_as_u8 p = op_as_u8 q \<longleftrightarrow> p = q"
  by (cases p; cases q) simp_all

text \<open>The derived order of \<^verbatim>\<open>OperationType\<close> is that of its discriminants.\<close>

named_theorems op_order

instantiation operation_type :: linorder
begin

definition less_eq_operation_type :: "operation_type \<Rightarrow> operation_type \<Rightarrow> bool" where
  "less_eq_operation_type p q \<longleftrightarrow> op_as_u8 p \<le> op_as_u8 q"

definition less_operation_type :: "operation_type \<Rightarrow> operation_type \<Rightarrow> bool" where
  "less_operation_type p q \<longleftrightarrow> op_as_u8 p < op_as_u8 q"

instance
  by standard (auto simp: less_eq_operation_type_def less_operation_type_def less_le)

end

lemma op_le_iff [op_order]: "p \<le> q \<longleftrightarrow> unat (op_as_u8 p) \<le> unat (op_as_u8 q)"
  by (simp add: less_eq_operation_type_def word_le_nat_alt)

lemma op_less_iff [op_order]: "p < q \<longleftrightarrow> unat (op_as_u8 p) < unat (op_as_u8 q)"
  by (simp add: less_operation_type_def word_less_nat_alt)

lemma op_le_Max [simp]: "p \<le> Max"
  by (cases p) (simp_all add: op_order)

lemma unat_op_as_u8_less: "unat (op_as_u8 p) < 256"
  by simp

lemma trailer_number_less:
  "unat s < 2 ^ 56 \<Longrightarrow> unat s * 256 + unat (op_as_u8 p) < 256 ^ 8"
  using unat_op_as_u8_less [of p] by (simp del: unat_u8_less)

lemma trailer_value:
  fixes s :: u64
  assumes "unat s < 2 ^ 56"
  shows "unat (push_bit 8 s OR op_as_u64 p) = unat s * 256 + unat (op_as_u8 p)"
proof -
  have "push_bit 8 s OR op_as_u64 p = push_bit 8 s + op_as_u64 p"
  proof (rule disjunctive_add [symmetric])
    fix n
    have "\<not> bit (op_as_u64 p) n" if "8 \<le> n"
      using that by (auto simp: op_as_u64_def bit_simps dest: bit_imp_le_length)
    then show "\<not> bit (push_bit 8 s) n \<or> \<not> bit (op_as_u64 p) n"
      by (auto simp: bit_simps not_le)
  qed
  moreover have "unat (push_bit 8 s) = unat s * 256"
    using assms by (simp add: push_bit_eq_mult unat_word_ariths mult.commute)
  ultimately show ?thesis
    using trailer_number_less [OF assms, of p]
    by (simp add: unat_word_ariths unat_op_as_u64)
qed

definition trailer_of :: "u64 \<Rightarrow> operation_type \<Rightarrow> bytes" where
  "trailer_of s p = be_bytes 8 (unat s * 256 + unat (op_as_u8 p))"

lemma length_trailer_of [simp]: "length (trailer_of s p) = 8"
  by (simp add: trailer_of_def)

lemma encode_trailer_eq: "unat s < 2 ^ 56 \<Longrightarrow> encode_trailer dbg s p = Inr (trailer_of s p)"
  by (simp add: encode_trailer_def pack_trailer_def word_less_nat_alt u64_to_be_bytes_def
      trailer_value trailer_of_def debug_assert_def)

lemma be_val_trailer_of: "unat s < 2 ^ 56 \<Longrightarrow> be_val (trailer_of s p) = unat s * 256 + unat (op_as_u8 p)"
  unfolding trailer_of_def by (intro be_val_be_bytes_id trailer_number_less)

lemma unpack_trailer_of:
  assumes "unat s < 2 ^ 56"
  shows "unpack_trailer_raw (u64_from_be_bytes (trailer_of s p)) = (s, op_as_u8 p)"
proof -
  let ?t = "u64_from_be_bytes (trailer_of s p)"
  have t: "unat ?t = unat s * 256 + unat (op_as_u8 p)"
    using assms trailer_number_less [OF assms, of p]
    by (simp only: u64_from_be_bytes_def be_val_trailer_of unat_of_nat) simp
  have "unat (drop_bit 8 ?t) = unat s"
    by (simp only: unat_drop_bit_div t) simp
  moreover have "unat (ucast (?t AND 0xFF) :: u8) = unat (op_as_u8 p)"
  proof -
    have "?t AND 0xFF = take_bit 8 ?t" by (simp add: take_bit_eq_mask mask_eq_exp_minus_1)
    then have "unat (?t AND 0xFF) = unat ?t mod 256"
      by (simp only: unsigned_take_bit_eq take_bit_eq_mod [where 'a = nat]) simp
    then show ?thesis by (simp only: unsigned_ucast_eq t) (simp add: take_bit_eq_mod)
  qed
  ultimately show ?thesis by (simp add: unpack_trailer_raw_def word_unat_eq_iff)
qed


section \<open>Encoded keys\<close>

definition encoded_key :: "bytes \<Rightarrow> u64 \<Rightarrow> operation_type \<Rightarrow> bytes" where
  "encoded_key uk s p = uk @ trailer_of s p"

lemma length_encoded_key [simp]: "length (encoded_key uk s p) = length uk + 8"
  by (simp add: encoded_key_def)

lemma encode_into_eq:
  assumes "unat s < 2 ^ 56" "length uk + 8 \<le> length dst"
  shows "encode_into dbg dst uk s p = Inr (encoded_key uk s p @ drop (length uk + 8) dst)"
  using assms by (simp add: encode_into_def Let_def encode_trailer_eq encoded_key_def add.commute)

lemma internal_key_from_encoded [simp]:
  "unat s < 2 ^ 56 \<Longrightarrow> internal_key_from dbg (encoded_key uk s p)
     = Inr \<lparr>ik_user_key = uk, ik_seq_no = s, ik_op = op_as_u8 p\<rparr>"
  by (simp add: internal_key_from_def encoded_key_def unpack_trailer_of)

lemma encoded_key_inj:
  assumes "unat s < 2 ^ 56" "unat s' < 2 ^ 56" "encoded_key uk s p = encoded_key uk' s' p'"
  shows "uk = uk' \<and> s = s' \<and> p = p'"
proof -
  have "internal_key_from True (encoded_key uk s p) = internal_key_from True (encoded_key uk' s' p')"
    using assms(3) by simp
  then show ?thesis unfolding internal_key_from_encoded [OF assms(1)] internal_key_from_encoded [OF assms(2)]
    by simp
qed

lemma split_encoded_key:
  "take (length (encoded_key uk s p) - 8) (encoded_key uk s p) = uk"
  "drop (length (encoded_key uk s p) - 8) (encoded_key uk s p) = trailer_of s p"
  by (simp_all add: encoded_key_def)

lemma trailer_order:
  assumes "unat s < 2 ^ 56" "unat s' < 2 ^ 56"
  shows "bytes_cmp (trailer_of s' p') (trailer_of s p) = Less \<longleftrightarrow>
    unat s' < unat s \<or> s' = s \<and> unat (op_as_u8 p') < unat (op_as_u8 p)"
proof -
  have "a * 256 + c < b * 256 + d \<longleftrightarrow> a < b \<or> a = b \<and> c < d" if "c < 256" "d < 256" for a b c d :: nat
    using that by linarith
  then show ?thesis
    using assms by (simp add: bytes_cmp_be_val be_val_trailer_of word_unat_eq_iff)
qed

lemma internal_less_encoded:
  assumes "unat s < 2 ^ 56" "unat s' < 2 ^ 56"
  shows "internal_compare dbg (encoded_key uk s p) (encoded_key uk' s' p') = Inr Less \<longleftrightarrow>
     bytes_cmp uk uk' = Less \<or>
     uk = uk' \<and> (unat s' < unat s \<or> s' = s \<and> p' < p)"
  using assms by (subst internal_less_iff) (auto simp: split_encoded_key trailer_order op_order simp del: length_encoded_key
    simp: length_encoded_key [THEN arg_cong, of "\<lambda>n. 8 \<le> n"])

text \<open>
  C29: Encoding a user key, a sequence number below 2^56 and an operation with
  \<^verbatim>\<open>encode_into\<close> into a buffer of exactly the right size and decoding the buffer with
  \<^verbatim>\<open>InternalKeyRef::from\<close> gives back the three parts, and the raw operation byte converts to
  the operation.
\<close>

theorem internal_key_roundtrip:
  assumes "unat s < 2 ^ 56" "length dst = length uk + 8"
  shows "\<exists>k. encode_into dbg dst uk s p = Inr k \<and>
     internal_key_from dbg k = Inr \<lparr>ik_user_key = uk, ik_seq_no = s, ik_op = op_as_u8 p\<rparr> \<and>
     op_from_u8 (op_as_u8 p) = Inr p"
  using assms by (simp add: encode_into_eq)

theorem internal_key_roundtrip_witness:
  "\<exists>k. encode_into True (replicate 12 0) [85, 115, 101, 114] 12345 Put = Inr k \<and>
     internal_key_from True k
       = Inr \<lparr>ik_user_key = [85, 115, 101, 114], ik_seq_no = 12345, ik_op = op_as_u8 Put\<rparr> \<and>
     op_from_u8 (op_as_u8 Put) = Inr Put"
  by (rule internal_key_roundtrip) simp_all

text \<open>
  C28: \<^verbatim>\<open>InternalKeyComparator\<close> orders encoded keys by user key, ascending, and for one user
  key by sequence number, descending, then by operation, descending.
\<close>

theorem internal_compare_order:
  assumes "unat s < 2 ^ 56" "unat s' < 2 ^ 56"
  shows "internal_compare dbg (encoded_key uk s p) (encoded_key uk' s' p') = Inr Less \<longleftrightarrow>
     bytes_cmp uk uk' = Less \<or>
     uk = uk' \<and> (unat s' < unat s \<or> s' = s \<and> p' < p)"
  by (rule internal_less_encoded [OF assms])

theorem internal_compare_order_witness:
  "internal_compare True (encoded_key [1] 4 Delete) (encoded_key [1] 3 Put) = Inr Less"
  by (subst internal_compare_order) (simp_all add: op_order)

text \<open>
  Without debug assertions, \<^verbatim>\<open>pack_trailer\<close> silently drops the bits of a sequence number
  above the 56th (the trailer holds it modulo 2^56); with them it panics on such a number.
\<close>

theorem pack_trailer_wraps:
  "pack_trailer dbg s p =
     (if dbg \<and> 2 ^ 56 \<le> unat s then Inl AssertFailed
      else Inr (word_of_nat (unat s mod 2 ^ 56 * 256 + unat (op_as_u8 p))))"
proof -
  have u: "unat (take_bit 56 s) = unat s mod 2 ^ 56"
    by (simp only: unsigned_take_bit_eq take_bit_eq_mod [where 'a = nat])
  have "push_bit 8 s = push_bit 8 (take_bit 56 s)"
    by (rule bit_eqI) (auto simp: bit_simps)
  then have "push_bit 8 s OR op_as_u64 p = word_of_nat (unat (push_bit 8 (take_bit 56 s) OR op_as_u64 p))"
    by simp
  also have "\<dots> = word_of_nat (unat s mod 2 ^ 56 * 256 + unat (op_as_u8 p))"
    by (subst trailer_value) (simp_all only: u, simp)
  finally show ?thesis
    by (auto simp: pack_trailer_def word_less_nat_alt debug_assert_def not_le)
qed

text \<open>A slice too short to hold a trailer makes the decoder and the comparator panic, on either side.\<close>

theorem short_key_panics:
  assumes "length k < 8"
  shows "(\<exists>e. internal_key_from dbg k = Inl e) \<and> (\<exists>e. internal_compare dbg k k' = Inl e) \<and>
         (\<exists>e. internal_compare dbg k' k = Inl e)"
proof (intro conjI)
  show "\<exists>e. internal_key_from dbg k = Inl e"
    using assms by (auto simp: internal_key_from_def debug_assert_def)
  show "\<exists>e. internal_compare dbg k k' = Inl e"
    using assms by (auto simp: internal_compare_def split_user_def)
  show "\<exists>e. internal_compare dbg k' k = Inl e"
    using assms by (auto simp: internal_compare_def split_user_def)
qed

theorem short_key_panics_witness:
  "(\<exists>e. internal_key_from False [1] = Inl e) \<and> (\<exists>e. internal_compare False [1] (replicate 9 0) = Inl e) \<and>
   (\<exists>e. internal_compare False (replicate 9 0) [1] = Inl e)"
  by (rule short_key_panics) simp

end
