(* ===== verification/Arena.thy ===== *)
theory Arena
  imports VDB_Prelude
begin

unbundle bit_operations_syntax

text \<open>
  The bump arena of \<^verbatim>\<open>crates/mem/src/arena.rs\<close>, the chunk allocator of
  \<^verbatim>\<open>allocator.rs\<close> and the size tables of \<^verbatim>\<open>arena.rs\<close> and \<^verbatim>\<open>options.rs\<close>,
  executed by one thread. A chunk is its length and its bump offset; the bytes an allocation holds
  are modelled by the client (the node store of theory \<open>Skip_List\<close>). The pointer to the current
  chunk is its index in the chunk vector. The interleaved executions are in theory
  \<open>Arena_Concurrent\<close>.
\<close>

section \<open>Policies and size tables\<close>

record arena_policy =
  block_size :: nat
  cap :: nat

datatype arena_size = Custom nat nat | DefaultSize | Small | Medium | Large

definition KB :: nat where "KB = 1000"
definition MB :: nat where "MB = KB"

definition to_policy :: "arena_size \<Rightarrow> arena_policy" where
  "to_policy s = (case s of
      Custom block c \<Rightarrow> \<lparr>block_size = block, cap = c\<rparr>
    | DefaultSize \<Rightarrow> \<lparr>block_size = 4 * MB, cap = 64 * MB\<rparr>
    | Small \<Rightarrow> \<lparr>block_size = 2 * MB, cap = 16 * MB\<rparr>
    | Medium \<Rightarrow> \<lparr>block_size = 4 * MB, cap = 32 * MB\<rparr>
    | Large \<Rightarrow> \<lparr>block_size = 8 * MB, cap = 64 * MB\<rparr>)"

datatype write_buffer_size = WSmall | WMedium | WDefault | WLarge

definition OPT_MB :: nat where "OPT_MB = 1024"

fun wbs_as_bytes :: "write_buffer_size \<Rightarrow> nat" where
  "wbs_as_bytes WSmall = 16 * OPT_MB"
| "wbs_as_bytes WMedium = 32 * OPT_MB"
| "wbs_as_bytes WDefault = 64 * OPT_MB"
| "wbs_as_bytes WLarge = 128 * OPT_MB"

fun wbs_arena_policy :: "write_buffer_size \<Rightarrow> arena_policy" where
  "wbs_arena_policy WSmall = \<lparr>block_size = 2 * OPT_MB, cap = 16 * OPT_MB\<rparr>"
| "wbs_arena_policy WMedium = \<lparr>block_size = 4 * OPT_MB, cap = 32 * OPT_MB\<rparr>"
| "wbs_arena_policy WDefault = \<lparr>block_size = 4 * OPT_MB, cap = 64 * OPT_MB\<rparr>"
| "wbs_arena_policy WLarge = \<lparr>block_size = 8 * OPT_MB, cap = 128 * OPT_MB\<rparr>"

section \<open>State\<close>

datatype allocator = System | NUMA | HugePage | MMap | Test

record layout =
  lay_size :: nat
  lay_align :: nat

record chunk =
  mem_len :: nat
  bump :: nat

record arena =
  current_chunk :: nat
  chunks :: "chunk list"
  allocated_bytes :: nat
  memory_used :: nat
  ar_allocator :: allocator
  policy :: arena_policy

text \<open>A raw pointer into the arena: null, or a chunk and an offset from the chunk's base.\<close>

datatype ptr = Null | Ptr nat nat

abbreviation isize_limit :: nat where
  "isize_limit \<equiv> 2 ^ 63"

section \<open>Operations\<close>

text \<open>A boxed slice of the given length; lengths above \<^verbatim>\<open>isize::MAX\<close> panic, the other allocators
  are \<^verbatim>\<open>unimplemented!()\<close>.\<close>

fun allocate :: "allocator \<Rightarrow> nat \<Rightarrow> nat res" where
  "allocate System n = (if n < isize_limit then Inr n else Inl CapacityOverflow)"
| "allocate NUMA n = Inl TodoPanic"
| "allocate HugePage n = Inl TodoPanic"
| "allocate MMap n = Inl TodoPanic"
| "allocate Test n = Inl TodoPanic"

definition chunk_new :: "nat \<Rightarrow> chunk" where
  "chunk_new len = \<lparr>mem_len = len, bump = 0\<rparr>"

definition arena_new :: "arena_policy \<Rightarrow> allocator \<Rightarrow> arena res" where
  "arena_new pol alc =
     rbind (assert_that (block_size pol \<le> cap pol)) (\<lambda>_.
     rbind (allocate alc (block_size pol)) (\<lambda>heap.
       let chunk = chunk_new heap in
       if block_size pol = 0 then Inl DivByZero
       else let block_cap = cap pol div block_size pol in
         if isize_limit \<le> block_cap * 8 then Inl CapacityOverflow
         else Inr \<lparr>current_chunk = 0, chunks = [chunk], allocated_bytes = block_size pol,
                   memory_used = 0, ar_allocator = alc, policy = pol\<rparr>))"

definition get_chunk :: "arena \<Rightarrow> chunk" where
  "get_chunk a = chunks a ! current_chunk a"

definition round_up_mask :: "nat \<Rightarrow> nat \<Rightarrow> nat" where
  "round_up_mask x align = unat ((word_of_nat x :: u64) AND NOT (word_of_nat (align - 1)))"

definition alignment_check :: "arena \<Rightarrow> nat \<Rightarrow> layout \<Rightarrow> (arena_error + nat \<times> nat) res" where
  "alignment_check a bmp l =
     rbind (add_usize bmp (lay_align l - 1)) (\<lambda>x.
       let aligned = round_up_mask x (lay_align l); nxt = aligned + lay_size l in
       if usize_limit \<le> nxt then Inr (Inl ArenaOverflow)
       else if mem_len (get_chunk a) < nxt then Inr (Inl ArenaOverflow)
       else Inr (Inr (aligned, nxt)))"

definition set_bump :: "arena \<Rightarrow> nat \<Rightarrow> nat \<Rightarrow> arena" where
  "set_bump a i b = a\<lparr>chunks := (chunks a)[i := (chunks a ! i)\<lparr>bump := b\<rparr>]\<rparr>"

definition add_memory_used :: "arena \<Rightarrow> nat \<Rightarrow> arena" where
  "add_memory_used a n = a\<lparr>memory_used := (memory_used a + n) mod usize_limit\<rparr>"

definition try_new_chunk :: "arena \<Rightarrow> layout \<Rightarrow> ((arena_error + unit) \<times> arena) res" where
  "try_new_chunk a l =
     rbind (alignment_check a (bump (get_chunk a)) l) (\<lambda>r. case r of
        Inr _ \<Rightarrow> Inr (Inr (), a)
      | Inl _ \<Rightarrow>
         rbind (add_usize (allocated_bytes a) (block_size (policy a))) (\<lambda>total.
           if cap (policy a) < total then Inr (Inl ArenaFull, a)
           else
             let a = a\<lparr>allocated_bytes := total\<rparr> in
             rbind (allocate (ar_allocator a) (block_size (policy a))) (\<lambda>heap.
               let a = a\<lparr>chunks := chunks a @ [chunk_new heap]\<rparr> in
               Inr (Inr (), a\<lparr>current_chunk := length (chunks a) - 1\<rparr>))))"

text \<open>
  The allocation loop. Executed by one thread the compare-and-swap sees the value just loaded; a
  spurious failure of \<^verbatim>\<open>compare_exchange_weak\<close> only repeats the iteration.
\<close>

partial_function (option) alloc_raw :: "arena \<Rightarrow> layout \<Rightarrow> (ptr \<times> arena) comp" where
  "alloc_raw a l =
     (case alignment_check a (bump (get_chunk a)) l of
        Inl f \<Rightarrow> Some (Inl f)
      | Inr (Inl _) \<Rightarrow>
         (case try_new_chunk a l of
            Inl f \<Rightarrow> Some (Inl f)
          | Inr (Inl e, _) \<Rightarrow> Some (Inl (ArenaPanic e))
          | Inr (Inr _, a') \<Rightarrow> alloc_raw a' l)
      | Inr (Inr (aligned, nxt)) \<Rightarrow>
         ret (Ptr (current_chunk a) aligned,
              add_memory_used (set_bump a (current_chunk a) nxt) (lay_size l)))"

partial_function (option) alloc_raw_fallback ::
    "arena \<Rightarrow> layout \<Rightarrow> ((arena_error + ptr) \<times> arena) comp" where
  "alloc_raw_fallback a l =
     (case alignment_check a (bump (get_chunk a)) l of
        Inl f \<Rightarrow> Some (Inl f)
      | Inr (Inl _) \<Rightarrow>
         (case try_new_chunk a l of
            Inl f \<Rightarrow> Some (Inl f)
          | Inr (Inl e, a') \<Rightarrow> ret (Inl e, a')
          | Inr (Inr _, a') \<Rightarrow> alloc_raw_fallback a' l)
      | Inr (Inr (aligned, nxt)) \<Rightarrow>
         ret (Inr (Ptr (current_chunk a) aligned),
              add_memory_used (set_bump a (current_chunk a) nxt) (lay_size l)))"

definition blocks_used :: "arena \<Rightarrow> nat" where
  "blocks_used a = allocated_bytes a div block_size (policy a)"

definition max_bytes :: "arena \<Rightarrow> nat" where
  "max_bytes a = cap (policy a)"

text \<open>The handed-out bytes of the current chunk, as a start and a length.\<close>

definition get_current_init_slice :: "arena \<Rightarrow> ptr \<times> nat" where
  "get_current_init_slice a = (Ptr (current_chunk a) 0, bump (get_chunk a))"

definition number_of_blocks :: "arena \<Rightarrow> nat" where
  "number_of_blocks a = cap (policy a) div block_size (policy a)"

section \<open>Invariant\<close>

definition layout_ok :: "layout \<Rightarrow> bool" where
  "layout_ok l \<longleftrightarrow> (\<exists>k \<le> 62. lay_align l = 2 ^ k) \<and> lay_size l + lay_align l \<le> isize_limit"

definition policy_ok :: "arena_policy \<Rightarrow> bool" where
  "policy_ok p \<longleftrightarrow> 0 < block_size p \<and> block_size p \<le> cap p \<and> cap p < 2 ^ 60"

definition arena_inv :: "arena \<Rightarrow> bool" where
  "arena_inv a \<longleftrightarrow>
     policy_ok (policy a) \<and> ar_allocator a = System \<and>
     chunks a \<noteq> [] \<and> current_chunk a = length (chunks a) - 1 \<and>
     (\<forall>c \<in> set (chunks a). mem_len c = block_size (policy a) \<and> bump c \<le> mem_len c) \<and>
     allocated_bytes a = length (chunks a) * block_size (policy a) \<and>
     allocated_bytes a \<le> cap (policy a)"

text \<open>The frontier of a chunk: the bytes below it are handed out.\<close>

definition frontier :: "arena \<Rightarrow> nat \<Rightarrow> nat" where
  "frontier a c = (if c < length (chunks a) then bump (chunks a ! c) else 0)"


section \<open>Rounding up by masking\<close>

lemma word_and_not_mask: "(w :: u64) AND NOT (mask k) = push_bit k (drop_bit k w)"
  by (rule bit_eqI) (auto simp: bit_simps)

lemma round_up_mask_power:
  assumes "x < usize_limit" "k < 64"
  shows "round_up_mask x (2 ^ k) = x div 2 ^ k * 2 ^ k"
proof -
  have m: "(word_of_nat (2 ^ k - 1) :: u64) = mask k"
    by (simp add: mask_eq_exp_minus_1)
  have "(2 :: nat) ^ k < 2 ^ 64" using assms(2) by (intro power_strict_increasing) simp_all
  then have p: "unat (2 ^ k :: u64) = 2 ^ k"
    using unat_of_nat [where 'a = 64, of "2 ^ k"] by simp
  have "x div 2 ^ k * 2 ^ k < usize_limit"
    using assms(1) by (metis div_times_less_eq_dividend le_less_trans)
  then have "unat (push_bit k (drop_bit k (word_of_nat x :: u64))) = x div 2 ^ k * 2 ^ k"
    using assms p by (simp add: push_bit_eq_mult unat_word_ariths unat_drop_bit_div unat_of_nat mult.commute)
  then show ?thesis by (simp only: round_up_mask_def m word_and_not_mask)
qed

text \<open>The aligned offset is the least multiple of the alignment that is not below the bump offset.\<close>

lemma round_up_props:
  assumes "b < isize_limit" "k \<le> 62"
  defines "r \<equiv> round_up_mask (b + (2 ^ k - 1)) (2 ^ k)"
  shows "b \<le> r" "2 ^ k dvd r" "r < b + 2 ^ k" "2 ^ k dvd y \<Longrightarrow> b \<le> y \<Longrightarrow> r \<le> y"
proof -
  let ?A = "2 ^ k :: nat"
  have A: "0 < ?A" by simp
  have "?A \<le> 2 ^ 62" using assms(2) by (intro power_increasing) simp_all
  note A = A this
  have r: "r = (b + (?A - 1)) div ?A * ?A"
    unfolding r_def by (rule round_up_mask_power) (use assms A in auto)
  have "(b + (?A - 1)) div ?A * ?A + (b + (?A - 1)) mod ?A = b + (?A - 1)"
    by (rule div_mult_mod_eq)
  moreover have "(b + (?A - 1)) mod ?A < ?A" using A by simp
  ultimately show "b \<le> r" "r < b + 2 ^ k" unfolding r using A by linarith+
  show "2 ^ k dvd r" by (simp add: r)
  assume "2 ^ k dvd y" "b \<le> y"
  then obtain q where "y = ?A * q" by blast
  moreover have "(b + (?A - 1)) div ?A \<le> q"
  proof -
    have "b + (?A - 1) < ?A * Suc q"
      using A \<open>b \<le> y\<close> \<open>y = ?A * q\<close> unfolding mult_Suc_right by linarith
    then show ?thesis by (simp add: less_mult_imp_div_less mult.commute flip: less_Suc_eq_le)
  qed
  ultimately show "r \<le> y" by (simp add: r mult.commute)
qed


section \<open>Preservation of the invariant\<close>

lemma arena_inv_chunk:
  assumes "arena_inv a"
  shows "current_chunk a < length (chunks a)" "get_chunk a \<in> set (chunks a)"
    "mem_len (get_chunk a) = block_size (policy a)" "bump (get_chunk a) \<le> block_size (policy a)"
    "block_size (policy a) < isize_limit" "frontier a (current_chunk a) = bump (get_chunk a)"
proof -
  show l: "current_chunk a < length (chunks a)" using assms by (auto simp: arena_inv_def)
  show g: "get_chunk a \<in> set (chunks a)" using l by (simp add: get_chunk_def)
  show "mem_len (get_chunk a) = block_size (policy a)" "bump (get_chunk a) \<le> block_size (policy a)"
    using assms g by (auto simp: arena_inv_def)
  show "block_size (policy a) < isize_limit" using assms by (auto simp: arena_inv_def policy_ok_def)
  show "frontier a (current_chunk a) = bump (get_chunk a)" using l by (simp add: frontier_def get_chunk_def)
qed

lemma arena_new_inv:
  assumes "policy_ok pol"
  shows "\<exists>a. arena_new pol System = Inr a \<and> arena_inv a \<and> policy a = pol \<and> memory_used a = 0 \<and>
             (\<forall>c. frontier a c = 0)"
proof -
  have c: "cap pol div block_size pol * 8 < isize_limit"
  proof -
    have "cap pol div block_size pol \<le> cap pol" by simp
    moreover have "cap pol < 2 ^ 60" using assms by (simp add: policy_ok_def)
    ultimately have "cap pol div block_size pol < 2 ^ 60" by (rule le_less_trans)
    then show ?thesis by simp
  qed
  then show ?thesis using assms
    by (auto simp: arena_new_def policy_ok_def arena_inv_def chunk_new_def frontier_def Let_def not_le)
qed

text \<open>Under the invariant the alignment check never overflows and decides whether the request fits.\<close>

lemma alignment_check_cases:
  assumes inv: "arena_inv a" and l: "layout_ok l"
  obtains (fits) off where
      "alignment_check a (bump (get_chunk a)) l = Inr (Inr (off, off + lay_size l))"
      "bump (get_chunk a) \<le> off" "lay_align l dvd off" "off + lay_size l \<le> block_size (policy a)"
    | (full) "alignment_check a (bump (get_chunk a)) l = Inr (Inl ArenaOverflow)"
      "\<And>off. bump (get_chunk a) \<le> off \<Longrightarrow> lay_align l dvd off \<Longrightarrow> block_size (policy a) < off + lay_size l"
proof -
  let ?b = "bump (get_chunk a)"
  obtain k where k: "k \<le> 62" "lay_align l = 2 ^ k" and sz: "lay_size l + lay_align l \<le> isize_limit"
    using l by (auto simp: layout_ok_def)
  have b: "?b < isize_limit" using arena_inv_chunk [OF inv] by linarith
  define off where "off = round_up_mask (?b + (2 ^ k - 1)) (2 ^ k)"
  note off = round_up_props [OF b k(1), folded off_def]
  have ck: "alignment_check a ?b l =
      (if block_size (policy a) < off + lay_size l then Inr (Inl ArenaOverflow)
       else Inr (Inr (off, off + lay_size l)))"
    using b sz off(3) arena_inv_chunk [OF inv] k
    by (simp add: alignment_check_def add_usize_def off_def Let_def)
  show thesis
  proof (cases "block_size (policy a) < off + lay_size l")
    case True
    show thesis
    proof (rule full)
      show "alignment_check a ?b l = Inr (Inl ArenaOverflow)" using ck True by simp
      fix y assume "?b \<le> y" "lay_align l dvd y"
      then have "off \<le> y" using off(4) k by simp
      then show "block_size (policy a) < y + lay_size l" using True by simp
    qed
  next
    case False
    with ck off k show thesis by (intro fits [of off]) simp_all
  qed
qed


lemma try_new_chunk_fits:
  "alignment_check a (bump (get_chunk a)) l = Inr (Inr p) \<Longrightarrow> try_new_chunk a l = Inr (Inr (), a)"
  by (simp add: try_new_chunk_def)

lemma try_new_chunk_full:
  assumes inv: "arena_inv a"
    and full: "alignment_check a (bump (get_chunk a)) l = Inr (Inl e)"
  shows "try_new_chunk a l =
    (if cap (policy a) < allocated_bytes a + block_size (policy a) then Inr (Inl ArenaFull, a)
     else Inr (Inr (), a\<lparr>allocated_bytes := allocated_bytes a + block_size (policy a),
                     chunks := chunks a @ [chunk_new (block_size (policy a))],
                     current_chunk := length (chunks a)\<rparr>))"
proof -
  have "allocated_bytes a + block_size (policy a) < usize_limit"
    using inv by (simp add: arena_inv_def policy_ok_def)
  then show ?thesis
    using full inv arena_inv_chunk(5) [OF inv]
    by (simp add: try_new_chunk_def add_usize_def Let_def arena_inv_def)
qed

definition grown :: "arena \<Rightarrow> arena" where
  "grown a = a\<lparr>allocated_bytes := allocated_bytes a + block_size (policy a),
               chunks := chunks a @ [chunk_new (block_size (policy a))],
               current_chunk := length (chunks a)\<rparr>"

lemma grown_simps [simp]:
  "policy (grown a) = policy a" "memory_used (grown a) = memory_used a"
  "allocated_bytes (grown a) = allocated_bytes a + block_size (policy a)"
  "frontier (grown a) = frontier a"
  by (auto simp: grown_def frontier_def chunk_new_def nth_append fun_eq_iff)

lemma grown_inv:
  "arena_inv a \<Longrightarrow> \<not> cap (policy a) < allocated_bytes a + block_size (policy a) \<Longrightarrow> arena_inv (grown a)"
  by (auto simp: arena_inv_def grown_def chunk_new_def)

lemma grown_bump [simp]: "bump (get_chunk (grown a)) = 0"
  by (simp add: grown_def get_chunk_def chunk_new_def)

definition taken :: "arena \<Rightarrow> nat \<Rightarrow> nat \<Rightarrow> arena" where
  "taken a off n = add_memory_used (set_bump a (current_chunk a) (off + n)) n"

lemma taken_simps [simp]:
  "policy (taken a off n) = policy a" "allocated_bytes (taken a off n) = allocated_bytes a"
  "memory_used (taken a off n) = (memory_used a + n) mod usize_limit"
  "current_chunk (taken a off n) = current_chunk a" "length (chunks (taken a off n)) = length (chunks a)"
  by (simp_all add: taken_def add_memory_used_def set_bump_def)

lemma taken_frontier:
  "arena_inv a \<Longrightarrow> frontier (taken a off n) c = (if c = current_chunk a then off + n else frontier a c)"
  using arena_inv_chunk(1) [of a]
  by (auto simp: frontier_def taken_def add_memory_used_def set_bump_def nth_list_update)

lemma taken_inv:
  assumes "arena_inv a" "off + n \<le> block_size (policy a)"
  shows "arena_inv (taken a off n)"
proof -
  have "mem_len c = block_size (policy a) \<and> bump c \<le> block_size (policy a)"
    if "c \<in> set ((chunks a)[current_chunk a := (chunks a ! current_chunk a)\<lparr>bump := off + n\<rparr>])" for c
    using set_update_subset_insert [THEN subsetD, OF that] assms arena_inv_chunk(2,3) [OF assms(1)]
    by (auto simp: arena_inv_def get_chunk_def)
  then show ?thesis using assms
    by (auto simp: arena_inv_def taken_def add_memory_used_def set_bump_def)
qed


text \<open>One allocation: either a fresh aligned region above the frontier of its chunk, or the arena is
  full. The loop makes at most one extra iteration per chunk the policy still allows.\<close>

lemma alloc_loop_step:
  assumes inv: "arena_inv a" and l: "layout_ok l"
  obtains (fits) off where "bump (get_chunk a) \<le> off" "lay_align l dvd off"
      "off + lay_size l \<le> block_size (policy a)"
      "alloc_raw a l = ret (Ptr (current_chunk a) off, taken a off (lay_size l))"
      "alloc_raw_fallback a l = ret (Inr (Ptr (current_chunk a) off), taken a off (lay_size l))"
    | (grows) "arena_inv (grown a)" "\<not> cap (policy a) < allocated_bytes a + block_size (policy a)"
      "alloc_raw a l = alloc_raw (grown a) l" "alloc_raw_fallback a l = alloc_raw_fallback (grown a) l"
      "\<And>off. bump (get_chunk a) \<le> off \<Longrightarrow> lay_align l dvd off \<Longrightarrow> block_size (policy a) < off + lay_size l"
    | (full) "cap (policy a) < allocated_bytes a + block_size (policy a)"
      "alloc_raw a l = Some (Inl (ArenaPanic ArenaFull))" "alloc_raw_fallback a l = ret (Inl ArenaFull, a)"
      "\<And>off. bump (get_chunk a) \<le> off \<Longrightarrow> lay_align l dvd off \<Longrightarrow> block_size (policy a) < off + lay_size l"
  using inv l
proof (cases rule: alignment_check_cases)
  case (fits off)
  then show thesis
    using that(1) by (simp add: alloc_raw.simps alloc_raw_fallback.simps taken_def)
next
  case full
  show thesis
  proof (cases "cap (policy a) < allocated_bytes a + block_size (policy a)")
    case True
    then show thesis using that(3) full
      by (simp add: alloc_raw.simps alloc_raw_fallback.simps try_new_chunk_full [OF inv full(1)])
  next
    case False
    have "alloc_raw a l = alloc_raw (grown a) l"
      by (subst alloc_raw.simps) (simp add: full(1) try_new_chunk_full [OF inv full(1)] False grown_def)
    moreover have "alloc_raw_fallback a l = alloc_raw_fallback (grown a) l"
      by (subst alloc_raw_fallback.simps)
        (simp add: full(1) try_new_chunk_full [OF inv full(1)] False grown_def)
    ultimately show thesis using that(2) [OF grown_inv [OF inv False] False] full(2) by blast
  qed
qed

lemma alloc_induct [consumes 1, case_names step]:
  assumes "arena_inv a"
    and "\<And>a. arena_inv a \<Longrightarrow>
      (\<not> cap (policy a) < allocated_bytes a + block_size (policy a) \<Longrightarrow> P (grown a)) \<Longrightarrow> P a"
  shows "P a"
  using assms(1)
proof (induction "cap (policy a) - allocated_bytes a" arbitrary: a rule: less_induct)
  case less
  show ?case
  proof (rule assms(2) [OF less.prems])
    assume "\<not> cap (policy a) < allocated_bytes a + block_size (policy a)"
    moreover have "0 < block_size (policy a)" using less.prems by (simp add: arena_inv_def policy_ok_def)
    ultimately show "P (grown a)" using less grown_inv by simp
  qed
qed


section \<open>What an allocation guarantees\<close>

definition alloc_ok :: "arena \<Rightarrow> layout \<Rightarrow> ptr \<Rightarrow> arena \<Rightarrow> bool" where
  "alloc_ok a l p a' \<longleftrightarrow> arena_inv a' \<and> policy a' = policy a \<and>
     memory_used a' = (memory_used a + lay_size l) mod usize_limit \<and>
     (\<exists>c off. p = Ptr c off \<and> c < length (chunks a') \<and> lay_align l dvd off \<and>
        off + lay_size l \<le> block_size (policy a') \<and>
        frontier a c \<le> off \<and> frontier a' = (frontier a)(c := off + lay_size l))"

lemma taken_alloc_ok:
  assumes "arena_inv a" "bump (get_chunk a) \<le> off" "lay_align l dvd off"
    "off + lay_size l \<le> block_size (policy a)"
  shows "alloc_ok a l (Ptr (current_chunk a) off) (taken a off (lay_size l))"
  using assms taken_inv [OF assms(1,4)] arena_inv_chunk(1,6) [OF assms(1)]
  by (auto simp: alloc_ok_def taken_frontier)

lemma grown_alloc_ok: "alloc_ok (grown a) l p a' \<Longrightarrow> alloc_ok a l p a'"
  by (auto simp: alloc_ok_def)

lemma alloc_raw_cases:
  assumes "arena_inv a" "layout_ok l"
  shows "alloc_raw a l = Some (Inl (ArenaPanic ArenaFull)) \<and>
           (\<exists>a'. alloc_raw_fallback a l = ret (Inl ArenaFull, a') \<and> arena_inv a' \<and>
              cap (policy a) < allocated_bytes a' + block_size (policy a))
       \<or> (\<exists>p a'. alloc_raw a l = ret (p, a') \<and> alloc_raw_fallback a l = ret (Inr p, a') \<and> alloc_ok a l p a')"
  using assms
proof (induction a rule: alloc_induct)
  case (step a)
  note inv = step.hyps and l = step.prems
  show ?case
    using inv l
  proof (cases rule: alloc_loop_step)
    case (fits off)
    then show ?thesis using taken_alloc_ok [OF inv fits(1-3)] by auto
  next
    case grows
    from step.IH [OF grows(2) l] show ?thesis
      unfolding grows(3,4) grown_simps using grown_alloc_ok by blast
  next
    case full
    then show ?thesis using inv by auto
  qed
qed

text \<open>
  An allocation fails only when the request is larger than a block or no further block is allowed,
  and a successful one adds at most one block.
\<close>

lemma alloc_raw_room:
  assumes inv: "arena_inv a" and l: "layout_ok l"
  shows "alloc_raw a l = Some (Inl (ArenaPanic ArenaFull)) \<and>
           (block_size (policy a) < lay_size l \<or> cap (policy a) < allocated_bytes a + block_size (policy a))
       \<or> (\<exists>p a'. alloc_raw a l = ret (p, a') \<and> alloc_ok a l p a' \<and>
            allocated_bytes a' \<le> allocated_bytes a + block_size (policy a))"
proof (cases "block_size (policy a) < lay_size l")
  case True
  then show ?thesis using alloc_raw_cases [OF inv l] by (auto simp: alloc_ok_def)
next
  case small: False
  show ?thesis using inv l
  proof (cases rule: alloc_loop_step)
    case (fits off)
    then show ?thesis using taken_alloc_ok [OF inv fits(1-3)] by auto
  next
    case grows
    note g = this
    from grows(1) l show ?thesis
    proof (cases rule: alloc_loop_step)
      case (fits off)
      then show ?thesis using taken_alloc_ok [OF g(1) fits(1-3)] grown_alloc_ok g(3) by auto
    qed (use small in \<open>auto dest!: spec [of _ 0] meta_spec [of _ 0]\<close>)
  next
    case full
    then show ?thesis by simp
  qed
qed

lemma small_arena:
  "\<exists>a. arena_new \<lparr>block_size = 10, cap = 20\<rparr> System = Inr a \<and> arena_inv a \<and>
       policy a = \<lparr>block_size = 10, cap = 20\<rparr> \<and> allocated_bytes a = 10"
  by (auto simp: arena_new_def arena_inv_def policy_ok_def chunk_new_def Let_def)

lemma layout_8_8: "layout_ok \<lparr>lay_size = 8, lay_align = 8\<rparr>"
  by (auto simp: layout_ok_def intro!: exI [of _ 3])

lemma layout_64_8: "layout_ok \<lparr>lay_size = 64, lay_align = 8\<rparr>"
  by (auto simp: layout_ok_def intro!: exI [of _ 3])

text \<open>
  C17: Every allocation request with a valid layout returns: the loop ends either with the
  \<^verbatim>\<open>ArenaFull\<close> panic or with a pointer to a region of the requested size that is aligned within
  its chunk, lies inside the chunk and above everything handed out before, and the arena keeps its
  invariant (chunk bounds, capacity) and counts the bytes.
\<close>

theorem alloc_raw_correct:
  assumes "arena_inv a" "layout_ok l"
  shows "alloc_raw a l = Some (Inl (ArenaPanic ArenaFull)) \<or> (\<exists>p a'. alloc_raw a l = ret (p, a') \<and> alloc_ok a l p a')"
  using alloc_raw_cases [OF assms] by blast

theorem alloc_raw_correct_witness:
  "\<exists>a. arena_new \<lparr>block_size = 10, cap = 20\<rparr> System = Inr a \<and>
     (alloc_raw a \<lparr>lay_size = 8, lay_align = 8\<rparr> = Some (Inl (ArenaPanic ArenaFull)) \<or>
      (\<exists>p a'. alloc_raw a \<lparr>lay_size = 8, lay_align = 8\<rparr> = ret (p, a') \<and>
         alloc_ok a \<lparr>lay_size = 8, lay_align = 8\<rparr> p a'))"
  using small_arena alloc_raw_correct [OF _ layout_8_8] by blast

text \<open>
  C34: \<^verbatim>\<open>alloc_raw\<close> and \<^verbatim>\<open>alloc_raw_fallback\<close> agree: the first panics exactly where the second
  returns the error, and otherwise they return the same pointer and the same arena.
\<close>

theorem alloc_raw_fallback_equiv:
  assumes "arena_inv a" "layout_ok l"
  shows "alloc_raw a l = cbind (alloc_raw_fallback a l) (\<lambda>(r, a').
           case r of Inl e \<Rightarrow> Some (Inl (ArenaPanic e)) | Inr p \<Rightarrow> ret (p, a'))"
  using alloc_raw_cases [OF assms] by auto

theorem alloc_raw_fallback_equiv_witness:
  "\<exists>a. arena_new \<lparr>block_size = 10, cap = 20\<rparr> System = Inr a \<and>
     alloc_raw a \<lparr>lay_size = 8, lay_align = 8\<rparr> =
       cbind (alloc_raw_fallback a \<lparr>lay_size = 8, lay_align = 8\<rparr>) (\<lambda>(r, a').
         case r of Inl e \<Rightarrow> Some (Inl (ArenaPanic e)) | Inr p \<Rightarrow> ret (p, a'))"
  using small_arena alloc_raw_fallback_equiv [OF _ layout_8_8] by blast

text \<open>
  A request that fits into an empty chunk succeeds as long as the policy allows one more chunk.
\<close>

theorem alloc_raw_succeeds:
  assumes "arena_inv a" "layout_ok l" "lay_size l \<le> block_size (policy a)"
    "allocated_bytes a + block_size (policy a) \<le> cap (policy a)"
  shows "\<exists>p a'. alloc_raw a l = ret (p, a') \<and> alloc_ok a l p a'"
  using alloc_raw_room [OF assms(1,2)] assms(3,4) by auto

theorem alloc_raw_succeeds_witness:
  "\<exists>a p a'. arena_new \<lparr>block_size = 10, cap = 20\<rparr> System = Inr a \<and>
     alloc_raw a \<lparr>lay_size = 8, lay_align = 8\<rparr> = ret (p, a') \<and> alloc_ok a \<lparr>lay_size = 8, lay_align = 8\<rparr> p a'"
proof -
  obtain a where a: "arena_new \<lparr>block_size = 10, cap = 20\<rparr> System = Inr a" "arena_inv a"
    "policy a = \<lparr>block_size = 10, cap = 20\<rparr>" "allocated_bytes a = 10"
    using small_arena by blast
  show ?thesis using a alloc_raw_succeeds [OF a(2) layout_8_8] by simp
qed

text \<open>
  C35: A request larger than the block size is never satisfied, and \<^verbatim>\<open>alloc_raw_fallback\<close> reports it
  only after it has allocated every chunk the policy allows: no further chunk can be added.
\<close>

theorem oversized_request_exhausts_arena:
  assumes "arena_inv a" "layout_ok l" "block_size (policy a) < lay_size l"
  shows "\<exists>a'. alloc_raw_fallback a l = ret (Inl ArenaFull, a') \<and> arena_inv a' \<and>
              cap (policy a) < allocated_bytes a' + block_size (policy a)"
  using alloc_raw_cases [OF assms(1,2)] assms(3) by (auto simp: alloc_ok_def)


theorem oversized_request_exhausts_arena_witness:
  "\<exists>a a'. arena_new \<lparr>block_size = 10, cap = 20\<rparr> System = Inr a \<and>
     alloc_raw_fallback a \<lparr>lay_size = 64, lay_align = 8\<rparr> = ret (Inl ArenaFull, a') \<and> arena_inv a' \<and>
     20 < allocated_bytes a' + 10"
proof -
  obtain a where a: "arena_new \<lparr>block_size = 10, cap = 20\<rparr> System = Inr a" "arena_inv a"
    "policy a = \<lparr>block_size = 10, cap = 20\<rparr>" "allocated_bytes a = 10"
    using small_arena by blast
  show ?thesis using a oversized_request_exhausts_arena [OF a(2) layout_64_8] by simp
qed

section \<open>Allocators as an interface\<close>

text \<open>
  What a client of the arena relies on: a returned region starts at or above the frontier of its
  chunk and ends at or below the new one, and frontiers never recede.
\<close>

locale bump_allocator =
  fixes alloc :: "'s \<Rightarrow> layout \<Rightarrow> (ptr \<times> 's) comp"
    and front :: "'s \<Rightarrow> nat \<Rightarrow> nat"
    and inv :: "'s \<Rightarrow> bool"
    and ok :: "layout \<Rightarrow> bool"
  assumes alloc_region: "inv s \<Longrightarrow> ok l \<Longrightarrow> alloc s l = ret (p, s') \<Longrightarrow>
      \<exists>c off. p = Ptr c off \<and> front s c \<le> off \<and> off + lay_size l \<le> front s' c"
    and front_mono: "inv s \<Longrightarrow> ok l \<Longrightarrow> alloc s l = ret (p, s') \<Longrightarrow> front s c \<le> front s' c"
    and alloc_inv: "inv s \<Longrightarrow> ok l \<Longrightarrow> alloc s l = ret (p, s') \<Longrightarrow> inv s'"
begin

lemma alloc_not_null: "inv s \<Longrightarrow> ok l \<Longrightarrow> alloc s l = ret (p, s') \<Longrightarrow> p \<noteq> Null"
  using alloc_region by blast

end

type_synonym region = "ptr \<times> nat"

fun below :: "(nat \<Rightarrow> nat) \<Rightarrow> region \<Rightarrow> bool" where
  "below f (Null, n) = False"
| "below f (Ptr c off, n) = (off + n \<le> f c)"

fun overlap :: "region \<Rightarrow> region \<Rightarrow> bool" where
  "overlap (Ptr c off, n) (Ptr c' off', n') = (c = c' \<and> off < off' + n' \<and> off' < off + n)"
| "overlap _ _ = False"

fun alloc_all :: "('s \<Rightarrow> layout \<Rightarrow> (ptr \<times> 's) comp) \<Rightarrow> 's \<Rightarrow> layout list \<Rightarrow> (region list \<times> 's) comp" where
  "alloc_all alloc s [] = ret ([], s)"
| "alloc_all alloc s (l # ls) =
     cbind (alloc s l) (\<lambda>(p, s'). cbind (alloc_all alloc s' ls) (\<lambda>(rs, s''). ret ((p, lay_size l) # rs, s'')))"

context bump_allocator
begin

lemma below_mono: "inv s \<Longrightarrow> ok l \<Longrightarrow> alloc s l = ret (p, s') \<Longrightarrow> below (front s) r \<Longrightarrow> below (front s') r"
  using front_mono [of s l p s'] by (cases "(front s, r)" rule: below.cases) (auto intro: order_trans)

lemma alloc_fresh:
  assumes "inv s" "ok l" "alloc s l = ret (p, s')" "below (front s) r"
  shows "\<not> overlap (p, lay_size l) r" "below (front s') (p, lay_size l)"
proof -
  obtain c off where p: "p = Ptr c off" "front s c \<le> off" "off + lay_size l \<le> front s' c"
    using alloc_region [OF assms(1-3)] by blast
  then show "below (front s') (p, lay_size l)" by simp
  show "\<not> overlap (p, lay_size l) r"
    using assms(4) p by (cases "((p, lay_size l), r)" rule: overlap.cases) auto
qed

lemma alloc_all_disjoint:
  assumes "inv s" "\<forall>l \<in> set ls. ok l" "alloc_all alloc s ls = ret (rs, s')"
    "\<forall>r \<in> set old. below (front s) r" "sorted_wrt (\<lambda>x y. \<not> overlap y x) old"
  shows "sorted_wrt (\<lambda>x y. \<not> overlap y x) (old @ rs)"
  using assms
proof (induction ls arbitrary: s rs old)
  case (Cons l ls)
  obtain p s1 rs1 where p: "alloc s l = ret (p, s1)" and r: "alloc_all alloc s1 ls = ret (rs1, s')"
    and rs: "rs = (p, lay_size l) # rs1"
    using Cons.prems(3) by (auto simp: cbind_eq_ret_iff)
  have ok: "ok l" using Cons.prems(2) by simp
  have "\<forall>x \<in> set (old @ [(p, lay_size l)]). below (front s1) x"
    using Cons.prems(1,4) ok p alloc_fresh(2) [OF Cons.prems(1) ok p] below_mono [OF Cons.prems(1) ok p]
      alloc_region [OF Cons.prems(1) ok p] by auto
  moreover have "sorted_wrt (\<lambda>x y. \<not> overlap y x) (old @ [(p, lay_size l)])"
    using Cons.prems(4,5) alloc_fresh(1) [OF Cons.prems(1) ok p] by (auto simp: sorted_wrt_append)
  ultimately show ?case
    using Cons.IH [OF alloc_inv [OF Cons.prems(1) ok p] _ r, of "old @ [(p, lay_size l)]"] Cons.prems(2)
    by (simp add: rs)
qed simp

end

interpretation ar: bump_allocator alloc_raw frontier arena_inv layout_ok
proof unfold_locales
  fix s l p s' c
  assume a: "arena_inv s" "layout_ok l" "alloc_raw s l = ret (p, s')"
  then have k: "alloc_ok s l p s'" using alloc_raw_cases [OF a(1,2)] by auto
  then show "\<exists>c off. p = Ptr c off \<and> frontier s c \<le> off \<and> off + lay_size l \<le> frontier s' c"
    by (auto simp: alloc_ok_def)
  show "frontier s c \<le> frontier s' c" using k by (auto simp: alloc_ok_def)
  show "arena_inv s'" using k by (simp add: alloc_ok_def)
qed

text \<open>
  \<^verbatim>\<open>get_current_init_slice\<close> covers exactly what has been handed out of the current chunk: every region handed out
  there lies inside it, and it ends inside the chunk.
\<close>

lemma current_init_slice_covers:
  assumes "arena_inv a" "get_current_init_slice a = (s, n)" "below (frontier a) (Ptr (current_chunk a) off, len)"
  shows "s = Ptr (current_chunk a) 0" "off + len \<le> n" "n \<le> mem_len (get_chunk a)"
  using assms arena_inv_chunk [OF assms(1)] by (auto simp: get_current_init_slice_def)

text \<open>
  The regions a sequence of successful allocations hands out are pairwise disjoint, whatever
  their layouts and however many chunks they need.
\<close>

theorem arena_regions_disjoint:
  assumes "arena_inv a" "\<forall>l \<in> set ls. layout_ok l" "alloc_all alloc_raw a ls = ret (rs, a')"
  shows "sorted_wrt (\<lambda>x y. \<not> overlap y x) rs"
  using ar.alloc_all_disjoint [OF assms, of "[]"] by simp


lemma two_allocations:
  "alloc_all alloc_raw
     \<lparr>current_chunk = 0, chunks = [\<lparr>mem_len = 10, bump = 0\<rparr>], allocated_bytes = 10, memory_used = 0,
      ar_allocator = System, policy = \<lparr>block_size = 10, cap = 20\<rparr>\<rparr>
     [\<lparr>lay_size = 8, lay_align = 8\<rparr>, \<lparr>lay_size = 8, lay_align = 8\<rparr>]
   = ret ([(Ptr 0 0, 8), (Ptr 1 0, 8)],
     \<lparr>current_chunk = 1, chunks = [\<lparr>mem_len = 10, bump = 8\<rparr>, \<lparr>mem_len = 10, bump = 8\<rparr>],
      allocated_bytes = 20, memory_used = 16, ar_allocator = System,
      policy = \<lparr>block_size = 10, cap = 20\<rparr>\<rparr>)"
  by (simp add: alloc_raw.simps alignment_check_def try_new_chunk_def add_usize_def get_chunk_def
      round_up_mask_def set_bump_def add_memory_used_def chunk_new_def Let_def)

theorem arena_regions_disjoint_witness:
  "sorted_wrt (\<lambda>x y. \<not> overlap y x) [(Ptr 0 0, 8), (Ptr 1 0, 8)]"
  by (rule arena_regions_disjoint [OF _ _ two_allocations])
    (auto simp: arena_inv_def policy_ok_def layout_8_8)

text \<open>
  The base of a chunk is the address of a boxed byte slice, which the allocator aligns to one byte
  only; \<open>base\<close> gives the address of each chunk.
\<close>

fun addr_of :: "(nat \<Rightarrow> nat) \<Rightarrow> ptr \<Rightarrow> nat" where
  "addr_of base Null = 0"
| "addr_of base (Ptr c off) = base c + off"

text \<open>
  The address of an allocation is a multiple of the requested alignment exactly when the base
  address of its chunk is: the arena aligns offsets, not addresses.
\<close>

theorem alloc_address_aligned_iff:
  assumes "arena_inv a" "layout_ok l" "alloc_raw a l = ret (p, a')"
  shows "\<exists>c off. p = Ptr c off \<and> (lay_align l dvd addr_of base p \<longleftrightarrow> lay_align l dvd base c)"
proof -
  obtain c off where "p = Ptr c off" "lay_align l dvd off"
    using alloc_raw_cases [OF assms(1,2)] assms(3) by (auto simp: alloc_ok_def)
  then show ?thesis by (simp add: dvd_add_left_iff)
qed


theorem alloc_address_aligned_iff_witness:
  "(\<exists>c off. Ptr 0 0 = Ptr c off \<and>
      (lay_align \<lparr>lay_size = 8, lay_align = 8\<rparr> dvd addr_of (\<lambda>_. 4) (Ptr 0 0) \<longleftrightarrow>
       lay_align \<lparr>lay_size = 8, lay_align = 8\<rparr> dvd (\<lambda>_. 4) c)) \<and>
   \<not> 8 dvd addr_of (\<lambda>_. 4) (Ptr 0 0)"
proof -
  let ?a = "\<lparr>current_chunk = 0, chunks = [\<lparr>mem_len = 10, bump = 0\<rparr>], allocated_bytes = 10, memory_used = 0,
      ar_allocator = System, policy = \<lparr>block_size = 10, cap = 20\<rparr>\<rparr>"
  have alloc: "alloc_raw ?a \<lparr>lay_size = 8, lay_align = 8\<rparr>
    = ret (Ptr 0 0, ?a\<lparr>chunks := [\<lparr>mem_len = 10, bump = 8\<rparr>], memory_used := 8\<rparr>)"
    by (simp add: alloc_raw.simps alignment_check_def add_usize_def get_chunk_def
        round_up_mask_def set_bump_def add_memory_used_def Let_def)
  have "arena_inv ?a" by (simp add: arena_inv_def policy_ok_def)
  from alloc_address_aligned_iff [OF this layout_8_8 alloc, of "\<lambda>_. 4"] show ?thesis by simp
qed

text \<open>
  Creating an arena on the system allocator succeeds for every policy with a positive block size
  not above the capacity (below 2^60 bytes), and then the invariant holds with nothing handed out.
\<close>

theorem arena_new_correct:
  "policy_ok pol \<Longrightarrow> \<exists>a. arena_new pol System = Inr a \<and> arena_inv a \<and> memory_used a = 0 \<and> (\<forall>c. frontier a c = 0)"
  using arena_new_inv [of pol] by blast

theorem arena_new_correct_witness:
  "\<exists>a. arena_new (to_policy Small) System = Inr a \<and> arena_inv a \<and> memory_used a = 0 \<and> (\<forall>c. frontier a c = 0)"
  by (rule arena_new_correct) (simp add: policy_ok_def to_policy_def MB_def KB_def)

end
