(* ===== verification/Skip_List.thy ===== *)
theory Skip_List
  imports Byte_Codec Internal_Key Arena
begin

unbundle bit_operations_syntax

text \<open>
  The skip list of \<^verbatim>\<open>memtable/skip_list.rs\<close>: node layout, tower access, the level
  generator, search, the two insertions and the iterators, with the loops and retries of the
  code. Nodes live in a store indexed by arena pointers; a node's key and value bytes are one
  payload behind its tower, as in the code's flexible array layout. The comparator is a parameter,
  as it is in the code (\<^verbatim>\<open>Arc<dyn Comparator>\<close>). This theory holds the definitions and the facts
  about single nodes and levels; the correctness of search and insertion is in theory
  \<open>Skip_List_Correct\<close>.
\<close>

section \<open>Nodes\<close>

definition MAX_HEAD_HEIGHT :: nat where "MAX_HEAD_HEIGHT = 8"

record node =
  height :: nat
  key_len :: nat
  value_len :: nat
  tower :: "ptr list"
  payload :: bytes

type_synonym nodes = "ptr \<Rightarrow> node option"

record heap =
  h_arena :: arena
  h_nodes :: nodes

text \<open>\<^verbatim>\<open>Layout::array\<close> and \<^verbatim>\<open>Layout::extend\<close> of the standard library.\<close>

definition layout_array :: "nat \<Rightarrow> nat \<Rightarrow> layout res" where
  "layout_array elem n =
     (if elem * n + elem \<le> isize_limit then Inr \<lparr>lay_size = elem * n, lay_align = elem\<rparr> else Inl LayoutFailed)"

definition layout_extend :: "layout \<Rightarrow> layout \<Rightarrow> layout res" where
  "layout_extend l m =
     (let al = max (lay_align l) (lay_align m);
          off = (lay_size l + lay_align m - 1) div lay_align m * lay_align m;
          total = off + lay_size m
      in if total + al \<le> isize_limit then Inr \<lparr>lay_size = total, lay_align = al\<rparr> else Inl LayoutFailed)"

definition NODE_LAYOUT :: layout where
  "NODE_LAYOUT = \<lparr>lay_size = 8, lay_align = 8\<rparr>"

definition build_layout :: "nat \<Rightarrow> nat \<Rightarrow> nat \<Rightarrow> layout res" where
  "build_layout hgt klen vlen =
     rbind (layout_array 8 hgt) (\<lambda>t. rbind (layout_extend NODE_LAYOUT t) (\<lambda>l1.
     rbind (layout_array 1 klen) (\<lambda>k. rbind (layout_extend l1 k) (\<lambda>l2.
     rbind (layout_array 1 vlen) (\<lambda>v. layout_extend l2 v)))))"

text \<open>The tower starts null; the payload is not read before it is written.\<close>

definition init_node :: "nat \<Rightarrow> nat \<Rightarrow> nat \<Rightarrow> node" where
  "init_node hgt klen vlen =
     \<lparr>height = hgt, key_len = klen, value_len = vlen, tower = replicate hgt Null,
      payload = replicate (klen + vlen) 0\<rparr>"

definition tower_ptr :: nat where "tower_ptr = 8"

definition key_ptr :: "node \<Rightarrow> nat" where
  "key_ptr n = tower_ptr + height n * 8"

definition value_ptr :: "node \<Rightarrow> nat" where
  "value_ptr n = key_ptr n + key_len n"

definition tower_height :: "node \<Rightarrow> nat" where
  "tower_height n = (key_ptr n - tower_ptr) div 8"

definition get_key_bytes :: "node \<Rightarrow> bytes" where
  "get_key_bytes n = take (key_len n) (payload n)"

definition get_value_bytes :: "node \<Rightarrow> bytes" where
  "get_value_bytes n = take (value_len n) (drop (key_len n) (payload n))"

definition node_alloc :: "bool \<Rightarrow> heap \<Rightarrow> nat \<Rightarrow> nat \<Rightarrow> nat \<Rightarrow> (ptr \<times> heap) comp" where
  "node_alloc dbg h hgt klen vlen =
     (case debug_assert dbg (hgt \<le> MAX_HEAD_HEIGHT) of
        Inl f \<Rightarrow> Some (Inl f)
      | Inr _ \<Rightarrow>
         (case build_layout hgt klen vlen of
            Inl f \<Rightarrow> Some (Inl LayoutFailed)
          | Inr l \<Rightarrow> cbind (alloc_raw (h_arena h) l) (\<lambda>(p, a).
              ret (p, \<lparr>h_arena = a, h_nodes = (h_nodes h)(p \<mapsto> init_node hgt klen vlen)\<rparr>))))"

text \<open>
  \<^verbatim>\<open>Node::next\<close> is the address of a tower slot, not the pointer stored there: an offset from
  the node's address, so it is never null.
\<close>

datatype slot_ptr = NullSlot | Slot ptr nat

definition node_next :: "ptr \<Rightarrow> nat \<Rightarrow> slot_ptr" where
  "node_next p level = Slot p level"

definition slot_is_null :: "slot_ptr \<Rightarrow> bool" where
  "slot_is_null s \<longleftrightarrow> s = NullSlot"

definition load_next :: "nodes \<Rightarrow> ptr \<Rightarrow> nat \<Rightarrow> ptr res" where
  "load_next st p level =
     (case st p of None \<Rightarrow> Inl InvalidAccess
      | Some n \<Rightarrow> if level < length (tower n) then Inr (tower n ! level) else Inl InvalidAccess)"

definition store_next :: "nodes \<Rightarrow> ptr \<Rightarrow> nat \<Rightarrow> ptr \<Rightarrow> nodes res" where
  "store_next st p level q =
     (case st p of None \<Rightarrow> Inl InvalidAccess
      | Some n \<Rightarrow> if level < length (tower n) then Inr (st(p \<mapsto> n\<lparr>tower := (tower n)[level := q]\<rparr>))
                  else Inl InvalidAccess)"

section \<open>The list, its counters and the level generator\<close>

record skiplist =
  sl_head :: ptr
  sl_seed :: u64
  sl_entries :: nat
  sl_max_level :: nat

definition seed_generator :: "u64 \<Rightarrow> u64" where
  "seed_generator seed =
     (let x = seed + 0x9E3779B97F4A7C15;
          x = (x XOR drop_bit 30 x) * 0xBF58476D1CE4E5B9;
          x = (x XOR drop_bit 27 x) * 0x94D049BB133111EB
      in x XOR drop_bit 31 x)"

definition skiplist_new :: "bool \<Rightarrow> heap \<Rightarrow> (skiplist \<times> heap) comp" where
  "skiplist_new dbg h =
     cbind (node_alloc dbg h MAX_HEAD_HEIGHT 0 0) (\<lambda>(p, h').
       ret (\<lparr>sl_head = p, sl_seed = seed_generator 1, sl_entries = 0, sl_max_level = 1\<rparr>, h'))"

definition xorshift :: "u64 \<Rightarrow> u64" where
  "xorshift s =
     (let s = s XOR push_bit 12 s; s = s XOR drop_bit 25 s in s XOR push_bit 27 s)"

definition trailing_zeros :: "u64 \<Rightarrow> nat" where
  "trailing_zeros w = length (takeWhile (\<lambda>i. \<not> bit w i) [0..<64])"

fun reduce_height :: "ptr \<Rightarrow> nat \<Rightarrow> nat" where
  "reduce_height head h =
     (if 4 \<le> h then (if slot_is_null (node_next head (h - 2)) then h else reduce_height head (h - 1)) else h)"

declare reduce_height.simps [simp del]

definition generate_random_level :: "skiplist \<Rightarrow> nat \<times> skiplist" where
  "generate_random_level sl =
     (let s = xorshift (sl_seed sl);
          h = reduce_height (sl_head sl) (min MAX_HEAD_HEIGHT (trailing_zeros s + 1))
      in (h, sl\<lparr>sl_seed := s, sl_max_level := (if sl_max_level sl < h then h else sl_max_level sl)\<rparr>))"

section \<open>Search\<close>

record traversal_ctx =
  searched_node :: "ptr option"
  predecessors :: "ptr list"
  successors :: "ptr list"

definition traversal_new :: traversal_ctx where
  "traversal_new = \<lparr>searched_node = None, predecessors = replicate MAX_HEAD_HEIGHT Null,
     successors = replicate MAX_HEAD_HEIGHT Null\<rparr>"

type_synonym compare = "bytes \<Rightarrow> bytes \<Rightarrow> ordering res"

fun start_level :: "nodes \<Rightarrow> ptr \<Rightarrow> nat \<Rightarrow> nat res" where
  "start_level st head 0 = Inr 0"
| "start_level st head (Suc l) =
     rbind (load_next st head l) (\<lambda>q. if q = Null then start_level st head l else Inr (Suc l))"

partial_function (option) walk ::
    "compare \<Rightarrow> nodes \<Rightarrow> bytes \<Rightarrow> nat \<Rightarrow> ptr \<Rightarrow> ptr \<Rightarrow> (ptr \<times> ptr) comp" where
  "walk cmp st key level pred cur =
     (if cur = Null then ret (pred, cur)
      else case st cur of
          None \<Rightarrow> Some (Inl InvalidAccess)
        | Some n \<Rightarrow>
           (case cmp (get_key_bytes n) key of
              Inl f \<Rightarrow> Some (Inl f)
            | Inr r \<Rightarrow>
               if r = Less then
                 (case load_next st cur level of
                    Inl f \<Rightarrow> Some (Inl f)
                  | Inr nx \<Rightarrow> walk cmp st key level cur nx)
               else ret (pred, cur)))"

fun search_levels ::
    "compare \<Rightarrow> nodes \<Rightarrow> bytes \<Rightarrow> nat \<Rightarrow> ptr \<Rightarrow> traversal_ctx \<Rightarrow> traversal_ctx comp" where
  "search_levels cmp st key 0 pred t = ret t"
| "search_levels cmp st key (Suc level) pred t =
     (case load_next st pred level of
        Inl f \<Rightarrow> Some (Inl f)
      | Inr cur \<Rightarrow>
         cbind (walk cmp st key level pred cur) (\<lambda>(pred', cur').
           search_levels cmp st key level pred'
             (t\<lparr>predecessors := (predecessors t)[level := pred'],
                successors := (successors t)[level := cur']\<rparr>)))"

definition search :: "compare \<Rightarrow> skiplist \<Rightarrow> nodes \<Rightarrow> bytes \<Rightarrow> traversal_ctx comp" where
  "search cmp sl st key =
     (let t = traversal_new\<lparr>predecessors := replicate MAX_HEAD_HEIGHT (sl_head sl)\<rparr> in
      case start_level st (sl_head sl) (sl_max_level sl) of
        Inl f \<Rightarrow> Some (Inl f)
      | Inr level \<Rightarrow> search_levels cmp st key level (sl_head sl) t)"

definition search_node :: "compare \<Rightarrow> skiplist \<Rightarrow> nodes \<Rightarrow> bytes \<Rightarrow> ptr comp" where
  "search_node cmp sl st key = cbind (search cmp sl st key) (\<lambda>t. ret (successors t ! 0))"

definition first_node :: "skiplist \<Rightarrow> nodes \<Rightarrow> ptr res" where
  "first_node sl st = load_next st (sl_head sl) 0"


section \<open>Insertion\<close>

text \<open>
  \<open>cas_next\<close> is the compare-and-swap on a tower slot: it stores the new pointer and succeeds when
  the slot holds the expected one.
\<close>

definition cas_next :: "nodes \<Rightarrow> ptr \<Rightarrow> nat \<Rightarrow> ptr \<Rightarrow> ptr \<Rightarrow> (bool \<times> nodes) res" where
  "cas_next st p level expected new =
     rbind (load_next st p level) (\<lambda>q.
       if q = expected then rbind (store_next st p level new) (\<lambda>st'. Inr (True, st')) else Inr (False, st))"

text \<open>One attempt at a level: link the successor into the new node, then swing the predecessor.\<close>

definition try_link :: "nodes \<Rightarrow> traversal_ctx \<Rightarrow> ptr \<Rightarrow> nat \<Rightarrow> (bool \<times> nodes) res" where
  "try_link st t node_ptr level =
     (let succ = successors t ! level in
      rbind (if succ \<noteq> Null then store_next st node_ptr level succ else Inr st) (\<lambda>st'.
        cas_next st' (predecessors t ! level) level succ node_ptr))"

text \<open>
  The compare-and-swap loop at the base level. \<open>Inl n\<close> is the early return when a repeated search
  reports an existing node.
\<close>

partial_function (option) insert_base ::
    "compare \<Rightarrow> skiplist \<Rightarrow> bytes \<Rightarrow> ptr \<Rightarrow> nodes \<Rightarrow> traversal_ctx \<Rightarrow> ((ptr + traversal_ctx) \<times> nodes) comp" where
  "insert_base cmp sl key node_ptr st t =
     (case try_link st t node_ptr 0 of
        Inl f \<Rightarrow> Some (Inl f)
      | Inr (done, st') \<Rightarrow>
         if done then ret (Inr t, st')
         else cbind (search cmp sl st' key) (\<lambda>t'.
           case searched_node t' of
             Some n \<Rightarrow> ret (Inl n, st')
           | None \<Rightarrow> insert_base cmp sl key node_ptr st' t'))"

partial_function (option) link_level ::
    "compare \<Rightarrow> skiplist \<Rightarrow> bytes \<Rightarrow> ptr \<Rightarrow> nat \<Rightarrow> nodes \<Rightarrow> traversal_ctx \<Rightarrow> (traversal_ctx \<times> nodes) comp" where
  "link_level cmp sl key node_ptr level st t =
     (case try_link st t node_ptr level of
        Inl f \<Rightarrow> Some (Inl f)
      | Inr (done, st') \<Rightarrow>
         if done then ret (t, st')
         else cbind (search cmp sl st' key) (\<lambda>t'. link_level cmp sl key node_ptr level st' t'))"

fun link_levels ::
    "compare \<Rightarrow> skiplist \<Rightarrow> bytes \<Rightarrow> ptr \<Rightarrow> nat list \<Rightarrow> nodes \<Rightarrow> traversal_ctx \<Rightarrow> nodes comp" where
  "link_levels cmp sl key node_ptr [] st t = ret st"
| "link_levels cmp sl key node_ptr (level # levels) st t =
     cbind (link_level cmp sl key node_ptr level st t) (\<lambda>(t', st').
       link_levels cmp sl key node_ptr levels st' t')"

text \<open>\<open>copy_nonoverlapping\<close> into the payload of a node, at an offset from its key.\<close>

definition write_payload :: "nodes \<Rightarrow> ptr \<Rightarrow> nat \<Rightarrow> bytes \<Rightarrow> nodes res" where
  "write_payload st p off src =
     (case st p of None \<Rightarrow> Inl InvalidAccess
      | Some n \<Rightarrow> rbind (copy_into (payload n) off src) (\<lambda>pl. Inr (st(p \<mapsto> n\<lparr>payload := pl\<rparr>))))"

definition write_value :: "nodes \<Rightarrow> ptr \<Rightarrow> bytes \<Rightarrow> nodes res" where
  "write_value st p val =
     (case st p of None \<Rightarrow> Inl InvalidAccess | Some n \<Rightarrow> write_payload st p (key_len n) val)"

text \<open>The linking part shared by both insertions: the base level, then the levels above it.\<close>

definition link_node ::
    "compare \<Rightarrow> skiplist \<Rightarrow> bytes \<Rightarrow> ptr \<Rightarrow> nat \<Rightarrow> heap \<Rightarrow> traversal_ctx \<Rightarrow> (ptr \<times> heap) comp" where
  "link_node cmp sl key node_ptr hgt h t =
     cbind (insert_base cmp sl key node_ptr (h_nodes h) t) (\<lambda>(r, st).
       case r of
         Inl n \<Rightarrow> ret (n, h\<lparr>h_nodes := st\<rparr>)
       | Inr t' \<Rightarrow>
          cbind (link_levels cmp sl key node_ptr [1..<hgt] st t') (\<lambda>st'.
            ret (node_ptr, h\<lparr>h_nodes := st'\<rparr>)))"

definition sl_insert ::
    "bool \<Rightarrow> compare \<Rightarrow> skiplist \<Rightarrow> heap \<Rightarrow> bytes \<Rightarrow> bytes \<Rightarrow> (ptr \<times> skiplist \<times> heap) comp" where
  "sl_insert dbg cmp sl h key val =
     cbind (search cmp sl (h_nodes h) key) (\<lambda>t.
       case searched_node t of
         Some n \<Rightarrow> ret (n, sl, h)
       | None \<Rightarrow>
          let sl = sl\<lparr>sl_entries := (sl_entries sl + 1) mod usize_limit\<rparr>;
              (hgt, sl) = generate_random_level sl in
          case debug_assert dbg (hgt \<le> MAX_HEAD_HEIGHT) of
            Inl f \<Rightarrow> Some (Inl f)
          | Inr _ \<Rightarrow>
             cbind (node_alloc dbg h hgt (length key mod u16_limit) (length val mod u32_limit)) (\<lambda>(node_ptr, h).
               case rbind (write_payload (h_nodes h) node_ptr 0 key) (\<lambda>st. write_value st node_ptr val) of
                 Inl f \<Rightarrow> Some (Inl f)
               | Inr st \<Rightarrow>
                  cbind (link_node cmp sl key node_ptr hgt (h\<lparr>h_nodes := st\<rparr>) t) (\<lambda>(p, h').
                    ret (p, sl, h'))))"

text \<open>
  \<open>insert_with\<close> allocates first and lets the caller's closure \<open>f\<close> write the key into the node.
\<close>

definition insert_with ::
    "bool \<Rightarrow> compare \<Rightarrow> skiplist \<Rightarrow> heap \<Rightarrow> nat \<Rightarrow> bytes \<Rightarrow> (nodes \<Rightarrow> ptr \<Rightarrow> nodes res) \<Rightarrow>
     (ptr \<times> skiplist \<times> heap) comp" where
  "insert_with dbg cmp sl h klen val f =
     (let sl = sl\<lparr>sl_entries := (sl_entries sl + 1) mod usize_limit\<rparr>;
          (hgt, sl) = generate_random_level sl in
      case debug_assert dbg (hgt \<le> MAX_HEAD_HEIGHT) of
        Inl e \<Rightarrow> Some (Inl e)
      | Inr _ \<Rightarrow>
         cbind (node_alloc dbg h hgt klen (length val mod u32_limit)) (\<lambda>(node_ptr, h).
           case rbind (f (h_nodes h) node_ptr) (\<lambda>st. write_value st node_ptr val) of
             Inl e \<Rightarrow> Some (Inl e)
           | Inr st \<Rightarrow>
              (case st node_ptr of
                 None \<Rightarrow> Some (Inl InvalidAccess)
               | Some n \<Rightarrow>
                  let key = get_key_bytes n in
                  cbind (search cmp sl st key) (\<lambda>t.
                    case searched_node t of
                      Some m \<Rightarrow> ret (m, sl, h\<lparr>h_nodes := st\<rparr>)
                    | None \<Rightarrow>
                       cbind (link_node cmp sl key node_ptr hgt (h\<lparr>h_nodes := st\<rparr>) t) (\<lambda>(p, h').
                         ret (p, sl, h'))))))"

section \<open>Iterators\<close>

type_synonym iter = ptr

definition iter :: "skiplist \<Rightarrow> nodes \<Rightarrow> iter res" where
  "iter sl st = load_next st (sl_head sl) 0"

definition seek :: "compare \<Rightarrow> skiplist \<Rightarrow> nodes \<Rightarrow> bytes \<Rightarrow> iter comp" where
  "seek cmp sl st key =
     cbind (search cmp sl st key) (\<lambda>t.
       case searched_node t of Some n \<Rightarrow> ret n | None \<Rightarrow> ret (successors t ! 0))"

definition iter_next :: "nodes \<Rightarrow> iter \<Rightarrow> (ptr option \<times> iter) res" where
  "iter_next st it =
     (if it = Null then Inr (None, it) else rbind (load_next st it 0) (\<lambda>nx. Inr (Some it, nx)))"

datatype bound = Included bytes | Excluded bytes | Unbounded

record range_iter =
  ri_start :: ptr
  ri_end :: bound

definition range_new :: "compare \<Rightarrow> skiplist \<Rightarrow> nodes \<Rightarrow> bound \<Rightarrow> bound \<Rightarrow> range_iter comp" where
  "range_new cmp sl st lo hi =
     cbind (case lo of
         Excluded k \<Rightarrow> seek cmp sl st k
       | Included k \<Rightarrow> seek cmp sl st k
       | Unbounded \<Rightarrow> Some (iter sl st)) (\<lambda>it.
       ret \<lparr>ri_start = it, ri_end = hi\<rparr>)"

definition range_next :: "nodes \<Rightarrow> range_iter \<Rightarrow> (ptr option \<times> range_iter) res" where
  "range_next st ri =
     (if ri_start ri = Null then Inr (None, ri)
      else case st (ri_start ri) of
          None \<Rightarrow> Inl InvalidAccess
        | Some n \<Rightarrow>
           let key = get_key_bytes n in
           if (case ri_end ri of
                 Excluded b \<Rightarrow> bytes_cmp key b \<noteq> Less
               | Included b \<Rightarrow> bytes_cmp key b = Greater
               | Unbounded \<Rightarrow> False)
           then Inr (None, ri)
           else rbind (load_next st (ri_start ri) 0) (\<lambda>nx. Inr (Some (ri_start ri), ri\<lparr>ri_start := nx\<rparr>)))"


section \<open>Layout and access of single nodes\<close>

lemma build_layout_eq:
  assumes "hgt \<le> 8" "klen < u16_limit" "vlen < u32_limit"
  shows "build_layout hgt klen vlen = Inr \<lparr>lay_size = 8 + 8 * hgt + klen + vlen, lay_align = 8\<rparr>"
  using assms
  by (simp add: build_layout_def layout_array_def layout_extend_def NODE_LAYOUT_def Let_def)

lemma node_layout_ok:
  assumes "hgt \<le> 8" "klen < u16_limit" "vlen < u32_limit"
  shows "layout_ok \<lparr>lay_size = 8 + 8 * hgt + klen + vlen, lay_align = 8\<rparr>"
  using assms by (auto simp: layout_ok_def intro!: exI [of _ 3])

text \<open>
  The layout computed for a node holds exactly its header, its tower, its key and its value: the
  value ends where the allocation ends, and the height read back from the pointers is the height.
\<close>

theorem node_layout_exact:
  assumes "hgt \<le> MAX_HEAD_HEIGHT" "klen < u16_limit" "vlen < u32_limit"
  shows "\<exists>l. build_layout hgt klen vlen = Inr l \<and>
     lay_size l = value_ptr (init_node hgt klen vlen) + vlen \<and> tower_height (init_node hgt klen vlen) = hgt"
  using assms
  by (simp add: MAX_HEAD_HEIGHT_def build_layout_eq value_ptr_def key_ptr_def tower_ptr_def init_node_def
      tower_height_def)

theorem node_layout_exact_witness:
  "\<exists>l. build_layout 3 5 2 = Inr l \<and>
     lay_size l = value_ptr (init_node 3 5 2) + 2 \<and> tower_height (init_node 3 5 2) = 3"
  by (rule node_layout_exact) (simp_all add: MAX_HEAD_HEIGHT_def)

lemma load_next_Some: "st p = Some n \<Longrightarrow> level < length (tower n) \<Longrightarrow> load_next st p level = Inr (tower n ! level)"
  by (simp add: load_next_def)

lemma store_next_Some:
  "st p = Some n \<Longrightarrow> level < length (tower n) \<Longrightarrow>
   store_next st p level q = Inr (st(p \<mapsto> n\<lparr>tower := (tower n)[level := q]\<rparr>))"
  by (simp add: store_next_def)

section \<open>Levels\<close>

lemma reduce_height_eq: "reduce_height head h = min h 3"
proof (induction head h rule: reduce_height.induct)
  case (1 head h)
  then show ?case
    by (subst reduce_height.simps) (auto simp: slot_is_null_def node_next_def min_def)
qed

lemma generate_random_level_bounds:
  assumes "generate_random_level sl = (h, sl')"
  shows "1 \<le> h" "h \<le> 3" "sl_head sl' = sl_head sl" "sl_entries sl' = sl_entries sl"
    "sl_max_level sl' = max (sl_max_level sl) h" "sl_seed sl' = xorshift (sl_seed sl)"
  using assms
  by (auto simp: generate_random_level_def Let_def reduce_height_eq MAX_HEAD_HEIGHT_def max_def)

text \<open>
  C39: The height of a new node is between 1 and 3 for every state of the generator: the loop that is
  meant to trim heights tests the address of a tower slot of the head, which is never null, so it
  always runs down to 3 and the levels 4 to 8 of the head are never used.
\<close>

theorem random_level_at_most_3:
  "1 \<le> fst (generate_random_level sl) \<and> fst (generate_random_level sl) \<le> 3"
  using generate_random_level_bounds(1,2) [of sl] by (metis prod.collapse)

lemma xor_zero_imp_eq:
  fixes a b :: u64
  assumes "a XOR b = 0"
  shows "a = b"
proof (rule bit_eqI)
  fix i
  have "\<not> bit (a XOR b) i" using assms by simp
  then show "bit a i \<longleftrightarrow> bit b i" by (simp add: bit_xor_iff)
qed

lemma xor_push_bit_zero:
  fixes s :: u64
  assumes "s XOR push_bit k s = 0" "0 < k"
  shows "s = 0"
proof -
  have eq: "s = push_bit k s" using assms(1) by (rule xor_zero_imp_eq)
  have "\<not> bit s i" for i
  proof (induction i rule: less_induct)
    case (less i)
    have "bit s i \<longleftrightarrow> bit (push_bit k s) i" using eq by simp
    with less [of "i - k"] assms(2) show ?case by (auto simp: bit_simps)
  qed
  then show ?thesis by (intro bit_eqI) simp
qed

lemma xor_drop_bit_zero:
  fixes s :: u64
  assumes "s XOR drop_bit k s = 0" "0 < k"
  shows "s = 0"
proof -
  have eq: "s = drop_bit k s" using assms(1) by (rule xor_zero_imp_eq)
  have "\<not> bit s i" for i
  proof (induction "64 - i" arbitrary: i rule: less_induct)
    case less
    have "bit s i \<longleftrightarrow> bit s (k + i)" using eq by (metis bit_drop_bit_eq comp_apply)
    moreover have "\<not> bit s (k + i)" if "i < 64" using less [of "k + i"] assms(2) that by simp
    ultimately show ?case using bit_imp_le_length [of s i] by auto
  qed
  then show ?thesis by (intro bit_eqI) simp
qed

text \<open>
  The level generator never gets stuck: its state starts non-zero and a step from a non-zero
  state is non-zero.
\<close>

theorem xorshift_state_nonzero: "seed_generator 1 \<noteq> 0 \<and> (xorshift s = 0 \<longleftrightarrow> s = 0)"
proof
  show "seed_generator 1 \<noteq> 0" by (simp add: seed_generator_def)
  show "xorshift s = 0 \<longleftrightarrow> s = 0"
  proof
    assume z: "xorshift s = 0"
    define t where "t = s XOR push_bit 12 s"
    define u where "u = t XOR drop_bit 25 t"
    have "u XOR push_bit 27 u = 0" using z by (simp only: xorshift_def Let_def t_def u_def)
    then have "u = 0" by (rule xor_push_bit_zero) simp
    then have "t = 0" unfolding u_def by (rule xor_drop_bit_zero) simp
    then show "s = 0" unfolding t_def by (rule xor_push_bit_zero) simp
  qed (simp add: xorshift_def Let_def)
qed

end
