(* ===== verification/Skip_List_Correct.thy ===== *)
theory Skip_List_Correct
  imports Skip_List
begin

text \<open>
  Correctness of the skip list for every comparator that meets the contract \<open>key_comparator\<close>.
  The invariant \<open>sl_inv\<close> says that the base level is a sorted list of nodes, that level \<open>l\<close>
  links exactly the nodes of the base level whose tower is higher than \<open>l\<close>, in the same order, and
  that every node lies below the frontier of the arena. Search returns at every level the last node
  below the key and the first one not below it; an insertion is insertion before the first entry not
  below the key; both return for every list that satisfies the invariant.
\<close>

section \<open>Paths through next pointers\<close>

fun path :: "(ptr \<Rightarrow> ptr option) \<Rightarrow> ptr \<Rightarrow> ptr list \<Rightarrow> ptr \<Rightarrow> bool" where
  "path f p [] q \<longleftrightarrow> p = q"
| "path f p (x # xs) q \<longleftrightarrow> p = x \<and> x \<noteq> Null \<and> (\<exists>r. f x = Some r \<and> path f r xs q)"

definition hd0 :: "ptr list \<Rightarrow> ptr" where
  "hd0 xs = (case xs of [] \<Rightarrow> Null | x # _ \<Rightarrow> x)"

lemma hd0_simps [simp]: "hd0 [] = Null" "hd0 (x # xs) = x"
  by (simp_all add: hd0_def)

lemma path_append: "path f p (xs @ ys) q \<longleftrightarrow> (\<exists>r. path f p xs r \<and> path f r ys q)"
  by (induction xs arbitrary: p) auto

lemma path_upd: "u \<notin> set xs \<Longrightarrow> path (f(u := v)) p xs q \<longleftrightarrow> path f p xs q"
  by (induction xs arbitrary: p) auto

lemma path_cong: "(\<And>x. x \<in> set xs \<Longrightarrow> f x = g x) \<Longrightarrow> path f p xs q \<longleftrightarrow> path g p xs q"
  by (induction xs arbitrary: p) auto

lemma path_hd0: "path f p xs Null \<Longrightarrow> p = hd0 xs"
  by (cases xs) auto

text \<open>Splicing \<open>p\<close> in after \<open>pr\<close>, the last node of the first part.\<close>

lemma path_insert:
  assumes "path f h (xs @ ys) Null" "xs \<noteq> []" "distinct (xs @ ys)" "p \<notin> set (xs @ ys)" "p \<noteq> Null"
    "f p = Some (hd0 ys)"
  shows "path (f(last xs \<mapsto> p)) h (xs @ p # ys) Null" "f (last xs) = Some (hd0 ys)"
proof -
  obtain zs pr where xs: "xs = zs @ [pr]" using assms(2) by (metis append_butlast_last_id)
  obtain r where r: "path f h zs pr" "pr \<noteq> Null" "f pr = Some r" "path f r ys Null"
    using assms(1) by (auto simp: xs path_append)
  have rs: "r = hd0 ys" using r(4) by (rule path_hd0)
  with r show "f (last xs) = Some (hd0 ys)" by (simp add: xs)
  have "path (f(pr \<mapsto> p)) h zs pr" "path (f(pr \<mapsto> p)) r ys Null"
    using r assms(3) by (simp_all add: xs path_upd)
  moreover have "p \<noteq> pr" using assms(4) by (simp add: xs)
  ultimately show "path (f(last xs \<mapsto> p)) h (xs @ p # ys) Null"
    using r(2) assms(5,6) rs by (auto simp: xs path_append)
qed

section \<open>Views of the node store\<close>

definition nxt :: "nodes \<Rightarrow> nat \<Rightarrow> ptr \<Rightarrow> ptr option" where
  "nxt st l p = (case st p of None \<Rightarrow> None
     | Some n \<Rightarrow> if l < length (tower n) then Some (tower n ! l) else None)"

definition node_key :: "nodes \<Rightarrow> ptr \<Rightarrow> bytes" where
  "node_key st p = (case st p of None \<Rightarrow> [] | Some n \<Rightarrow> get_key_bytes n)"

definition node_val :: "nodes \<Rightarrow> ptr \<Rightarrow> bytes" where
  "node_val st p = (case st p of None \<Rightarrow> [] | Some n \<Rightarrow> get_value_bytes n)"

definition node_height :: "nodes \<Rightarrow> ptr \<Rightarrow> nat" where
  "node_height st p = (case st p of None \<Rightarrow> 0 | Some n \<Rightarrow> length (tower n))"

definition node_size :: "nodes \<Rightarrow> ptr \<Rightarrow> nat" where
  "node_size st p = (case st p of None \<Rightarrow> 0 | Some n \<Rightarrow> 8 + 8 * height n + key_len n + value_len n)"

lemma load_next_nxt: "load_next st p l = (case nxt st l p of None \<Rightarrow> Inl InvalidAccess | Some q \<Rightarrow> Inr q)"
  by (simp add: load_next_def nxt_def split: option.splits)

lemma nxt_height: "(\<exists>q. nxt st l p = Some q) \<longleftrightarrow> l < node_height st p"
  by (simp add: nxt_def node_height_def split: option.splits)

definition node_ok :: "nodes \<Rightarrow> ptr \<Rightarrow> bool" where
  "node_ok st p \<longleftrightarrow> (\<exists>n. st p = Some n \<and> 1 \<le> length (tower n) \<and> length (tower n) \<le> MAX_HEAD_HEIGHT \<and>
     height n = length (tower n) \<and> length (payload n) = key_len n + value_len n)"

text \<open>Two stores that differ in tower pointers only.\<close>

definition same_nodes :: "nodes \<Rightarrow> nodes \<Rightarrow> bool" where
  "same_nodes st st' \<longleftrightarrow> node_key st' = node_key st \<and> node_val st' = node_val st \<and>
     node_height st' = node_height st \<and> node_size st' = node_size st \<and> node_ok st' = node_ok st \<and> dom st' = dom st"

lemma same_nodes_refl [simp]: "same_nodes st st"
  by (simp add: same_nodes_def)

lemma same_nodes_trans [trans]: "same_nodes a b \<Longrightarrow> same_nodes b c \<Longrightarrow> same_nodes a c"
  by (simp add: same_nodes_def)

text \<open>A store changes one slot of one tower and nothing else.\<close>

lemma store_next_view:
  assumes "l < node_height st p"
  obtains st' where "store_next st p l q = Inr st'"
    "nxt st' = (nxt st)(l := (nxt st l)(p \<mapsto> q))" "same_nodes st st'"
proof -
  obtain n where n: "st p = Some n" "l < length (tower n)"
    using assms by (auto simp: node_height_def split: option.splits)
  let ?st = "st(p \<mapsto> n\<lparr>tower := (tower n)[l := q]\<rparr>)"
  have "store_next st p l q = Inr ?st" using n by (simp add: store_next_Some)
  moreover have "nxt ?st = (nxt st)(l := (nxt st l)(p \<mapsto> q))"
    using n by (auto simp: nxt_def fun_eq_iff nth_list_update)
  moreover have "same_nodes st ?st"
    using n by (auto simp: same_nodes_def node_key_def node_val_def node_height_def node_size_def
        node_ok_def get_key_bytes_def get_value_bytes_def fun_eq_iff)
  ultimately show thesis by (rule that)
qed

section \<open>Well-formed lists\<close>

definition lt :: "compare \<Rightarrow> nodes \<Rightarrow> bytes \<Rightarrow> ptr \<Rightarrow> bool" where
  "lt cmp st key p \<longleftrightarrow> cmp (node_key st p) key = Inr Less"

definition level_list :: "nodes \<Rightarrow> nat \<Rightarrow> ptr list \<Rightarrow> ptr list" where
  "level_list st l ns = filter (\<lambda>p. l < node_height st p) ns"

definition sorted_nodes :: "compare \<Rightarrow> nodes \<Rightarrow> ptr list \<Rightarrow> bool" where
  "sorted_nodes cmp st ns \<longleftrightarrow> sorted_wrt (\<lambda>p q. cmp (node_key st q) (node_key st p) \<noteq> Inr Less) ns"

text \<open>The chain of level \<open>l\<close> starts at the head, whose tower has all levels.\<close>

definition linked :: "nodes \<Rightarrow> ptr \<Rightarrow> nat \<Rightarrow> ptr list \<Rightarrow> bool" where
  "linked st h0 l xs \<longleftrightarrow> path (nxt st l) h0 (h0 # xs) Null"

definition sl_wf :: "compare \<Rightarrow> (bytes \<Rightarrow> bool) \<Rightarrow> skiplist \<Rightarrow> nodes \<Rightarrow> ptr list \<Rightarrow> bool" where
  "sl_wf cmp valid sl st ns \<longleftrightarrow>
     distinct (sl_head sl # ns) \<and> node_height st (sl_head sl) = MAX_HEAD_HEIGHT \<and>
     1 \<le> sl_max_level sl \<and> sl_max_level sl \<le> MAX_HEAD_HEIGHT \<and>
     (\<forall>p \<in> set ns. node_ok st p \<and> valid (node_key st p) \<and> node_height st p \<le> sl_max_level sl) \<and>
     sorted_nodes cmp st ns \<and>
     (\<forall>l < MAX_HEAD_HEIGHT. linked st (sl_head sl) l (level_list st l ns))"

definition heap_ok :: "heap \<Rightarrow> bool" where
  "heap_ok h \<longleftrightarrow> arena_inv (h_arena h) \<and>
     (\<forall>p \<in> dom (h_nodes h). below (frontier (h_arena h)) (p, node_size (h_nodes h) p))"

definition sl_inv :: "compare \<Rightarrow> (bytes \<Rightarrow> bool) \<Rightarrow> skiplist \<Rightarrow> heap \<Rightarrow> ptr list \<Rightarrow> bool" where
  "sl_inv cmp valid sl h ns \<longleftrightarrow> heap_ok h \<and> sl_wf cmp valid sl (h_nodes h) ns"

text \<open>The position of a key at a level: the last node below it (or the head) and the first not below.\<close>

definition pred_at :: "compare \<Rightarrow> nodes \<Rightarrow> bytes \<Rightarrow> ptr \<Rightarrow> ptr list \<Rightarrow> ptr" where
  "pred_at cmp st key h0 xs = last (h0 # takeWhile (lt cmp st key) xs)"

definition succ_at :: "compare \<Rightarrow> nodes \<Rightarrow> bytes \<Rightarrow> ptr list \<Rightarrow> ptr" where
  "succ_at cmp st key xs = hd0 (dropWhile (lt cmp st key) xs)"

definition insert_at :: "compare \<Rightarrow> nodes \<Rightarrow> bytes \<Rightarrow> ptr \<Rightarrow> ptr list \<Rightarrow> ptr list" where
  "insert_at cmp st key p xs = takeWhile (lt cmp st key) xs @ p # dropWhile (lt cmp st key) xs"

text \<open>What a search returns for the nodes \<open>ns\<close> of the list.\<close>

definition found :: "compare \<Rightarrow> skiplist \<Rightarrow> nodes \<Rightarrow> ptr list \<Rightarrow> bytes \<Rightarrow> traversal_ctx \<Rightarrow> bool" where
  "found cmp sl st ns key t \<longleftrightarrow> searched_node t = None \<and>
     (\<forall>l < MAX_HEAD_HEIGHT. predecessors t ! l = pred_at cmp st key (sl_head sl) (level_list st l ns) \<and>
        successors t ! l = succ_at cmp st key (level_list st l ns))"

section \<open>Search\<close>

lemma takeWhile_split:
  assumes "\<forall>a \<in> set as. P a" "P x"
  shows "takeWhile P (as @ x # bs) = as @ x # takeWhile P bs" "dropWhile P (as @ x # bs) = dropWhile P bs"
  using assms by (induction as) auto

context key_comparator
begin

lemma walk_chain:
  assumes "path (nxt st l) cur xs Null" "\<forall>p \<in> set xs. st p \<noteq> None \<and> valid (node_key st p)" "valid key"
  shows "walk cmp st key l pred cur = ret (pred_at cmp st key pred xs, succ_at cmp st key xs)"
  using assms(1,2)
proof (induction xs arbitrary: pred cur)
  case Nil
  then show ?case by (simp add: walk.simps pred_at_def succ_at_def)
next
  case (Cons x xs)
  then obtain r n where x: "cur = x" "x \<noteq> Null" "nxt st l x = Some r" "path (nxt st l) r xs Null"
    and n: "st x = Some n" "valid (get_key_bytes n)" by (auto simp: node_key_def)
  obtain c where c: "cmp (get_key_bytes n) key = Inr c" using cmp_returns [OF n(2) assms(3)] by blast
  show ?case
  proof (cases "c = Less")
    case True
    have "walk cmp st key l pred cur = walk cmp st key l x r"
      by (subst walk.simps) (simp add: x n c True load_next_nxt)
    also have "\<dots> = ret (pred_at cmp st key x xs, succ_at cmp st key xs)"
      using Cons.IH x(4) Cons.prems(2) by simp
    finally show ?thesis using True c n by (simp add: pred_at_def succ_at_def lt_def node_key_def)
  next
    case False
    then show ?thesis using c n x
      by (subst walk.simps) (simp add: pred_at_def succ_at_def lt_def node_key_def)
  qed
qed

text \<open>In a sorted list everything before a node below the key is below the key.\<close>

lemma sorted_prefix_lt:
  assumes "sorted_nodes cmp st (as @ x # bs)" "lt cmp st key x" "valid key"
    "\<forall>p \<in> set (as @ [x]). valid (node_key st p)"
  shows "\<forall>a \<in> set as. lt cmp st key a"
proof
  fix a assume a: "a \<in> set as"
  then have "cmp (node_key st x) (node_key st a) \<noteq> Inr Less"
    using assms(1) by (auto simp: sorted_nodes_def sorted_wrt_append)
  then show "lt cmp st key a"
    using less_not_less_trans [of "node_key st x" "node_key st a" key] assms a by (auto simp: lt_def)
qed

lemma pred_succ_from:
  assumes "sorted_nodes cmp st (as @ x # bs)" "lt cmp st key x" "valid key"
    "\<forall>p \<in> set (as @ [x]). valid (node_key st p)"
  shows "pred_at cmp st key h0 (as @ x # bs) = pred_at cmp st key x bs"
    "succ_at cmp st key (as @ x # bs) = succ_at cmp st key bs"
  using takeWhile_split [OF sorted_prefix_lt [OF assms] assms(2), of bs]
  by (simp_all add: pred_at_def succ_at_def)

lemma pred_at_cases: "pred_at cmp st key h0 xs = h0 \<or>
   (pred_at cmp st key h0 xs \<in> set xs \<and> lt cmp st key (pred_at cmp st key h0 xs))"
proof (cases "takeWhile (lt cmp st key) xs = []")
  case False
  then have "pred_at cmp st key h0 xs \<in> set (takeWhile (lt cmp st key) xs)" by (simp add: pred_at_def)
  then show ?thesis by (auto dest: set_takeWhileD)
qed (simp add: pred_at_def)

lemma level_list_sorted: "sorted_nodes cmp st ns \<Longrightarrow> sorted_nodes cmp st (level_list st l ns)"
  by (simp add: sorted_nodes_def level_list_def sorted_wrt_filter)

text \<open>One level of the search, entered from the head or from a node of that level below the key.\<close>

lemma search_step:
  assumes wf: "sl_wf cmp valid sl st ns" and l: "l < MAX_HEAD_HEIGHT" and k: "valid key"
    and p: "pred = sl_head sl \<or> pred \<in> set (level_list st l ns) \<and> lt cmp st key pred"
  shows "\<exists>cur. load_next st pred l = Inr cur \<and> walk cmp st key l pred cur
    = ret (pred_at cmp st key (sl_head sl) (level_list st l ns), succ_at cmp st key (level_list st l ns))"
proof -
  let ?xs = "level_list st l ns"
  have ok: "\<forall>q \<in> set ?xs. st q \<noteq> None \<and> valid (node_key st q)"
    using wf by (auto simp: sl_wf_def level_list_def node_ok_def)
  have lk: "path (nxt st l) (sl_head sl) (sl_head sl # ?xs) Null"
    using wf l by (simp add: sl_wf_def linked_def)
  show ?thesis using p
  proof
    assume "pred = sl_head sl"
    with lk walk_chain [OF _ ok k] show ?thesis by (auto simp: load_next_nxt)
  next
    assume a: "pred \<in> set ?xs \<and> lt cmp st key pred"
    then obtain as bs where xs: "?xs = as @ pred # bs" by (meson split_list)
    obtain r where r: "nxt st l pred = Some r" "path (nxt st l) r bs Null"
      using lk unfolding xs by (auto simp: path_append)
    have "sorted_nodes cmp st (as @ pred # bs)"
      using wf level_list_sorted [of st ns l] by (simp add: sl_wf_def xs)
    then show ?thesis
      using pred_succ_from(1) [of st as pred bs key "sl_head sl"] pred_succ_from(2) [of st as pred bs key] walk_chain [OF r(2) _ k] a ok k r(1)
      by (simp add: xs load_next_nxt)
  qed
qed

lemma search_levels_ok:
  assumes wf: "sl_wf cmp valid sl st ns" and k: "valid key"
    and "n \<le> MAX_HEAD_HEIGHT" "length (predecessors t) = MAX_HEAD_HEIGHT" "length (successors t) = MAX_HEAD_HEIGHT"
    and "pred = sl_head sl \<or> pred \<in> set (level_list st (n - 1) ns) \<and> lt cmp st key pred"
  shows "\<exists>t'. search_levels cmp st key n pred t = ret t' \<and> searched_node t' = searched_node t \<and>
    length (predecessors t') = MAX_HEAD_HEIGHT \<and> length (successors t') = MAX_HEAD_HEIGHT \<and>
    (\<forall>l < n. predecessors t' ! l = pred_at cmp st key (sl_head sl) (level_list st l ns) \<and>
             successors t' ! l = succ_at cmp st key (level_list st l ns)) \<and>
    (\<forall>l \<ge> n. predecessors t' ! l = predecessors t ! l \<and> successors t' ! l = successors t ! l)"
  using assms(3-)
proof (induction n arbitrary: pred t)
  case (Suc n)
  let ?p = "pred_at cmp st key (sl_head sl) (level_list st n ns)"
  let ?s = "succ_at cmp st key (level_list st n ns)"
  let ?t = "t\<lparr>predecessors := (predecessors t)[n := ?p], successors := (successors t)[n := ?s]\<rparr>"
  obtain cur where c: "load_next st pred n = Inr cur" "walk cmp st key n pred cur = ret (?p, ?s)"
    using search_step [OF wf _ k, of n pred] Suc.prems by auto
  have down: "set (level_list st n ns) \<subseteq> set (level_list st (n - 1) ns)"
    by (auto simp: level_list_def)
  have "?p = sl_head sl \<or> ?p \<in> set (level_list st (n - 1) ns) \<and> lt cmp st key ?p"
    using pred_at_cases [of st key "sl_head sl" "level_list st n ns"] down by blast
  then obtain t' where t': "search_levels cmp st key n ?p ?t = ret t'" "searched_node t' = searched_node ?t"
    "length (predecessors t') = MAX_HEAD_HEIGHT" "length (successors t') = MAX_HEAD_HEIGHT"
    "\<forall>l < n. predecessors t' ! l = pred_at cmp st key (sl_head sl) (level_list st l ns) \<and>
             successors t' ! l = succ_at cmp st key (level_list st l ns)"
    "\<forall>l \<ge> n. predecessors t' ! l = predecessors ?t ! l \<and> successors t' ! l = successors ?t ! l"
    using Suc.IH [of ?t ?p] Suc.prems by auto
  have "\<forall>l < Suc n. predecessors t' ! l = pred_at cmp st key (sl_head sl) (level_list st l ns) \<and>
             successors t' ! l = succ_at cmp st key (level_list st l ns)"
    using t'(5,6) Suc.prems by (auto simp: less_Suc_eq)
  moreover have "\<forall>l \<ge> Suc n. predecessors t' ! l = predecessors t ! l \<and> successors t' ! l = successors t ! l"
    using t'(6) by auto
  ultimately show ?case using t'(1-4) c by simp
qed simp

text \<open>The levels skipped at the start of a search are empty.\<close>

lemma start_level_ok:
  assumes "sl_wf cmp valid sl st ns" "n \<le> MAX_HEAD_HEIGHT"
  shows "\<exists>k \<le> n. start_level st (sl_head sl) n = Inr k \<and> (\<forall>l. k \<le> l \<and> l < n \<longrightarrow> level_list st l ns = [])"
  using assms(2)
proof (induction n)
  case (Suc n)
  have "linked st (sl_head sl) n (level_list st n ns)" using assms(1) Suc.prems by (simp add: sl_wf_def)
  then obtain r where r: "nxt st n (sl_head sl) = Some r" "path (nxt st n) r (level_list st n ns) Null"
    by (auto simp: linked_def)
  show ?case
  proof (cases "r = Null")
    case True
    with r(2) have e: "level_list st n ns = []" by (cases "level_list st n ns") auto
    from Suc obtain k where "k \<le> n" "start_level st (sl_head sl) n = Inr k"
      "\<forall>l. k \<le> l \<and> l < n \<longrightarrow> level_list st l ns = []" by auto
    then show ?thesis using r(1) True e by (intro exI [of _ k]) (auto simp: load_next_nxt less_Suc_eq)
  next
    case False
    then show ?thesis using r(1) by (intro exI [of _ "Suc n"]) (auto simp: load_next_nxt)
  qed
qed simp

lemma search_ok:
  assumes wf: "sl_wf cmp valid sl st ns" and k: "valid key"
  shows "\<exists>t. search cmp sl st key = ret t \<and> found cmp sl st ns key t"
proof -
  let ?t = "traversal_new\<lparr>predecessors := replicate MAX_HEAD_HEIGHT (sl_head sl)\<rparr>"
  have m: "sl_max_level sl \<le> MAX_HEAD_HEIGHT" using wf by (simp add: sl_wf_def)
  obtain n where n: "n \<le> sl_max_level sl" "start_level st (sl_head sl) (sl_max_level sl) = Inr n"
    and e: "\<forall>l. n \<le> l \<and> l < sl_max_level sl \<longrightarrow> level_list st l ns = []"
    using start_level_ok [OF wf m] by auto
  have e': "level_list st l ns = []" if "n \<le> l" for l
  proof (cases "l < sl_max_level sl")
    case False
    then show ?thesis using wf by (force simp: level_list_def sl_wf_def filter_empty_conv)
  qed (use e that in auto)
  obtain t' where t': "search_levels cmp st key n (sl_head sl) ?t = ret t'" "searched_node t' = searched_node ?t"
    "\<forall>l < n. predecessors t' ! l = pred_at cmp st key (sl_head sl) (level_list st l ns) \<and>
             successors t' ! l = succ_at cmp st key (level_list st l ns)"
    "\<forall>l \<ge> n. predecessors t' ! l = predecessors ?t ! l \<and> successors t' ! l = successors ?t ! l"
    using search_levels_ok [OF wf k, of n ?t "sl_head sl"] n(1) m by (auto simp: traversal_new_def)
  have "found cmp sl st ns key t'"
  proof -
    have "predecessors t' ! l = pred_at cmp st key (sl_head sl) (level_list st l ns) \<and>
          successors t' ! l = succ_at cmp st key (level_list st l ns)" if "l < MAX_HEAD_HEIGHT" for l
      using t'(3,4) e' [of l] that
      by (cases "l < n") (auto simp: traversal_new_def pred_at_def succ_at_def)
    then show ?thesis using t'(2) by (simp add: found_def traversal_new_def)
  qed
  then show ?thesis using t'(1) n(2) by (simp add: search_def Let_def)
qed

end

end
