(* ===== verification/Transition_Systems.thy ===== *)
theory Transition_Systems
  imports Main
begin

text \<open>
  The contract of a system of interleaved threads: a step relation, its start states and a predicate that
  holds at the start and survives every step. The theories about interleavings interpret it on the step
  relations of the arena, the skip list, the write queue, a waiting writer and the hazard-pointer domain.
\<close>

locale invariant_system =
  fixes step :: "'s \<Rightarrow> 's \<Rightarrow> bool"
    and start :: "'s \<Rightarrow> bool"
    and inv :: "'s \<Rightarrow> bool"
  assumes start_inv: "start s \<Longrightarrow> inv s"
    and step_inv: "inv s \<Longrightarrow> step s s' \<Longrightarrow> inv s'"
begin

lemma inv_steps:
  assumes "step\<^sup>*\<^sup>* s s'" "inv s"
  shows "inv s'"
  using assms by (induction rule: rtranclp_induct) (auto intro: step_inv)

lemma reachable_inv: "step\<^sup>*\<^sup>* s s' \<Longrightarrow> start s \<Longrightarrow> inv s'"
  using inv_steps start_inv by blast

text \<open>A property that the invariant lets every step keep holds from any reachable state on.\<close>

lemma kept_along:
  assumes "step\<^sup>*\<^sup>* s s'" "inv s" "P s" "\<And>x y. inv x \<Longrightarrow> P x \<Longrightarrow> step x y \<Longrightarrow> P y"
  shows "P s'"
proof -
  have "inv s' \<and> P s'"
    using assms(1) by (induction rule: rtranclp_induct) (use assms(2-4) step_inv in blast)+
  then show ?thesis by blast
qed

end

text \<open>
  A system whose steps all reduce a rank: it has no infinite run, and every run can be extended to one that ends
  in a state without a step.
\<close>

locale terminating_system = invariant_system step start inv
  for step :: "'s \<Rightarrow> 's \<Rightarrow> bool" and start inv +
  fixes rank :: "'s \<Rightarrow> 'r :: wellorder"
  assumes step_rank: "inv s \<Longrightarrow> step s s' \<Longrightarrow> rank s' < rank s"
begin

lemma no_infinite_run:
  assumes "inv (f 0)"
  shows "\<exists>i. \<not> step (f i) (f (Suc i))"
proof (rule ccontr)
  assume "\<nexists>i. \<not> step (f i) (f (Suc i))"
  then have st: "step (f i) (f (Suc i))" for i by blast
  have "inv (f i)" for i by (induction i) (use assms step_inv st in blast)+
  then have "rank (f (Suc i)) < rank (f i)" for i using step_rank st by blast
  moreover obtain i where "\<forall>j. rank (f i) \<le> rank (f j)"
    using exists_least_iff [of "\<lambda>r. \<exists>i. rank (f i) = r"] by (metis not_le)
  ultimately show False by (meson leD)
qed

lemma runs_to_end:
  assumes "inv s"
  shows "\<exists>s'. step\<^sup>*\<^sup>* s s' \<and> inv s' \<and> (\<forall>y. \<not> step s' y)"
  using assms
proof (induction "rank s" arbitrary: s rule: less_induct)
  case less
  show ?case
  proof (cases "\<exists>y. step s y")
    case True
    then obtain y where "step s y" by blast
    then show ?thesis using less step_rank step_inv by (meson converse_rtranclp_into_rtranclp)
  qed (use less.prems in blast)
qed

end

text \<open>
  A system that implements an atomic one: each of its steps is a step of the atomic system or none at all. Every
  run then follows a run of the atomic system.
\<close>

locale simulation = invariant_system step start inv
  for step :: "'s \<Rightarrow> 's \<Rightarrow> bool" and start inv +
  fixes astep :: "'a \<Rightarrow> 'a \<Rightarrow> bool"
    and rel :: "'s \<Rightarrow> 'a \<Rightarrow> bool"
    and astart :: 'a
  assumes start_rel: "start s \<Longrightarrow> rel s astart"
    and step_rel: "inv s \<Longrightarrow> rel s a \<Longrightarrow> step s s' \<Longrightarrow> rel s' a \<or> (\<exists>a'. astep a a' \<and> rel s' a')"
begin

lemma steps_simulated:
  assumes "step\<^sup>*\<^sup>* s s'" "inv s" "rel s a"
  shows "\<exists>a'. astep\<^sup>*\<^sup>* a a' \<and> rel s' a'"
  using assms(1)
proof (induction rule: rtranclp_induct)
  case (step x y)
  then obtain b where b: "astep\<^sup>*\<^sup>* a b" "rel x b" by blast
  have "inv x" using inv_steps [OF step(1) assms(2)] .
  with step_rel [OF this b(2) step(2)] b(1) show ?case by (meson rtranclp.rtrancl_into_rtrancl)
qed (use assms(3) in blast)

lemma reachable_simulated: "step\<^sup>*\<^sup>* s s' \<Longrightarrow> start s \<Longrightarrow> \<exists>a. astep\<^sup>*\<^sup>* astart a \<and> rel s' a"
  using steps_simulated start_inv start_rel by blast

end

end
