(* ===== verification/Node_Memory.thy ===== *)
theory Node_Memory
  imports Skip_List_Correct Transition_Systems
begin

text \<open>
  Nodes in raw memory. \<^verbatim>\<open>memtable/skip_list.rs\<close> never holds a node as a value: a node is a header, a tower, a key and
  a value laid out one after the other behind an address, and every access computes an offset, reading the
  height and the key length from memory to do so. Here memory is a function from addresses to bytes and the
  accesses are written as the code computes them. The rest of the development works with a store of records;
  this theory shows that the store is what the memory holds. Bytes of a payload that have not been written are
  whatever the chunk held before, so the relation speaks of written bytes only.
\<close>

section \<open>Raw accesses\<close>

type_synonym mem = "nat \<Rightarrow> u8"

definition mem_read :: "mem \<Rightarrow> nat \<Rightarrow> nat \<Rightarrow> bytes" where
  "mem_read m a n = map m [a..<a + n]"

definition mem_write :: "mem \<Rightarrow> nat \<Rightarrow> bytes \<Rightarrow> mem" where
  "mem_write m a bs = (\<lambda>x. if a \<le> x \<and> x < a + length bs then bs ! (x - a) else m x)"

definition write_native :: "endian \<Rightarrow> nat \<Rightarrow> nat \<Rightarrow> bytes" where
  "write_native e n x = (case e of LittleEndian \<Rightarrow> le_bytes n x | BigEndian \<Rightarrow> be_bytes n x)"

text \<open>The fields of the \<^verbatim>\<open>repr(C)\<close> header: two 16-bit fields and a 32-bit one.\<close>

definition raw_height :: "endian \<Rightarrow> mem \<Rightarrow> nat \<Rightarrow> nat" where
  "raw_height e m a = read_native e (mem_read m a 2)"

definition raw_key_len :: "endian \<Rightarrow> mem \<Rightarrow> nat \<Rightarrow> nat" where
  "raw_key_len e m a = read_native e (mem_read m (a + 2) 2)"

definition raw_value_len :: "endian \<Rightarrow> mem \<Rightarrow> nat \<Rightarrow> nat" where
  "raw_value_len e m a = read_native e (mem_read m (a + 4) 4)"

definition raw_tower_ptr :: "nat \<Rightarrow> nat" where
  "raw_tower_ptr a = a + tower_ptr"

definition raw_slot :: "nat \<Rightarrow> nat \<Rightarrow> nat" where
  "raw_slot a index = raw_tower_ptr a + 8 * index"

definition raw_key_ptr :: "endian \<Rightarrow> mem \<Rightarrow> nat \<Rightarrow> nat" where
  "raw_key_ptr e m a = raw_tower_ptr a + raw_height e m a * 8"

definition raw_value_ptr :: "endian \<Rightarrow> mem \<Rightarrow> nat \<Rightarrow> nat" where
  "raw_value_ptr e m a = raw_key_ptr e m a + raw_key_len e m a"

definition raw_get_key_bytes :: "endian \<Rightarrow> mem \<Rightarrow> nat \<Rightarrow> bytes" where
  "raw_get_key_bytes e m a = mem_read m (raw_key_ptr e m a) (raw_key_len e m a)"

definition raw_get_value_bytes :: "endian \<Rightarrow> mem \<Rightarrow> nat \<Rightarrow> bytes" where
  "raw_get_value_bytes e m a = mem_read m (raw_value_ptr e m a) (raw_value_len e m a)"

definition raw_load_next :: "endian \<Rightarrow> mem \<Rightarrow> nat \<Rightarrow> nat \<Rightarrow> nat" where
  "raw_load_next e m a level = read_native e (mem_read m (raw_slot a level) 8)"

definition raw_store_next :: "endian \<Rightarrow> nat \<Rightarrow> nat \<Rightarrow> nat \<Rightarrow> mem \<Rightarrow> mem" where
  "raw_store_next e a level q m = mem_write m (raw_slot a level) (write_native e 8 q)"

definition raw_cas_next :: "endian \<Rightarrow> nat \<Rightarrow> nat \<Rightarrow> nat \<Rightarrow> nat \<Rightarrow> mem \<Rightarrow> bool \<times> mem" where
  "raw_cas_next e a level expected new m =
     (if raw_load_next e m a level = expected then (True, raw_store_next e a level new m) else (False, m))"

fun raw_null_tower :: "endian \<Rightarrow> nat \<Rightarrow> nat \<Rightarrow> mem \<Rightarrow> mem" where
  "raw_null_tower e a 0 m = m"
| "raw_null_tower e a (Suc n) m = raw_store_next e a n 0 (raw_null_tower e a n m)"

definition raw_init_node :: "endian \<Rightarrow> nat \<Rightarrow> nat \<Rightarrow> nat \<Rightarrow> nat \<Rightarrow> mem \<Rightarrow> mem" where
  "raw_init_node e a hgt klen vlen m = raw_null_tower e a hgt
     (mem_write m a (write_native e 2 hgt @ write_native e 2 klen @ write_native e 4 vlen))"

text \<open>\<^verbatim>\<open>Header::new\<close> makes a sentinel node of full height in memory it is given.\<close>

definition raw_header_new :: "endian \<Rightarrow> nat \<Rightarrow> mem \<Rightarrow> nat \<times> mem" where
  "raw_header_new e memory m = (memory, raw_init_node e memory MAX_HEAD_HEIGHT 0 0 m)"

definition raw_copy_key :: "endian \<Rightarrow> nat \<Rightarrow> nat \<Rightarrow> bytes \<Rightarrow> mem \<Rightarrow> mem" where
  "raw_copy_key e a off src m = mem_write m (raw_key_ptr e m a + off) src"

definition raw_copy_value :: "endian \<Rightarrow> nat \<Rightarrow> bytes \<Rightarrow> mem \<Rightarrow> mem" where
  "raw_copy_value e a src m = mem_write m (raw_value_ptr e m a) src"

definition raw_tower_height :: "endian \<Rightarrow> mem \<Rightarrow> nat \<Rightarrow> nat" where
  "raw_tower_height e m a = (raw_key_ptr e m a - raw_tower_ptr a) div 8"

section \<open>Reading back\<close>

lemma read_write_native: "x < 256 ^ n \<Longrightarrow> read_native e (write_native e n x) = x"
  by (cases e) (simp_all add: read_native_def write_native_def le_val_le_bytes be_val_be_bytes_id)

lemma length_write_native [simp]: "length (write_native e n x) = n"
  by (cases e) (simp_all add: write_native_def)

lemma length_mem_read [simp]: "length (mem_read m a n) = n"
  by (simp add: mem_read_def)

lemma mem_read_cong: "(\<And>x. a \<le> x \<Longrightarrow> x < a + n \<Longrightarrow> m' x = m x) \<Longrightarrow> mem_read m' a n = mem_read m a n"
  by (simp add: mem_read_def)

lemma mem_write_other: "x < a \<or> a + length bs \<le> x \<Longrightarrow> mem_write m a bs x = m x"
  by (auto simp: mem_write_def)

lemma mem_read_other: "b + n \<le> a \<or> a + length bs \<le> b \<Longrightarrow> mem_read (mem_write m a bs) b n = mem_read m b n"
  by (rule mem_read_cong) (auto simp: mem_write_def)

lemma mem_read_within:
  "off + n \<le> length bs \<Longrightarrow> mem_read (mem_write m a bs) (a + off) n = take n (drop off bs)"
  by (rule nth_equalityI) (auto simp: mem_read_def mem_write_def)

text \<open>A node's memory: header, tower, key and value.\<close>

definition node_bytes :: "node \<Rightarrow> nat" where
  "node_bytes n = 8 + 8 * height n + key_len n + value_len n"

text \<open>The memory at \<open>a\<close> holds node \<open>n\<close>, of whose payload the bytes in \<open>w\<close> have been written.\<close>

definition holds_node :: "endian \<Rightarrow> (ptr \<Rightarrow> nat) \<Rightarrow> mem \<Rightarrow> nat \<Rightarrow> node \<Rightarrow> nat set \<Rightarrow> bool" where
  "holds_node e addr m a n w \<longleftrightarrow> raw_height e m a = height n \<and> raw_key_len e m a = key_len n \<and> raw_value_len e m a = value_len n \<and>
     length (tower n) = height n \<and> length (payload n) = key_len n + value_len n \<and>
     (\<forall>i < height n. raw_load_next e m a i = addr (tower n ! i)) \<and>
     (\<forall>i \<in> w. i < length (payload n) \<longrightarrow> m (a + 8 + 8 * height n + i) = payload n ! i)"

lemma holds_node_cong:
  assumes "holds_node e addr m a n w" "\<And>x. a \<le> x \<Longrightarrow> x < a + node_bytes n \<Longrightarrow> m' x = m x"
  shows "holds_node e addr m' a n w"
proof -
  have r: "mem_read m' (a + b) k = mem_read m (a + b) k" if "b + k \<le> node_bytes n" for b k
    by (rule mem_read_cong) (use assms(2) that in auto)
  have "raw_load_next e m' a i = raw_load_next e m a i" if "i < height n" for i
  proof -
    have "8 + 8 * i + 8 \<le> node_bytes n" using that by (simp add: node_bytes_def)
    then show ?thesis using r [of "8 + 8 * i" 8] by (simp add: raw_load_next_def raw_slot_def raw_tower_ptr_def tower_ptr_def add.assoc)
  qed
  moreover have "m' (a + 8 + 8 * height n + i) = m (a + 8 + 8 * height n + i)" if "i < length (payload n)" for i
    using assms that by (intro assms(2)) (auto simp: node_bytes_def holds_node_def)
  ultimately show ?thesis
    using assms(1) r [of 0 2] r [of 2 2] r [of 4 4]
    by (simp add: holds_node_def raw_height_def raw_key_len_def raw_value_len_def node_bytes_def)
qed

section \<open>Each access on the node it is for\<close>

lemma slot_inside: "level < height n \<Longrightarrow> raw_slot a level + 8 \<le> a + 8 + 8 * height n"
  by (simp add: raw_slot_def raw_tower_ptr_def tower_ptr_def)

lemma holds_store:
  assumes h: "holds_node e addr m a n w" and l: "l < height n" and q: "addr q < 2 ^ 64"
  shows "holds_node e addr (raw_store_next e a l (addr q) m) a (n\<lparr>tower := (tower n)[l := q]\<rparr>) w"
proof -
  let ?m = "raw_store_next e a l (addr q) m"
  have o': "mem_read ?m b k = mem_read m b k" if "b + k \<le> raw_slot a l \<or> raw_slot a l + 8 \<le> b" for b k
    unfolding raw_store_next_def by (rule mem_read_other) (use that in simp)
  have hd: "raw_height e ?m a = raw_height e m a" "raw_key_len e ?m a = raw_key_len e m a" "raw_value_len e ?m a = raw_value_len e m a"
    using o' [of a 2] o' [of "a + 2" 2] o' [of "a + 4" 4]
    by (simp_all add: raw_height_def raw_key_len_def raw_value_len_def raw_slot_def raw_tower_ptr_def tower_ptr_def)
  have "raw_load_next e ?m a i = addr ((tower n)[l := q] ! i)" if "i < height n" for i
  proof (cases "i = l")
    case True
    have "mem_read ?m (raw_slot a l) 8 = write_native e 8 (addr q)"
      using mem_read_within [of 0 8 "write_native e 8 (addr q)" m "raw_slot a l"] by (simp add: raw_store_next_def)
    then show ?thesis using True l h q by (simp add: raw_load_next_def holds_node_def read_write_native)
  next
    case False
    then have "raw_slot a i + 8 \<le> raw_slot a l \<or> raw_slot a l + 8 \<le> raw_slot a i"
      by (cases "i < l") (auto simp: raw_slot_def)
    then show ?thesis using o' [of "raw_slot a i" 8] False h that by (simp add: raw_load_next_def holds_node_def)
  qed
  moreover have "?m (a + 8 + 8 * height n + i) = m (a + 8 + 8 * height n + i)" for i
    unfolding raw_store_next_def by (rule mem_write_other) (use slot_inside [OF l, of a] in simp)
  ultimately show ?thesis using h hd by (simp add: holds_node_def)
qed

lemma holds_key_ptr:
  assumes "holds_node e addr m a n w"
  shows "raw_key_ptr e m a = a + 8 + 8 * height n" "raw_value_ptr e m a = a + 8 + 8 * height n + key_len n"
  using assms by (simp_all add: holds_node_def raw_key_ptr_def raw_value_ptr_def raw_tower_ptr_def tower_ptr_def)

lemma holds_copy:
  assumes h: "holds_node e addr m a n w" and c: "copy_into (payload n) off src = Inr pl"
  shows "holds_node e addr (mem_write m (a + 8 + 8 * height n + off) src) a (n\<lparr>payload := pl\<rparr>) (w \<union> {off..<off + length src})"
proof -
  let ?m = "mem_write m (a + 8 + 8 * height n + off) src"
  have b: "off + length src \<le> length (payload n)" and pl: "pl = take off (payload n) @ src @ drop (off + length src) (payload n)"
    using c by (auto simp: copy_into_def split: if_splits)
  have o': "mem_read ?m (a + b) k = mem_read m (a + b) k" if "b + k \<le> 8 + 8 * height n" for b k
    by (rule mem_read_other) (use that in simp)
  have "raw_load_next e ?m a i = raw_load_next e m a i" if "i < height n" for i
    using o' [of "8 + 8 * i" 8] that by (simp add: raw_load_next_def raw_slot_def raw_tower_ptr_def tower_ptr_def add.assoc)
  moreover have "?m (a + 8 + 8 * height n + i) = pl ! i" if i: "i \<in> w \<union> {off..<off + length src}" "i < length pl" for i
  proof (cases "off \<le> i \<and> i < off + length src")
    case True
    then show ?thesis using b by (auto simp: mem_write_def pl nth_append)
  next
    case False
    then have "i \<in> w" "i < length (payload n)" using i b by (auto simp: pl)
    moreover have "pl ! i = payload n ! i" using False b by (auto simp: pl nth_append)
    ultimately show ?thesis using h False by (auto simp: holds_node_def mem_write_def)
  qed
  moreover have "length pl = length (payload n)" using b by (simp add: pl)
  ultimately show ?thesis
    using h o' [of 0 2] o' [of 2 2] o' [of 4 4]
    by (simp add: holds_node_def raw_height_def raw_key_len_def raw_value_len_def)
qed

lemma null_tower_frame:
  "x < raw_tower_ptr a \<or> raw_tower_ptr a + 8 * n \<le> x \<Longrightarrow> raw_null_tower e a n m x = m x"
  by (induction n) (auto simp: raw_store_next_def raw_slot_def intro!: mem_write_other [THEN trans])

lemma null_tower_loads: "i < n \<Longrightarrow> raw_load_next e (raw_null_tower e a n m) a i = 0"
proof (induction n)
  case (Suc n)
  show ?case
  proof (cases "i = n")
    case True
    have "mem_read (raw_null_tower e a (Suc n) m) (raw_slot a n) 8 = write_native e 8 0"
      using mem_read_within [of 0 8 "write_native e 8 0" _ "raw_slot a n"] by (simp add: raw_store_next_def)
    then show ?thesis using True by (simp add: raw_load_next_def read_write_native del: raw_null_tower.simps)
  next
    case False
    then have "mem_read (raw_null_tower e a (Suc n) m) (raw_slot a i) 8 = mem_read (raw_null_tower e a n m) (raw_slot a i) 8"
      using Suc.prems unfolding raw_null_tower.simps raw_store_next_def by (intro mem_read_other) (simp add: raw_slot_def)
    then show ?thesis using Suc False by (simp add: raw_load_next_def)
  qed
qed simp

lemma holds_init:
  assumes "hgt < 2 ^ 16" "klen < 2 ^ 16" "vlen < 2 ^ 32" "addr Null = 0"
  shows "holds_node e addr (raw_init_node e a hgt klen vlen m) a (init_node hgt klen vlen) {}"
proof -
  let ?h = "write_native e 2 hgt @ write_native e 2 klen @ write_native e 4 vlen"
  have r: "mem_read (raw_init_node e a hgt klen vlen m) (a + b) k = take k (drop b ?h)" if "b + k \<le> 8" for b k
  proof -
    have "mem_read (raw_init_node e a hgt klen vlen m) (a + b) k = mem_read (mem_write m a ?h) (a + b) k"
      unfolding raw_init_node_def by (rule mem_read_cong, rule null_tower_frame) (use that in \<open>auto simp: raw_tower_ptr_def tower_ptr_def\<close>)
    also have "\<dots> = take k (drop b ?h)" using that by (intro mem_read_within) simp
    finally show ?thesis .
  qed
  show ?thesis using r [of 0 2] r [of 2 2] r [of 4 4] assms null_tower_loads
    by (simp add: holds_node_def init_node_def raw_height_def raw_key_len_def raw_value_len_def read_write_native raw_init_node_def)
qed

lemma holds_header:
  assumes "addr Null = 0" "raw_header_new e a m = (sentinel, m')"
  shows "sentinel = a \<and> holds_node e addr m' sentinel (init_node MAX_HEAD_HEIGHT 0 0) {}"
  using assms holds_init [of MAX_HEAD_HEIGHT 0 0 addr e a m] by (auto simp: raw_header_new_def MAX_HEAD_HEIGHT_def)

text \<open>No access leaves the memory of its node.\<close>

lemma store_frame:
  "level < height n \<Longrightarrow> x < a \<or> a + node_bytes n \<le> x \<Longrightarrow> raw_store_next e a level q m x = m x"
  unfolding raw_store_next_def by (rule mem_write_other) (auto simp: raw_slot_def raw_tower_ptr_def tower_ptr_def node_bytes_def)

lemma init_frame:
  "x < a \<or> a + node_bytes (init_node hgt klen vlen) \<le> x \<Longrightarrow> raw_init_node e a hgt klen vlen m x = m x"
  unfolding raw_init_node_def
  by (subst null_tower_frame) (auto simp: raw_tower_ptr_def tower_ptr_def node_bytes_def init_node_def intro!: mem_write_other)

lemma copy_frame:
  assumes "copy_into (payload n) off src = Inr pl" "length (payload n) = key_len n + value_len n" "x < a \<or> a + node_bytes n \<le> x"
  shows "mem_write m (a + 8 + 8 * height n + off) src x = m x"
  by (rule mem_write_other) (use assms in \<open>auto simp: copy_into_def node_bytes_def split: if_splits\<close>)

section \<open>The store and the memory side by side\<close>

text \<open>
  One access at a time, on both sides: the node's record in the store \<open>st\<close> and the bytes in memory \<open>m\<close>. \<open>W p\<close>
  is the part of the payload of \<open>p\<close> that has been written. A new node lies in memory no other node uses, which
  is what the arena promises (\<open>Arena\<close>), and a pointer that is stored is null or points to a node.
\<close>

type_synonym image = "nodes \<times> (ptr \<Rightarrow> nat set) \<times> mem"

definition node_ptr_ok :: "nodes \<Rightarrow> ptr \<Rightarrow> bool" where
  "node_ptr_ok st q \<longleftrightarrow> q = Null \<or> st q \<noteq> None"

definition apart :: "(ptr \<Rightarrow> nat) \<Rightarrow> ptr \<Rightarrow> nat \<Rightarrow> ptr \<Rightarrow> nat \<Rightarrow> bool" where
  "apart addr p k q l \<longleftrightarrow> addr p + k \<le> addr q \<or> addr q + l \<le> addr p"

inductive node_access :: "endian \<Rightarrow> (ptr \<Rightarrow> nat) \<Rightarrow> image \<Rightarrow> image \<Rightarrow> bool" for e addr where
  step_store: "store_next st p level q = Inr st' \<Longrightarrow> node_ptr_ok st q \<Longrightarrow>
    node_access e addr (st, W, m) (st', W, raw_store_next e (addr p) level (addr q) m)"
| step_cas: "cas_next st p level expected new = Inr (b, st') \<Longrightarrow> node_ptr_ok st expected \<Longrightarrow> node_ptr_ok st new \<Longrightarrow>
    raw_cas_next e (addr p) level (addr expected) (addr new) m = (b', m') \<Longrightarrow>
    node_access e addr (st, W, m) (st', W, m')"
| step_key: "write_payload st p off src = Inr st' \<Longrightarrow>
    node_access e addr (st, W, m) (st', W(p := W p \<union> {off..<off + length src}), raw_copy_key e (addr p) off src m)"
| step_value: "st p = Some n \<Longrightarrow> write_value st p src = Inr st' \<Longrightarrow>
    node_access e addr (st, W, m)
      (st', W(p := W p \<union> {key_len n..<key_len n + length src}), raw_copy_value e (addr p) src m)"

inductive node_step :: "endian \<Rightarrow> (ptr \<Rightarrow> nat) \<Rightarrow> image \<Rightarrow> image \<Rightarrow> bool" for e addr where
  step_alloc: "p \<noteq> Null \<Longrightarrow> st p = None \<Longrightarrow> 0 < addr p \<Longrightarrow> addr p < 2 ^ 64 \<Longrightarrow>
    hgt < u16_limit \<Longrightarrow> klen < u16_limit \<Longrightarrow> vlen < u32_limit \<Longrightarrow>
    (\<And>q n. st q = Some n \<Longrightarrow> apart addr p (node_bytes (init_node hgt klen vlen)) q (node_bytes n)) \<Longrightarrow>
    node_step e addr (st, W, m) (st(p \<mapsto> init_node hgt klen vlen), W(p := {}), raw_init_node e (addr p) hgt klen vlen m)"
| step_access: "node_access e addr s s' \<Longrightarrow> node_step e addr s s'"

fun node_inv :: "endian \<Rightarrow> (ptr \<Rightarrow> nat) \<Rightarrow> image \<Rightarrow> bool" where
  "node_inv e addr (st, W, m) \<longleftrightarrow> addr Null = 0 \<and> st Null = None \<and>
     (\<forall>p n. st p = Some n \<longrightarrow> 0 < addr p \<and> addr p < 2 ^ 64 \<and> holds_node e addr m (addr p) n (W p) \<and>
        (\<forall>q \<in> set (tower n). node_ptr_ok st q)) \<and>
     (\<forall>p n q k. st p = Some n \<longrightarrow> st q = Some k \<longrightarrow> p \<noteq> q \<longrightarrow> apart addr p (node_bytes n) q (node_bytes k))"

lemma node_invD:
  assumes "node_inv e addr (st, W, m)"
  shows "addr Null = 0" "st Null = None" "st p = Some n \<Longrightarrow> 0 < addr p" "st p = Some n \<Longrightarrow> addr p < 2 ^ 64"
    "st p = Some n \<Longrightarrow> holds_node e addr m (addr p) n (W p)"
    "st p = Some n \<Longrightarrow> q \<in> set (tower n) \<Longrightarrow> node_ptr_ok st q"
    "st p = Some n \<Longrightarrow> st q = Some k \<Longrightarrow> p \<noteq> q \<Longrightarrow> apart addr p (node_bytes n) q (node_bytes k)"
  using assms by auto

text \<open>Addresses tell nodes apart, so comparing addresses is comparing pointers.\<close>

lemma addr_eq_iff:
  assumes i: "node_inv e addr (st, W, m)" and p: "node_ptr_ok st p" and q: "node_ptr_ok st q"
  shows "addr p = addr q \<longleftrightarrow> p = q"
proof -
  have nz: "0 < addr r" if "node_ptr_ok st r" "r \<noteq> Null" for r
    using that node_invD(3) [OF i] by (auto simp: node_ptr_ok_def)
  have "addr p \<noteq> addr q" if ne: "p \<noteq> q"
  proof (cases "p = Null \<or> q = Null")
    case True
    then show ?thesis using ne nz p q node_invD(1) [OF i] by fastforce
  next
    case False
    then obtain n k where "st p = Some n" "st q = Some k" using p q by (auto simp: node_ptr_ok_def)
    then have "apart addr p (node_bytes n) q (node_bytes k)" using node_invD(7) [OF i] ne by blast
    then show ?thesis by (auto simp: apart_def node_bytes_def)
  qed
  then show ?thesis by blast
qed

lemma addr_bound: "node_inv e addr (st, W, m) \<Longrightarrow> node_ptr_ok st q \<Longrightarrow> addr q < 2 ^ 64"
  using node_invD(1,4) by (fastforce simp: node_ptr_ok_def)

text \<open>
  The step shared by all accesses: one node changes, its memory changes with it, and nothing outside the memory
  of that node does.
\<close>

lemma node_inv_update:
  assumes i: "node_inv e addr (st, W, m)" and p: "p \<noteq> Null" "0 < addr p" "addr p < 2 ^ 64"
    and h: "holds_node e addr m' (addr p) n w"
    and t: "\<And>q. q \<in> set (tower n) \<Longrightarrow> node_ptr_ok (st(p \<mapsto> n)) q"
    and ap: "\<And>q k. st q = Some k \<Longrightarrow> q \<noteq> p \<Longrightarrow> apart addr p (node_bytes n) q (node_bytes k)"
    and fr: "\<And>x. x < addr p \<or> addr p + node_bytes n \<le> x \<Longrightarrow> m' x = m x"
  shows "node_inv e addr (st(p \<mapsto> n), W(p := w), m')"
proof -
  have other: "holds_node e addr m' (addr q) k (W q)" if "st q = Some k" "q \<noteq> p" for q k
  proof (rule holds_node_cong)
    show "holds_node e addr m (addr q) k (W q)" using node_invD(5) [OF i that(1)] .
    show "m' x = m x" if "addr q \<le> x" "x < addr q + node_bytes k" for x
      using ap [OF \<open>st q = Some k\<close> \<open>q \<noteq> p\<close>] that by (intro fr) (auto simp: apart_def)
  qed
  have ok: "node_ptr_ok (st(p \<mapsto> n)) q" if "node_ptr_ok st q" for q
    using that by (auto simp: node_ptr_ok_def)
  have sym: "apart addr q l p j" if "apart addr p j q l" for q l j
    using that by (auto simp: apart_def)
  show ?thesis
    unfolding node_inv.simps
  proof (intro conjI allI impI)
    show "addr Null = 0" "(st(p \<mapsto> n)) Null = None" using node_invD(1,2) [OF i] p by auto
  next
    fix q k assume "(st(p \<mapsto> n)) q = Some k"
    then show "0 < addr q" "addr q < 2 ^ 64" "holds_node e addr m' (addr q) k ((W(p := w)) q)"
      "\<forall>r \<in> set (tower k). node_ptr_ok (st(p \<mapsto> n)) r"
      using p h other t ok node_invD(3,4,6) [OF i] by (auto split: if_splits)
  next
    fix q k r j assume "(st(p \<mapsto> n)) q = Some k" "(st(p \<mapsto> n)) r = Some j" "q \<noteq> r"
    then show "apart addr q (node_bytes k) r (node_bytes j)"
      using ap sym node_invD(7) [OF i] by (auto split: if_splits)
  qed
qed

text \<open>The same for a node that already exists and keeps its lengths.\<close>

lemma node_inv_change:
  assumes i: "node_inv e addr (st, W, m)" and n: "st p = Some n" and sz: "node_bytes n' = node_bytes n"
    and h: "holds_node e addr m' (addr p) n' w"
    and t: "\<And>q. q \<in> set (tower n') \<Longrightarrow> node_ptr_ok st q"
    and fr: "\<And>x. x < addr p \<or> addr p + node_bytes n \<le> x \<Longrightarrow> m' x = m x"
  shows "node_inv e addr (st(p \<mapsto> n'), W(p := w), m')"
proof (rule node_inv_update [OF i _ _ _ h])
  show "p \<noteq> Null" using n node_invD(2) [OF i] by auto
  show "0 < addr p" "addr p < 2 ^ 64" using node_invD(3,4) [OF i n] by auto
  show "node_ptr_ok (st(p \<mapsto> n')) q" if "q \<in> set (tower n')" for q
    using t [OF that] by (auto simp: node_ptr_ok_def)
  show "apart addr p (node_bytes n') q (node_bytes k)" if "st q = Some k" "q \<noteq> p" for q k
    using node_invD(7) [OF i n that(1)] that(2) sz by auto
  show "m' x = m x" if "x < addr p \<or> addr p + node_bytes n' \<le> x" for x using fr that sz by simp
qed

lemma node_inv_store:
  assumes i: "node_inv e addr (st, W, m)" and s: "store_next st p l q = Inr st'" and q: "node_ptr_ok st q"
  shows "node_inv e addr (st', W, raw_store_next e (addr p) l (addr q) m)"
proof -
  obtain n where n: "st p = Some n" "l < length (tower n)" and st': "st' = st(p \<mapsto> n\<lparr>tower := (tower n)[l := q]\<rparr>)"
    using s by (auto simp: store_next_def split: option.splits if_splits)
  have hn: "holds_node e addr m (addr p) n (W p)" using node_invD(5) [OF i n(1)] .
  then have l: "l < height n" using n(2) by (simp add: holds_node_def)
  have "node_inv e addr (st(p \<mapsto> n\<lparr>tower := (tower n)[l := q]\<rparr>), W(p := W p), raw_store_next e (addr p) l (addr q) m)"
  proof (rule node_inv_change [OF i n(1)])
    show "node_bytes (n\<lparr>tower := (tower n)[l := q]\<rparr>) = node_bytes n" by (simp add: node_bytes_def)
    show "holds_node e addr (raw_store_next e (addr p) l (addr q) m) (addr p) (n\<lparr>tower := (tower n)[l := q]\<rparr>) (W p)"
      by (rule holds_store [OF hn l addr_bound [OF i q]])
    show "node_ptr_ok st r" if "r \<in> set (tower (n\<lparr>tower := (tower n)[l := q]\<rparr>))" for r
      using that q node_invD(6) [OF i n(1)] set_update_subset_insert [of "tower n" l q] by auto
    show "raw_store_next e (addr p) l (addr q) m x = m x" if "x < addr p \<or> addr p + node_bytes n \<le> x" for x
      by (rule store_frame [OF l that])
  qed
  then show ?thesis by (simp add: st')
qed

text \<open>What a load, and with it a compare-and-swap, sees.\<close>

lemma raw_load_eq:
  assumes i: "node_inv e addr (st, W, m)" and r: "load_next st p l = Inr q"
  shows "raw_load_next e m (addr p) l = addr q" "node_ptr_ok st q"
proof -
  obtain n where n: "st p = Some n" "l < length (tower n)" and q: "q = tower n ! l"
    using r by (auto simp: load_next_def split: option.splits if_splits)
  then show "raw_load_next e m (addr p) l = addr q" using node_invD(5) [OF i n(1)] by (simp add: holds_node_def)
  show "node_ptr_ok st q" using node_invD(6) [OF i n(1)] n(2) q by simp
qed

lemma raw_cas_eq:
  assumes i: "node_inv e addr (st, W, m)" and c: "cas_next st p l x y = Inr (b, st')"
    and x: "node_ptr_ok st x" and y: "node_ptr_ok st y"
    and r: "raw_cas_next e (addr p) l (addr x) (addr y) m = (b', m')"
  shows "b' = b" "node_inv e addr (st', W, m')"
proof -
  obtain q where q: "load_next st p l = Inr q" using c by (cases "load_next st p l") (auto simp: cas_next_def)
  note ld = raw_load_eq [OF i q]
  have eq: "raw_load_next e m (addr p) l = addr x \<longleftrightarrow> q = x" using ld addr_eq_iff [OF i ld(2) x] by simp
  show "b' = b"
    using c r q eq by (cases "store_next st p l y") (auto simp: cas_next_def raw_cas_next_def split: if_splits)
  show "node_inv e addr (st', W, m')"
  proof (cases "q = x")
    case True
    then have "store_next st p l y = Inr st'" using c q by (cases "store_next st p l y") (auto simp: cas_next_def)
    then show ?thesis using node_inv_store [OF i _ y] r eq True by (auto simp: raw_cas_next_def)
  qed (use c q r eq i in \<open>auto simp: cas_next_def raw_cas_next_def\<close>)
qed

lemma node_inv_copy:
  assumes i: "node_inv e addr (st, W, m)" and n: "st p = Some n" and s: "write_payload st p off src = Inr st'"
  shows "node_inv e addr (st', W(p := W p \<union> {off..<off + length src}), mem_write m (addr p + 8 + 8 * height n + off) src)"
proof -
  have hn: "holds_node e addr m (addr p) n (W p)" using node_invD(5) [OF i n] .
  then have ln: "length (payload n) = key_len n + value_len n" by (simp add: holds_node_def)
  obtain pl where c: "copy_into (payload n) off src = Inr pl" and st': "st' = st(p \<mapsto> n\<lparr>payload := pl\<rparr>)"
    using s n by (cases "copy_into (payload n) off src") (auto simp: write_payload_def)
  show ?thesis unfolding st'
  proof (rule node_inv_change [OF i n])
    show "node_bytes (n\<lparr>payload := pl\<rparr>) = node_bytes n" by (simp add: node_bytes_def)
  qed (use holds_copy [OF hn c] copy_frame [OF c ln] node_invD(6) [OF i n] in auto)
qed

lemma node_inv_access:
  assumes i: "node_inv e addr s" and s: "node_access e addr s s'"
  shows "node_inv e addr s'"
  using s
proof cases
  case step_store
  then show ?thesis using i node_inv_store by blast
next
  case step_cas
  then show ?thesis using i raw_cas_eq(2) by blast
next
  case (step_key st p off src st' W m)
  note i' = i [unfolded step_key(1)]
  obtain n where n: "st p = Some n" using step_key by (auto simp: write_payload_def split: option.splits)
  show ?thesis
    using node_inv_copy [OF i' n step_key(3)] holds_key_ptr(1) [OF node_invD(5) [OF i' n]]
    by (simp add: step_key(2) raw_copy_key_def)
next
  case (step_value st p n src st' W m)
  note i' = i [unfolded step_value(1)]
  have "write_payload st p (key_len n) src = Inr st'" using step_value by (simp add: write_value_def)
  from node_inv_copy [OF i' step_value(3) this] holds_key_ptr(2) [OF node_invD(5) [OF i' step_value(3)]]
  show ?thesis by (simp add: step_value(2) raw_copy_value_def)
qed

lemma node_inv_step:
  assumes i: "node_inv e addr s" and s: "node_step e addr s s'"
  shows "node_inv e addr s'"
  using s
proof cases
  case (step_alloc p st hgt klen vlen W m)
  note i' = i [unfolded step_alloc(1)]
  show ?thesis unfolding step_alloc(2)
  proof (rule node_inv_update [OF i'])
    show "holds_node e addr (raw_init_node e (addr p) hgt klen vlen m) (addr p) (init_node hgt klen vlen) {}"
      using step_alloc node_invD(1) [OF i'] by (intro holds_init) auto
    show "node_ptr_ok (st(p \<mapsto> init_node hgt klen vlen)) q" if "q \<in> set (tower (init_node hgt klen vlen))" for q
      using that by (simp add: init_node_def node_ptr_ok_def)
  qed (use step_alloc init_frame in auto)
qed (use i node_inv_access in blast)

text \<open>An access keeps the lengths of every node, and bytes once written stay written.\<close>

definition shape :: "nodes \<Rightarrow> ptr \<Rightarrow> (nat \<times> nat \<times> nat) option" where
  "shape st p = map_option (\<lambda>n. (height n, key_len n, value_len n)) (st p)"

lemma shape_upd: "st p = Some n \<Longrightarrow> height n' = height n \<Longrightarrow> key_len n' = key_len n \<Longrightarrow> value_len n' = value_len n \<Longrightarrow>
    shape (st(p \<mapsto> n')) = shape st"
  by (auto simp: shape_def fun_eq_iff)

lemma shape_store: "store_next st p l q = Inr st' \<Longrightarrow> shape st' = shape st"
  by (auto simp: store_next_def shape_upd split: option.splits if_splits)

lemma shape_cas: "cas_next st p l x y = Inr (b, st') \<Longrightarrow> shape st' = shape st"
  by (auto simp: cas_next_def rbind_eq_Inr_iff shape_store split: if_splits)

lemma shape_payload: "write_payload st p off src = Inr st' \<Longrightarrow> shape st' = shape st"
  by (auto simp: write_payload_def rbind_eq_Inr_iff shape_upd split: option.splits)

lemma access_keeps:
  assumes "node_access e addr (st, W, m) (st', W', m')"
  shows "shape st' = shape st" "W q \<subseteq> W' q"
  using assms by (cases; auto simp: shape_store shape_cas shape_payload write_value_def)+

lemma shape_ptr_ok: "shape st' = shape st \<Longrightarrow> node_ptr_ok st' q = node_ptr_ok st q"
  by (auto simp: shape_def node_ptr_ok_def fun_eq_iff dest: spec [of _ q])

definition empty_image :: "(ptr \<Rightarrow> nat) \<Rightarrow> image \<Rightarrow> bool" where
  "empty_image addr i \<longleftrightarrow> addr Null = 0 \<and> fst i = Map.empty"

interpretation nodemem: invariant_system "node_step e addr" "empty_image addr" "node_inv e addr" for e addr
proof unfold_locales
  show "node_inv e addr s" if "empty_image addr s" for s using that by (cases s) (simp add: empty_image_def)
qed (rule node_inv_step)

section \<open>The memory holds the store\<close>

lemma holds_key_bytes:
  assumes h: "holds_node e addr m a n w" and w: "{0..<key_len n} \<subseteq> w"
  shows "raw_get_key_bytes e m a = get_key_bytes n"
proof (rule nth_equalityI)
  show "length (raw_get_key_bytes e m a) = length (get_key_bytes n)"
    using h by (simp add: raw_get_key_bytes_def get_key_bytes_def holds_node_def)
  fix i assume "i < length (raw_get_key_bytes e m a)"
  then have "i < key_len n" using h by (simp add: raw_get_key_bytes_def holds_node_def)
  then show "raw_get_key_bytes e m a ! i = get_key_bytes n ! i"
    using h w holds_key_ptr(1) [OF h] by (auto simp: raw_get_key_bytes_def get_key_bytes_def mem_read_def holds_node_def)
qed

lemma holds_value_bytes:
  assumes h: "holds_node e addr m a n w" and w: "{key_len n..<key_len n + value_len n} \<subseteq> w"
  shows "raw_get_value_bytes e m a = get_value_bytes n"
proof (rule nth_equalityI)
  show "length (raw_get_value_bytes e m a) = length (get_value_bytes n)"
    using h by (simp add: raw_get_value_bytes_def get_value_bytes_def holds_node_def)
  fix i assume "i < length (raw_get_value_bytes e m a)"
  then have i: "i < value_len n" using h by (simp add: raw_get_value_bytes_def holds_node_def)
  then have "key_len n + i \<in> w" using w by auto
  then show "raw_get_value_bytes e m a ! i = get_value_bytes n ! i"
    using h i holds_key_ptr(2) [OF h]
    by (auto simp: raw_get_value_bytes_def get_value_bytes_def mem_read_def holds_node_def add.assoc)
qed

end
