(* ===== verification/Skip_List_Insert.thy ===== *)
theory Skip_List_Insert
  imports Skip_List_Correct
begin

text \<open>
  Insertion into the skip list. Linking a fresh node at one level splices it between the nodes the
  search found; doing so at every level of its tower gives a well-formed list again; the entries
  are those before with the new one put before the first entry not below its key. Both insertions
  of the code, \<^verbatim>\<open>insert\<close> and \<^verbatim>\<open>insert_with\<close>, are shown to do this for every comparator that
  meets the contract, and to return for every well-formed list.
\<close>

section \<open>Linking one level\<close>

lemma same_nodes_lt: "same_nodes st st' \<Longrightarrow> lt cmp st' key = lt cmp st key"
  by (simp add: same_nodes_def lt_def fun_eq_iff)

lemma same_nodes_insert_at: "same_nodes st st' \<Longrightarrow> insert_at cmp st' key p xs = insert_at cmp st key p xs"
  by (simp add: insert_at_def same_nodes_lt)

lemma same_nodes_pos:
  "same_nodes st st' \<Longrightarrow> pred_at cmp st' key h0 xs = pred_at cmp st key h0 xs"
  "same_nodes st st' \<Longrightarrow> succ_at cmp st' key xs = succ_at cmp st key xs"
  by (simp_all add: pred_at_def succ_at_def same_nodes_lt)

text \<open>The new node's own slot: written only when there is a successor, null before.\<close>

lemma own_slot:
  assumes "nxt st l p = Some Null"
  obtains st1 where "(if q \<noteq> Null then store_next st p l q else Inr st) = Inr st1"
    "nxt st1 = (nxt st)(l := (nxt st l)(p \<mapsto> q))" "same_nodes st st1"
proof (cases "q = Null")
  case True
  then show thesis using that [of st] assms by (simp add: fun_upd_idem)
next
  case False
  have "l < node_height st p" using assms nxt_height by blast
  then show thesis using that False by (elim store_next_view [of l st p q]) auto
qed

lemma try_link_ok:
  assumes lk: "linked st h0 l xs" and d: "distinct (h0 # xs)" "p \<notin> set (h0 # xs)" "p \<noteq> Null"
    and p: "nxt st l p = Some Null"
    and t: "predecessors t ! l = pred_at cmp st key h0 xs" "successors t ! l = succ_at cmp st key xs"
  shows "\<exists>st'. try_link st t p l = Inr (True, st') \<and> same_nodes st st' \<and>
    linked st' h0 l (insert_at cmp st key p xs) \<and> (\<forall>l'. l' \<noteq> l \<longrightarrow> nxt st' l' = nxt st l')"
proof -
  let ?A = "takeWhile (lt cmp st key) xs" and ?B = "dropWhile (lt cmp st key) xs"
  let ?q = "succ_at cmp st key xs" and ?r = "pred_at cmp st key h0 xs"
  have q: "?q = hd0 ?B" and r: "?r = last (h0 # ?A)" by (simp_all add: succ_at_def pred_at_def)
  obtain st1 where s1: "(if ?q \<noteq> Null then store_next st p l ?q else Inr st) = Inr st1"
    "nxt st1 = (nxt st)(l := (nxt st l)(p \<mapsto> ?q))" "same_nodes st st1"
    using p by (rule own_slot)
  have "path (nxt st l) h0 (h0 # xs) Null" using lk by (simp add: linked_def)
  then have "path (nxt st1 l) h0 ((h0 # ?A) @ ?B) Null"
    using d(2) by (auto simp: s1(2) path_upd)
  from path_insert [OF this, of p] have pi:
    "path ((nxt st1 l)(?r \<mapsto> p)) h0 ((h0 # ?A) @ p # ?B) Null" "nxt st1 l ?r = Some ?q"
    using d by (auto simp: s1(2) q r simp del: last.simps)
  have "l < node_height st1 ?r" using pi(2) nxt_height by blast
  then obtain st2 where s2: "store_next st1 ?r l p = Inr st2"
    "nxt st2 = (nxt st1)(l := (nxt st1 l)(?r \<mapsto> p))" "same_nodes st1 st2"
    by (rule store_next_view)
  have "try_link st t p l = Inr (True, st2)"
    using s1(1) s2(1) pi(2) by (simp add: try_link_def t Let_def cas_next_def load_next_nxt)
  moreover have "linked st2 h0 l (insert_at cmp st key p xs)"
    using pi(1) by (simp add: linked_def s2(2) insert_at_def)
  ultimately show ?thesis
    using same_nodes_trans [OF s1(3) s2(3)] s1(2) s2(2) by (intro exI [of _ st2]) auto
qed

section \<open>Linking all levels\<close>

definition linkable :: "nodes \<Rightarrow> ptr \<Rightarrow> ptr \<Rightarrow> (nat \<Rightarrow> ptr list) \<Rightarrow> nat list \<Rightarrow> bool" where
  "linkable st h0 p L ls \<longleftrightarrow> p \<noteq> Null \<and> (\<forall>l \<in> set ls. linked st h0 l (L l) \<and> distinct (h0 # L l) \<and>
     p \<notin> set (h0 # L l) \<and> nxt st l p = Some Null)"

definition positions :: "compare \<Rightarrow> nodes \<Rightarrow> bytes \<Rightarrow> ptr \<Rightarrow> (nat \<Rightarrow> ptr list) \<Rightarrow> nat list \<Rightarrow> traversal_ctx \<Rightarrow> bool" where
  "positions cmp st key h0 L ls t \<longleftrightarrow> (\<forall>l \<in> set ls. predecessors t ! l = pred_at cmp st key h0 (L l) \<and>
     successors t ! l = succ_at cmp st key (L l))"

lemma linkable_cong:
  assumes "linkable st h0 p L ls" "\<forall>l \<in> set ls. nxt st' l = nxt st l"
  shows "linkable st' h0 p L ls"
  using assms by (auto simp: linkable_def linked_def)

lemma positions_cong:
  "same_nodes st st' \<Longrightarrow> positions cmp st' key h0 L ls t \<longleftrightarrow> positions cmp st key h0 L ls t"
  by (simp add: positions_def same_nodes_pos)

lemma try_link_linkable:
  assumes "linkable st h0 p L ls" "positions cmp st key h0 L ls t" "l \<in> set ls"
  shows "\<exists>st'. try_link st t p l = Inr (True, st') \<and> same_nodes st st' \<and>
    linked st' h0 l (insert_at cmp st key p (L l)) \<and> (\<forall>l'. l' \<noteq> l \<longrightarrow> nxt st' l' = nxt st l')"
  using assms by (intro try_link_ok) (auto simp: linkable_def positions_def)

lemma link_levels_ok:
  assumes "distinct ls" "linkable st h0 p L ls" "positions cmp st key h0 L ls t"
  shows "\<exists>st'. link_levels cmp sl key p ls st t = ret st' \<and> same_nodes st st' \<and>
    (\<forall>l \<in> set ls. linked st' h0 l (insert_at cmp st key p (L l))) \<and> (\<forall>l. l \<notin> set ls \<longrightarrow> nxt st' l = nxt st l)"
  using assms
proof (induction ls arbitrary: st)
  case (Cons l ls)
  obtain st1 where s1: "try_link st t p l = Inr (True, st1)" "same_nodes st st1"
    "linked st1 h0 l (insert_at cmp st key p (L l))" "\<forall>l'. l' \<noteq> l \<longrightarrow> nxt st1 l' = nxt st l'"
    using try_link_linkable [OF Cons.prems(2,3), of l] by auto
  have "linkable st h0 p L ls" using Cons.prems(2) by (simp add: linkable_def)
  then have "linkable st1 h0 p L ls"
    by (rule linkable_cong) (use s1(4) Cons.prems(1) in auto)
  moreover have "positions cmp st1 key h0 L ls t"
    using Cons.prems(3) unfolding positions_cong [OF s1(2)] by (simp add: positions_def)
  ultimately obtain st2 where s2: "link_levels cmp sl key p ls st1 t = ret st2" "same_nodes st1 st2"
    "\<forall>l \<in> set ls. linked st2 h0 l (insert_at cmp st1 key p (L l))" "\<forall>l. l \<notin> set ls \<longrightarrow> nxt st2 l = nxt st1 l"
    using Cons.IH [of st1] Cons.prems(1) by auto
  have "link_level cmp sl key p l st t = ret (t, st1)"
    by (subst link_level.simps) (simp add: s1(1))
  moreover have "linked st2 h0 l (insert_at cmp st key p (L l))"
    using s1(3) s2(4) Cons.prems(1) by (simp add: linked_def)
  ultimately show ?case
    using s1(4) s2 same_nodes_trans [OF s1(2) s2(2)] Cons.prems(1)
    by (intro exI [of _ st2]) (auto simp: same_nodes_insert_at [OF s1(2)])
qed simp

lemma link_node_ok:
  assumes "1 \<le> hgt" "linkable (h_nodes h) h0 p L [0..<hgt]" "positions cmp (h_nodes h) key h0 L [0..<hgt] t"
  shows "\<exists>st'. link_node cmp sl key p hgt h t = ret (p, h\<lparr>h_nodes := st'\<rparr>) \<and> same_nodes (h_nodes h) st' \<and>
    (\<forall>l < hgt. linked st' h0 l (insert_at cmp (h_nodes h) key p (L l))) \<and>
    (\<forall>l \<ge> hgt. nxt st' l = nxt (h_nodes h) l)"
proof -
  obtain st1 where s1: "try_link (h_nodes h) t p 0 = Inr (True, st1)" "same_nodes (h_nodes h) st1"
    "linked st1 h0 0 (insert_at cmp (h_nodes h) key p (L 0))" "\<forall>l'. l' \<noteq> 0 \<longrightarrow> nxt st1 l' = nxt (h_nodes h) l'"
    using try_link_linkable [OF assms(2,3), of 0] assms(1) by auto
  have "linkable (h_nodes h) h0 p L [1..<hgt]" using assms(2) by (auto simp: linkable_def)
  then have "linkable st1 h0 p L [1..<hgt]" by (rule linkable_cong) (use s1(4) in auto)
  moreover have "positions cmp st1 key h0 L [1..<hgt] t"
    using assms(3) unfolding positions_cong [OF s1(2)] by (auto simp: positions_def)
  ultimately obtain st2 where s2: "link_levels cmp sl key p [1..<hgt] st1 t = ret st2" "same_nodes st1 st2"
    "\<forall>l \<in> set [1..<hgt]. linked st2 h0 l (insert_at cmp st1 key p (L l))"
    "\<forall>l. l \<notin> set [1..<hgt] \<longrightarrow> nxt st2 l = nxt st1 l"
    using link_levels_ok [of "[1..<hgt]" st1 h0 p L cmp key t sl] by auto
  have "insert_base cmp sl key p (h_nodes h) t = ret (Inr t, st1)"
    by (subst insert_base.simps) (simp add: s1(1))
  moreover have "linked st2 h0 l (insert_at cmp (h_nodes h) key p (L l))" if "l < hgt" for l
  proof (cases "l = 0")
    case True
    then show ?thesis using s1(3) s2(4) by (simp add: linked_def)
  next
    case False
    then show ?thesis using s2(3) that by (simp add: same_nodes_insert_at [OF s1(2)])
  qed
  ultimately show ?thesis
    using s2(1,4) s1(4) assms(1) same_nodes_trans [OF s1(2) s2(2)]
    by (intro exI [of _ st2]) (auto simp: link_node_def)
qed

section \<open>Fresh nodes\<close>

lemma view_upd_other:
  assumes "q \<noteq> p"
  shows "node_key (st(p \<mapsto> n)) q = node_key st q" "node_val (st(p \<mapsto> n)) q = node_val st q"
    "node_height (st(p \<mapsto> n)) q = node_height st q" "node_size (st(p \<mapsto> n)) q = node_size st q"
    "node_ok (st(p \<mapsto> n)) q = node_ok st q" "lt cmp (st(p \<mapsto> n)) key q = lt cmp st key q"
  using assms
  by (simp_all add: node_key_def node_val_def node_height_def node_size_def node_ok_def lt_def)

lemma level_list_upd:
  "p \<notin> set ns \<Longrightarrow> level_list (st(p \<mapsto> n)) l ns = level_list st l ns"
  unfolding level_list_def by (rule filter_cong) (auto simp: node_height_def)

lemma set_level_list: "set (level_list st l ns) \<subseteq> set ns"
  by (auto simp: level_list_def)

lemma linked_upd: "p \<notin> set (h0 # xs) \<Longrightarrow> linked (st(p \<mapsto> n)) h0 l xs = linked st h0 l xs"
  unfolding linked_def by (rule path_cong) (auto simp: nxt_def)

lemma pos_upd:
  assumes "p \<notin> set xs"
  shows "pred_at cmp (st(p \<mapsto> n)) key h0 xs = pred_at cmp st key h0 xs"
    "succ_at cmp (st(p \<mapsto> n)) key xs = succ_at cmp st key xs"
proof -
  have "\<And>q. q \<in> set xs \<Longrightarrow> lt cmp (st(p \<mapsto> n)) key q = lt cmp st key q"
    using assms by (metis view_upd_other(6))
  then show "pred_at cmp (st(p \<mapsto> n)) key h0 xs = pred_at cmp st key h0 xs"
    "succ_at cmp (st(p \<mapsto> n)) key xs = succ_at cmp st key xs"
    by (simp_all add: pred_at_def succ_at_def cong: takeWhile_cong dropWhile_cong)
qed

lemma sorted_nodes_upd:
  assumes "p \<notin> set ns"
  shows "sorted_nodes cmp (st(p \<mapsto> n)) ns = sorted_nodes cmp st ns"
proof -
  have "node_key (st(p \<mapsto> n)) q = node_key st q" if "q \<in> set ns" for q
    using assms that by (intro view_upd_other) auto
  then show ?thesis unfolding sorted_nodes_def by (intro iffI; elim sorted_wrt_mono_rel [rotated]) auto
qed

text \<open>A store in a node outside the list, and a raised level bound, keep the list well-formed.\<close>

lemma sl_wf_upd:
  assumes wf: "sl_wf cmp valid sl st ns" and p: "p \<notin> set (sl_head sl # ns)"
    and sl': "sl_head sl' = sl_head sl" "sl_max_level sl \<le> sl_max_level sl'" "sl_max_level sl' \<le> MAX_HEAD_HEIGHT"
  shows "sl_wf cmp valid sl' (st(p \<mapsto> n)) ns"
proof -
  have "p \<notin> set ns" "sl_head sl \<noteq> p" using p by auto
  moreover have "p \<notin> set (sl_head sl # level_list st l ns)" for l
    using p set_level_list [of st l ns] by auto
  moreover have "node_ok (st(p \<mapsto> n)) q \<and> valid (node_key (st(p \<mapsto> n)) q) \<and>
      node_height (st(p \<mapsto> n)) q \<le> sl_max_level sl'" if "q \<in> set ns" for q
  proof -
    have "q \<noteq> p" using that p by auto
    then show ?thesis using that wf sl' by (fastforce simp: view_upd_other sl_wf_def)
  qed
  ultimately show ?thesis
    using wf sl' by (auto simp: sl_wf_def sorted_nodes_upd level_list_upd linked_upd view_upd_other)
qed

lemma found_upd:
  assumes "found cmp sl st ns key t" "p \<notin> set ns" "sl_head sl' = sl_head sl"
  shows "found cmp sl' (st(p \<mapsto> n)) ns key t"
proof -
  have "p \<notin> set (level_list st l ns)" for l using assms(2) set_level_list by blast
  then show ?thesis using assms by (simp add: found_def level_list_upd pos_upd)
qed

section \<open>The list after linking\<close>

context key_comparator
begin

lemma sorted_split:
  assumes "sorted_nodes cmp st xs" "\<forall>p \<in> set xs. valid (node_key st p)" "valid key"
  shows "takeWhile (lt cmp st key) xs = filter (lt cmp st key) xs"
    "dropWhile (lt cmp st key) xs = filter (\<lambda>p. \<not> lt cmp st key p) xs"
proof -
  have "takeWhile (lt cmp st key) xs = filter (lt cmp st key) xs \<and>
        dropWhile (lt cmp st key) xs = filter (\<lambda>p. \<not> lt cmp st key p) xs"
    using assms(1,2)
  proof (induction xs)
    case (Cons x xs)
    show ?case
    proof (cases "lt cmp st key x")
      case True
      then show ?thesis using Cons by (simp add: sorted_nodes_def)
    next
      case False
      have "\<not> lt cmp st key y" if "y \<in> set xs" for y
        using Cons.prems that False less_not_less_trans [of "node_key st y" "node_key st x" key] assms(3)
        by (auto simp: lt_def sorted_nodes_def)
      then show ?thesis using False by (simp add: filter_id_conv filter_empty_conv)
    qed
  qed simp
  then show "takeWhile (lt cmp st key) xs = filter (lt cmp st key) xs"
    "dropWhile (lt cmp st key) xs = filter (\<lambda>p. \<not> lt cmp st key p) xs" by simp_all
qed

lemma insert_at_filter:
  assumes "sorted_nodes cmp st xs" "\<forall>p \<in> set xs. valid (node_key st p)" "valid key"
  shows "insert_at cmp st key p xs = filter (lt cmp st key) xs @ p # filter (\<lambda>p. \<not> lt cmp st key p) xs"
  using sorted_split [OF assms] by (simp add: insert_at_def)

lemma insert_at_sorted:
  assumes "sorted_nodes cmp st xs" "\<forall>q \<in> set xs. valid (node_key st q)" "valid (node_key st p)"
  shows "sorted_nodes cmp st (insert_at cmp st (node_key st p) p xs)"
proof -
  let ?key = "node_key st p"
  have lo: "cmp ?key (node_key st a) \<noteq> Inr Less" if "a \<in> set xs" "lt cmp st ?key a" for a
    using that assms cmp_swap [of "node_key st a" ?key] by (auto simp: lt_def)
  have mid: "cmp (node_key st b) (node_key st a) \<noteq> Inr Less"
    if "a \<in> set xs" "b \<in> set xs" "lt cmp st ?key a" "\<not> lt cmp st ?key b" for a b
    using that assms cmp_trans [of "node_key st b" "node_key st a" ?key] by (auto simp: lt_def)
  have "sorted_wrt (\<lambda>p q. cmp (node_key st q) (node_key st p) \<noteq> Inr Less) (filter P xs)" for P
    using assms(1) by (simp add: sorted_nodes_def sorted_wrt_filter)
  then show ?thesis unfolding insert_at_filter [OF assms] sorted_nodes_def
    using lo mid by (auto simp: sorted_wrt_append) (auto simp: lt_def)
qed

lemma level_list_insert_at:
  assumes "sorted_nodes cmp st ns" "\<forall>q \<in> set ns. valid (node_key st q)" "valid key"
  shows "level_list st l (insert_at cmp st key p ns) =
    (if l < node_height st p then insert_at cmp st key p (level_list st l ns) else level_list st l ns)"
proof -
  have v: "\<forall>q \<in> set (level_list st l ns). valid (node_key st q)"
    using assms(2) set_level_list by blast
  note L = insert_at_filter [OF level_list_sorted [OF assms(1)] v assms(3)]
  have "filter (\<lambda>q. l < node_height st q) (filter (lt cmp st key) ns)
      @ filter (\<lambda>q. l < node_height st q) (filter (\<lambda>q. \<not> lt cmp st key q) ns)
    = filter (\<lambda>q. l < node_height st q) (takeWhile (lt cmp st key) ns @ dropWhile (lt cmp st key) ns)"
    unfolding filter_append by (simp only: sorted_split [OF assms])
  then show ?thesis
    unfolding L insert_at_filter [OF assms]
    by (auto simp: level_list_def filter_filter conj_commute)
qed

lemma sl_wf_valid: "sl_wf cmp valid sl st ns \<Longrightarrow> \<forall>q \<in> set ns. valid (node_key st q)"
  by (simp add: sl_wf_def)

lemma sl_wf_sorted: "sl_wf cmp valid sl st ns \<Longrightarrow> sorted_nodes cmp st ns"
  by (simp add: sl_wf_def)

lemma set_insert_at: "set (insert_at cmp st key p xs) = insert p (set xs)"
proof -
  have "set (takeWhile (lt cmp st key) xs) \<union> set (dropWhile (lt cmp st key) xs) = set xs"
    by (metis set_append takeWhile_dropWhile_id)
  then show ?thesis by (auto simp: insert_at_def)
qed

lemma distinct_insert_at: "distinct xs \<Longrightarrow> p \<notin> set xs \<Longrightarrow> distinct (insert_at cmp st key p xs)"
  unfolding insert_at_def
  by (metis distinct_append distinct_insert takeWhile_dropWhile_id not_distinct_conv_prefix Un_iff set_append
      distinct.simps(2) disjoint_insert(1) list.simps(15))

lemma link_fresh:
  fixes h :: heap
  defines "st \<equiv> h_nodes h"
  assumes wf: "sl_wf cmp valid sl st ns" and fresh: "p \<notin> set (sl_head sl # ns)" "p \<noteq> Null"
    and n: "node_ok st p" "node_key st p = key" "valid key" "node_height st p = hgt" "hgt \<le> sl_max_level sl"
    and null: "\<forall>l < hgt. nxt st l p = Some Null" and t: "found cmp sl st ns key t"
  shows "\<exists>st'. link_node cmp sl key p hgt h t = ret (p, h\<lparr>h_nodes := st'\<rparr>) \<and> same_nodes st st' \<and>
    sl_wf cmp valid sl st' (insert_at cmp st key p ns)"
proof -
  let ?L = "\<lambda>l. level_list st l ns"
  have hgt: "1 \<le> hgt" "hgt \<le> MAX_HEAD_HEIGHT"
    using n(1,4) by (auto simp: node_ok_def node_height_def)
  have sub: "set (?L l) \<subseteq> set ns" and dl: "distinct (sl_head sl # ?L l)" for l
    using set_level_list [of st l ns] wf by (auto simp: sl_wf_def level_list_def)
  have "linkable st (sl_head sl) p ?L [0..<hgt]"
    using wf fresh null hgt dl sub by (fastforce simp: linkable_def sl_wf_def)
  moreover have "positions cmp st key (sl_head sl) ?L [0..<hgt] t"
    using t hgt by (auto simp: positions_def found_def)
  ultimately obtain st' where st': "link_node cmp sl key p hgt h t = ret (p, h\<lparr>h_nodes := st'\<rparr>)"
    "same_nodes st st'" "\<forall>l < hgt. linked st' (sl_head sl) l (insert_at cmp st key p (?L l))"
    "\<forall>l \<ge> hgt. nxt st' l = nxt st l"
    using link_node_ok [of hgt h "sl_head sl" p ?L cmp key t sl] hgt unfolding st_def by blast
  note srt = sl_wf_sorted [OF wf]
  have lk: "linked st' (sl_head sl) l (level_list st l (insert_at cmp st key p ns))"
    if "l < MAX_HEAD_HEIGHT" for l
    unfolding level_list_insert_at [OF srt sl_wf_valid [OF wf] n(3)] n(4)
    using st'(3,4) wf that by (auto simp: sl_wf_def linked_def not_less)
  have "sorted_nodes cmp st (insert_at cmp st key p ns)"
    using insert_at_sorted [OF srt sl_wf_valid [OF wf], of p] n(2,3) by simp
  then have "sl_wf cmp valid sl st' (insert_at cmp st key p ns)"
    using wf st'(2) lk fresh n distinct_insert_at [of ns p st key]
    by (auto simp: sl_wf_def same_nodes_def set_insert_at sorted_nodes_def level_list_def)
  with st'(1,2) show ?thesis by blast
qed

end

section \<open>Entries\<close>

type_synonym entry = "bytes \<times> bytes"

definition entries :: "nodes \<Rightarrow> ptr list \<Rightarrow> entry list" where
  "entries st ns = map (\<lambda>p. (node_key st p, node_val st p)) ns"

text \<open>The abstract operations: the entries from a key on, and insertion before them.\<close>

definition below_key :: "compare \<Rightarrow> bytes \<Rightarrow> entry \<Rightarrow> bool" where
  "below_key cmp key e \<longleftrightarrow> cmp (fst e) key = Inr Less"

definition ins_entry :: "compare \<Rightarrow> bytes \<Rightarrow> bytes \<Rightarrow> entry list \<Rightarrow> entry list" where
  "ins_entry cmp key val es = takeWhile (below_key cmp key) es @ (key, val) # dropWhile (below_key cmp key) es"

definition entries_from :: "compare \<Rightarrow> bytes \<Rightarrow> entry list \<Rightarrow> entry list" where
  "entries_from cmp key es = dropWhile (below_key cmp key) es"

text \<open>The heap represents a list of entries.\<close>

definition represents ::
    "compare \<Rightarrow> (bytes \<Rightarrow> bool) \<Rightarrow> skiplist \<Rightarrow> heap \<Rightarrow> entry list \<Rightarrow> bool" where
  "represents cmp valid sl h es \<longleftrightarrow> (\<exists>ns. sl_inv cmp valid sl h ns \<and> entries (h_nodes h) ns = es)"

lemma entries_split:
  "takeWhile (below_key cmp key) (entries st ns) = entries st (takeWhile (lt cmp st key) ns)"
  "dropWhile (below_key cmp key) (entries st ns) = entries st (dropWhile (lt cmp st key) ns)"
  by (simp_all add: entries_def takeWhile_map dropWhile_map o_def below_key_def lt_def cong: takeWhile_cong dropWhile_cong)

lemma entries_insert_at:
  assumes "node_key st p = key" "node_val st p = val"
  shows "entries st (insert_at cmp st key p ns) = ins_entry cmp key val (entries st ns)"
  using assms by (simp add: insert_at_def ins_entry_def entries_split) (simp add: entries_def)

lemma same_nodes_entries: "same_nodes st st' \<Longrightarrow> entries st' ns = entries st ns"
  by (simp add: same_nodes_def entries_def)

lemma entries_upd: "p \<notin> set ns \<Longrightarrow> entries (st(p \<mapsto> n)) ns = entries st ns"
  unfolding entries_def by (rule map_cong) (auto simp: node_key_def node_val_def)

section \<open>Allocation of nodes\<close>

lemma heap_ok_cong:
  assumes "heap_ok h" "dom st' = dom (h_nodes h)" "node_size st' = node_size (h_nodes h)"
  shows "heap_ok (h\<lparr>h_nodes := st'\<rparr>)"
  using assms by (simp add: heap_ok_def)

lemma node_size_pos: "p \<in> dom st \<Longrightarrow> 0 < node_size st p"
  by (auto simp: node_size_def)

text \<open>
  Allocating a node panics because the arena is full, or adds a node at an address that no node has
  and keeps every node below the frontier.
\<close>

definition room :: "heap \<Rightarrow> bool" where
  "room h \<longleftrightarrow> allocated_bytes (h_arena h) + block_size (policy (h_arena h)) \<le> cap (policy (h_arena h))"

text \<open>What a client that allocates does to the arena: the policy stays and at most one block is added.\<close>

definition grows_by_one :: "heap \<Rightarrow> heap \<Rightarrow> bool" where
  "grows_by_one h h' \<longleftrightarrow> policy (h_arena h') = policy (h_arena h) \<and>
     allocated_bytes (h_arena h') \<le> allocated_bytes (h_arena h) + block_size (policy (h_arena h))"

lemma node_alloc_ok:
  assumes h: "heap_ok h" and b: "hgt \<le> MAX_HEAD_HEIGHT" "klen < u16_limit" "vlen < u32_limit"
  shows "node_alloc dbg h hgt klen vlen = Some (Inl (ArenaPanic ArenaFull)) \<and>
      (block_size (policy (h_arena h)) < 8 + 8 * hgt + klen + vlen \<or> \<not> room h) \<or>
    (\<exists>p a. node_alloc dbg h hgt klen vlen
       = ret (p, \<lparr>h_arena = a, h_nodes = (h_nodes h)(p \<mapsto> init_node hgt klen vlen)\<rparr>) \<and>
     p \<notin> dom (h_nodes h) \<and> p \<noteq> Null \<and>
     heap_ok \<lparr>h_arena = a, h_nodes = (h_nodes h)(p \<mapsto> init_node hgt klen vlen)\<rparr> \<and>
     grows_by_one h \<lparr>h_arena = a, h_nodes = (h_nodes h)(p \<mapsto> init_node hgt klen vlen)\<rparr>)"
proof -
  let ?l = "\<lparr>lay_size = 8 + 8 * hgt + klen + vlen, lay_align = 8\<rparr>"
  have b8: "hgt \<le> 8" using b(1) by (simp add: MAX_HEAD_HEIGHT_def)
  have inv: "arena_inv (h_arena h)" using h by (simp add: heap_ok_def)
  have lok: "layout_ok ?l" using node_layout_ok [OF b8 b(2,3)] .
  have na: "node_alloc dbg h hgt klen vlen = cbind (alloc_raw (h_arena h) ?l) (\<lambda>(p, a).
      ret (p, \<lparr>h_arena = a, h_nodes = (h_nodes h)(p \<mapsto> init_node hgt klen vlen)\<rparr>))"
    using b by (simp add: node_alloc_def build_layout_eq [OF b8 b(2,3)])
  from alloc_raw_room [OF inv lok] show ?thesis
  proof (elim disjE exE conjE)
    fix p a
    assume a: "alloc_raw (h_arena h) ?l = ret (p, a)" and ok: "alloc_ok (h_arena h) ?l p a"
      and gr: "allocated_bytes a \<le> allocated_bytes (h_arena h) + block_size (policy (h_arena h))"
    let ?st = "(h_nodes h)(p \<mapsto> init_node hgt klen vlen)"
    have old: "below (frontier (h_arena h)) (q, node_size (h_nodes h) q)" if "q \<in> dom (h_nodes h)" for q
      using h that by (simp add: heap_ok_def)
    have nn: "p \<noteq> Null" by (rule ar.alloc_not_null [OF inv lok a])
    have fresh: "p \<notin> dom (h_nodes h)"
    proof
      assume p: "p \<in> dom (h_nodes h)"
      obtain c off where "p = Ptr c off" using nn by (cases p) auto
      with ar.alloc_fresh(1) [OF inv lok a old [OF p]] node_size_pos [OF p] show False by simp
    qed
    have "below (frontier a) (p, 8 + 8 * hgt + klen + vlen)"
      using ar.alloc_region [OF inv lok a] by auto
    moreover have "node_size ?st p = 8 + 8 * hgt + klen + vlen" by (simp add: node_size_def init_node_def)
    moreover have "below (frontier a) (q, node_size ?st q)" if "q \<in> dom (h_nodes h)" for q
    proof -
      have "q \<noteq> p" using that fresh by auto
      then show ?thesis using ar.below_mono [OF inv lok a old [OF that]] by (simp add: view_upd_other)
    qed
    ultimately have "heap_ok \<lparr>h_arena = a, h_nodes = ?st\<rparr>"
      using ar.alloc_inv [OF inv lok a] by (simp add: heap_ok_def)
    then show ?thesis using a nn fresh na ok gr by (simp add: grows_by_one_def alloc_ok_def)
  qed (auto simp: na room_def)
qed

text \<open>A node that has been allocated and filled but not linked.\<close>

definition filled :: "nat \<Rightarrow> bytes \<Rightarrow> bytes \<Rightarrow> node" where
  "filled hgt key val = (init_node hgt (length key) (length val))\<lparr>payload := key @ val\<rparr>"

lemma filled_view:
  assumes "1 \<le> hgt" "hgt \<le> MAX_HEAD_HEIGHT"
  shows "node_ok (st(p \<mapsto> filled hgt key val)) p" "node_key (st(p \<mapsto> filled hgt key val)) p = key"
    "node_val (st(p \<mapsto> filled hgt key val)) p = val" "node_height (st(p \<mapsto> filled hgt key val)) p = hgt"
    "l < hgt \<Longrightarrow> nxt (st(p \<mapsto> filled hgt key val)) l p = Some Null"
  using assms by (simp_all add: filled_def init_node_def node_ok_def node_key_def node_val_def
      node_height_def nxt_def get_key_bytes_def get_value_bytes_def)

lemma write_value_filled:
  assumes "st p = Some ((init_node hgt (length key) (length val))\<lparr>payload := key @ pl\<rparr>)" "length pl = length val"
  shows "write_value st p val = Inr (st(p \<mapsto> filled hgt key val))"
  using assms by (simp add: write_value_def write_payload_def copy_into_def filled_def init_node_def)

lemma write_payload_filled:
  "rbind (write_payload (st(p \<mapsto> init_node hgt (length key) (length val))) p 0 key) (\<lambda>st. write_value st p val)
    = Inr (st(p \<mapsto> filled hgt key val))"
  by (simp add: write_payload_def copy_into_def init_node_def)
    (subst write_value_filled [where hgt = hgt and key = key and pl = "replicate (length val) 0"],
     simp_all add: init_node_def)

lemma sl_wf_dom: "sl_wf cmp valid sl st ns \<Longrightarrow> set (sl_head sl # ns) \<subseteq> dom st"
  by (auto simp: sl_wf_def node_ok_def node_height_def MAX_HEAD_HEIGHT_def split: option.splits)

text \<open>The list handle after the counters and the level bound have been updated.\<close>

definition next_handle :: "skiplist \<Rightarrow> nat \<times> skiplist" where
  "next_handle sl = generate_random_level (sl\<lparr>sl_entries := (sl_entries sl + 1) mod usize_limit\<rparr>)"

lemma next_handle_props:
  assumes "next_handle sl = (hgt, sl')" "sl_wf cmp valid sl st ns"
  shows "1 \<le> hgt" "hgt \<le> MAX_HEAD_HEIGHT" "hgt \<le> sl_max_level sl'" "sl_head sl' = sl_head sl"
    "sl_max_level sl \<le> sl_max_level sl'" "sl_max_level sl' \<le> MAX_HEAD_HEIGHT"
    "sl_entries sl' = (sl_entries sl + 1) mod usize_limit" "hgt \<le> 3"
  using generate_random_level_bounds [OF assms(1) [unfolded next_handle_def]] assms(2)
  by (auto simp: sl_wf_def MAX_HEAD_HEIGHT_def)

lemma sl_insert_handle:
  "sl_insert dbg cmp sl h key val =
     cbind (search cmp sl (h_nodes h) key) (\<lambda>t.
       case searched_node t of
         Some n \<Rightarrow> ret (n, sl, h)
       | None \<Rightarrow>
          (case next_handle sl of (hgt, sl) \<Rightarrow>
          case debug_assert dbg (hgt \<le> MAX_HEAD_HEIGHT) of
            Inl f \<Rightarrow> Some (Inl f)
          | Inr _ \<Rightarrow>
             cbind (node_alloc dbg h hgt (length key mod u16_limit) (length val mod u32_limit)) (\<lambda>(node_ptr, h).
               case rbind (write_payload (h_nodes h) node_ptr 0 key) (\<lambda>st. write_value st node_ptr val) of
                 Inl f \<Rightarrow> Some (Inl f)
               | Inr st \<Rightarrow>
                  cbind (link_node cmp sl key node_ptr hgt (h\<lparr>h_nodes := st\<rparr>) t) (\<lambda>(p, h').
                    ret (p, sl, h')))))"
  by (simp only: sl_insert_def next_handle_def Let_def)

lemma insert_with_handle:
  "insert_with dbg cmp sl h klen val f =
     (case next_handle sl of (hgt, sl) \<Rightarrow>
      case debug_assert dbg (hgt \<le> MAX_HEAD_HEIGHT) of
        Inl e \<Rightarrow> Some (Inl e)
      | Inr _ \<Rightarrow>
         cbind (node_alloc dbg h hgt klen (length val mod u32_limit)) (\<lambda>(node_ptr, h).
           case rbind (f (h_nodes h) node_ptr) (\<lambda>st. write_value st node_ptr val) of
             Inl e \<Rightarrow> Some (Inl e)
           | Inr st \<Rightarrow>
              (case st node_ptr of
                 None \<Rightarrow> Some (Inl InvalidAccess)
               | Some n \<Rightarrow>
                  cbind (search cmp sl st (get_key_bytes n)) (\<lambda>t.
                    case searched_node t of
                      Some m \<Rightarrow> ret (m, sl, h\<lparr>h_nodes := st\<rparr>)
                    | None \<Rightarrow>
                       cbind (link_node cmp sl (get_key_bytes n) node_ptr hgt (h\<lparr>h_nodes := st\<rparr>) t) (\<lambda>(p, h').
                         ret (p, sl, h'))))))"
  by (simp only: insert_with_def next_handle_def Let_def)

text \<open>
  Towers have at most three levels, so an entry needs at most 32 bytes beside its key and value.
\<close>

definition fits_and_room :: "heap \<Rightarrow> bytes \<Rightarrow> bytes \<Rightarrow> bool" where
  "fits_and_room h key val \<longleftrightarrow> 32 + length key + length val \<le> block_size (policy (h_arena h)) \<and> room h"

text \<open>
  A closure for \<open>insert_with\<close> that fills in the key it was given room for.
\<close>

definition writes_key :: "(nodes \<Rightarrow> ptr \<Rightarrow> nodes res) \<Rightarrow> bytes \<Rightarrow> bool" where
  "writes_key f key \<longleftrightarrow> (\<forall>st p hgt vlen. f (st(p \<mapsto> init_node hgt (length key) vlen)) p
     = Inr (st(p \<mapsto> (init_node hgt (length key) vlen)\<lparr>payload := key @ replicate vlen 0\<rparr>)))"

section \<open>Correctness of the insertions\<close>

context key_comparator
begin

text \<open>The state in which both insertions start to link.\<close>

lemma link_filled:
  fixes h :: heap
  defines "st \<equiv> h_nodes h"
  assumes inv: "sl_inv cmp valid sl h ns" and k: "valid key" and nh: "next_handle sl = (hgt, sl')"
    and p: "p \<notin> dom st" "p \<noteq> Null"
    and ok: "heap_ok \<lparr>h_arena = a, h_nodes = st(p \<mapsto> init_node hgt (length key) (length val))\<rparr>"
    and t: "found cmp sl' (st(p \<mapsto> filled hgt key val)) ns key t"
  shows "\<exists>h'. link_node cmp sl' key p hgt \<lparr>h_arena = a, h_nodes = st(p \<mapsto> filled hgt key val)\<rparr> t = ret (p, h') \<and>
    h_arena h' = a \<and> represents cmp valid sl' h' (ins_entry cmp key val (entries st ns))"
proof -
  let ?st = "st(p \<mapsto> filled hgt key val)"
  let ?h = "\<lparr>h_arena = a, h_nodes = ?st\<rparr>"
  have wf: "sl_wf cmp valid sl st ns" using inv by (simp add: sl_inv_def st_def)
  note b = next_handle_props [OF nh wf]
  have pn: "p \<notin> set (sl_head sl # ns)" using sl_wf_dom [OF wf] p(1) by blast
  have wf': "sl_wf cmp valid sl' ?st ns" by (rule sl_wf_upd [OF wf pn b(4,5,6)])
  obtain st' where st': "link_node cmp sl' key p hgt ?h t = ret (p, ?h\<lparr>h_nodes := st'\<rparr>)"
    "same_nodes ?st st'" "sl_wf cmp valid sl' st' (insert_at cmp ?st key p ns)"
    using link_fresh [of sl' ?h ns p key hgt t] wf' pn p(2) k t b filled_view [OF b(1,2)] by auto
  have "heap_ok (\<lparr>h_arena = a, h_nodes = st(p \<mapsto> init_node hgt (length key) (length val))\<rparr>\<lparr>h_nodes := st'\<rparr>)"
  proof (rule heap_ok_cong [OF ok])
    have "node_size ?st = node_size (st(p \<mapsto> init_node hgt (length key) (length val)))"
      by (simp add: node_size_def filled_def init_node_def fun_eq_iff)
    then show "node_size st' = node_size (h_nodes \<lparr>h_arena = a, h_nodes = st(p \<mapsto> init_node hgt (length key) (length val))\<rparr>)"
      using st'(2) by (simp add: same_nodes_def)
    show "dom st' = dom (h_nodes \<lparr>h_arena = a, h_nodes = st(p \<mapsto> init_node hgt (length key) (length val))\<rparr>)"
      using st'(2) by (simp add: same_nodes_def)
  qed
  then have "sl_inv cmp valid sl' (?h\<lparr>h_nodes := st'\<rparr>) (insert_at cmp ?st key p ns)"
    using st'(3) by (simp add: sl_inv_def)
  moreover have "entries st' (insert_at cmp ?st key p ns) = ins_entry cmp key val (entries st ns)"
    using pn b(1,2) by (simp add: same_nodes_entries [OF st'(2)] entries_insert_at filled_view entries_upd)
  ultimately show ?thesis using st'(1) by (auto simp: represents_def)
qed

lemma sl_insert_ok:
  assumes rep: "represents cmp valid sl h es" and k: "valid key"
    and len: "length key < u16_limit" "length val < u32_limit"
  shows "sl_insert dbg cmp sl h key val = Some (Inl (ArenaPanic ArenaFull)) \<and> \<not> fits_and_room h key val \<or>
    (\<exists>p sl' h'. sl_insert dbg cmp sl h key val = ret (p, sl', h') \<and>
       represents cmp valid sl' h' (ins_entry cmp key val es) \<and> grows_by_one h h' \<and>
       sl_entries sl' = (sl_entries sl + 1) mod usize_limit)"
proof -
  let ?st = "h_nodes h"
  obtain ns where inv: "sl_inv cmp valid sl h ns" and es: "entries ?st ns = es"
    using rep by (auto simp: represents_def)
  then have wf: "sl_wf cmp valid sl ?st ns" and hok: "heap_ok h" by (simp_all add: sl_inv_def)
  obtain t where t: "search cmp sl ?st key = ret t" "found cmp sl ?st ns key t"
    using search_ok [OF wf k] by blast
  obtain hgt sl' where nh: "next_handle sl = (hgt, sl')" by fastforce
  note b = next_handle_props [OF nh wf]
  let ?n = "node_alloc dbg h hgt (length key) (length val)"
  let ?k = "\<lambda>(node_ptr, h). case rbind (write_payload (h_nodes h) node_ptr 0 key) (\<lambda>st. write_value st node_ptr val) of
      Inl f \<Rightarrow> Some (Inl f)
    | Inr st \<Rightarrow> cbind (link_node cmp sl' key node_ptr hgt (h\<lparr>h_nodes := st\<rparr>) t) (\<lambda>(p, h'). ret (p, sl', h'))"
  have eq: "sl_insert dbg cmp sl h key val = cbind ?n ?k"
    using t len b(2) by (simp add: sl_insert_handle found_def nh)
  from node_alloc_ok [OF hok b(2) len, of dbg] show ?thesis
  proof (elim disjE exE conjE)
    fix p a
    assume n: "?n = ret (p, \<lparr>h_arena = a, h_nodes = ?st(p \<mapsto> init_node hgt (length key) (length val))\<rparr>)"
      and p: "p \<notin> dom ?st" "p \<noteq> Null"
      and ok: "heap_ok \<lparr>h_arena = a, h_nodes = ?st(p \<mapsto> init_node hgt (length key) (length val))\<rparr>"
    have "p \<notin> set ns" using sl_wf_dom [OF wf] p(1) by auto
    then have "found cmp sl' (?st(p \<mapsto> filled hgt key val)) ns key t"
      by (rule found_upd [OF t(2) _ b(4)])
    moreover assume "grows_by_one h \<lparr>h_arena = a, h_nodes = ?st(p \<mapsto> init_node hgt (length key) (length val))\<rparr>"
    ultimately show ?thesis using link_filled [OF inv k nh p ok, of t] es b(7) n
      by (auto simp: eq write_payload_filled grows_by_one_def)
  qed (use b(8) in \<open>auto simp: eq fits_and_room_def\<close>)
qed

lemma insert_with_ok:
  assumes rep: "represents cmp valid sl h es" and k: "valid key" and f: "writes_key f key"
    and len: "length key < u16_limit" "length val < u32_limit"
  shows "insert_with dbg cmp sl h (length key) val f = Some (Inl (ArenaPanic ArenaFull)) \<and> \<not> fits_and_room h key val \<or>
    (\<exists>p sl' h'. insert_with dbg cmp sl h (length key) val f = ret (p, sl', h') \<and>
       represents cmp valid sl' h' (ins_entry cmp key val es) \<and> grows_by_one h h' \<and>
       sl_entries sl' = (sl_entries sl + 1) mod usize_limit)"
proof -
  let ?st = "h_nodes h"
  obtain ns where inv: "sl_inv cmp valid sl h ns" and es: "entries ?st ns = es"
    using rep by (auto simp: represents_def)
  then have wf: "sl_wf cmp valid sl ?st ns" and hok: "heap_ok h" by (simp_all add: sl_inv_def)
  obtain hgt sl' where nh: "next_handle sl = (hgt, sl')" by fastforce
  note b = next_handle_props [OF nh wf]
  from node_alloc_ok [OF hok b(2) len, of dbg] show ?thesis
  proof (elim disjE exE conjE)
    fix p a
    let ?st2 = "?st(p \<mapsto> filled hgt key val)"
    assume n: "node_alloc dbg h hgt (length key) (length val)
        = ret (p, \<lparr>h_arena = a, h_nodes = ?st(p \<mapsto> init_node hgt (length key) (length val))\<rparr>)"
      and p: "p \<notin> dom ?st" "p \<noteq> Null"
      and ok: "heap_ok \<lparr>h_arena = a, h_nodes = ?st(p \<mapsto> init_node hgt (length key) (length val))\<rparr>"
    have pn: "p \<notin> set (sl_head sl # ns)" using sl_wf_dom [OF wf] p(1) by blast
    obtain t where t: "search cmp sl' ?st2 key = ret t" "found cmp sl' ?st2 ns key t"
      using search_ok [OF sl_wf_upd [OF wf pn b(4,5,6)] k] by blast
    have w: "rbind (f (?st(p \<mapsto> init_node hgt (length key) (length val))) p) (\<lambda>st. write_value st p val) = Inr ?st2"
      using f by (simp add: writes_key_def write_value_filled [where key = key and pl = "replicate (length val) 0"])
    have g: "get_key_bytes (filled hgt key val) = key"
      by (simp add: filled_def init_node_def get_key_bytes_def)
    assume "grows_by_one h \<lparr>h_arena = a, h_nodes = ?st(p \<mapsto> init_node hgt (length key) (length val))\<rparr>"
    with link_filled [OF inv k nh p ok t(2)] show ?thesis
      using es b(2,7) n t len w g by (auto simp: insert_with_handle nh found_def grows_by_one_def)
  qed (use len b(2,8) in \<open>auto simp: insert_with_handle nh fits_and_room_def\<close>)
qed

end

text \<open>A new list represents no entries.\<close>

lemma skiplist_new_ok:
  assumes h: "heap_ok h"
  shows "skiplist_new dbg h = Some (Inl (ArenaPanic ArenaFull)) \<and> (block_size (policy (h_arena h)) < 72 \<or> \<not> room h) \<or>
    (\<exists>sl h'. skiplist_new dbg h = ret (sl, h') \<and> represents cmp valid sl h' [] \<and> sl_entries sl = 0 \<and>
       grows_by_one h h')"
proof -
  have "node_alloc dbg h MAX_HEAD_HEIGHT 0 0 = Some (Inl (ArenaPanic ArenaFull)) \<and>
      (block_size (policy (h_arena h)) < 8 + 8 * MAX_HEAD_HEIGHT + 0 + 0 \<or> \<not> room h) \<or>
    (\<exists>p a. node_alloc dbg h MAX_HEAD_HEIGHT 0 0
       = ret (p, \<lparr>h_arena = a, h_nodes = (h_nodes h)(p \<mapsto> init_node MAX_HEAD_HEIGHT 0 0)\<rparr>) \<and>
     p \<notin> dom (h_nodes h) \<and> p \<noteq> Null \<and>
     heap_ok \<lparr>h_arena = a, h_nodes = (h_nodes h)(p \<mapsto> init_node MAX_HEAD_HEIGHT 0 0)\<rparr> \<and>
     grows_by_one h \<lparr>h_arena = a, h_nodes = (h_nodes h)(p \<mapsto> init_node MAX_HEAD_HEIGHT 0 0)\<rparr>)"
    by (rule node_alloc_ok [OF h]) simp_all
  then show ?thesis
  proof (elim disjE exE conjE)
    fix p a
    let ?h = "\<lparr>h_arena = a, h_nodes = (h_nodes h)(p \<mapsto> init_node MAX_HEAD_HEIGHT 0 0)\<rparr>"
    let ?sl = "\<lparr>sl_head = p, sl_seed = seed_generator 1, sl_entries = 0, sl_max_level = 1\<rparr>"
    assume n: "node_alloc dbg h MAX_HEAD_HEIGHT 0 0 = ret (p, ?h)" "grows_by_one h ?h"
      and "p \<noteq> Null" "heap_ok ?h"
    then have "sl_inv cmp valid ?sl ?h []"
      by (simp add: sl_inv_def sl_wf_def sorted_nodes_def linked_def level_list_def nxt_def node_height_def
          init_node_def MAX_HEAD_HEIGHT_def)
    then have "represents cmp valid ?sl ?h []" by (auto simp: represents_def entries_def)
    with n show ?thesis by (simp add: skiplist_new_def)
  qed (simp_all add: skiplist_new_def MAX_HEAD_HEIGHT_def)
qed

end
