(* ===== verification/Skip_List_Read.thy ===== *)
theory Skip_List_Read
  imports Skip_List_Insert
begin

text \<open>
  Reading the skip list: the lookup of the first entry not below a key, the forward iterator, seeks
  and range scans, and the statements about insertion and reading for the two comparators of the
  code. \<open>iter_all\<close> and \<open>range_all\<close> drain an iterator with its \<^verbatim>\<open>next\<close>, as
  \<^verbatim>\<open>Iterator::collect\<close> does.
\<close>

section \<open>Draining iterators\<close>

partial_function (option) iter_all :: "nodes \<Rightarrow> iter \<Rightarrow> ptr list comp" where
  "iter_all st it =
     (case iter_next st it of
        Inl f \<Rightarrow> Some (Inl f)
      | Inr (x, it') \<Rightarrow>
         (case x of None \<Rightarrow> ret []
          | Some p \<Rightarrow> cbind (iter_all st it') (\<lambda>ps. ret (p # ps))))"

partial_function (option) range_all :: "nodes \<Rightarrow> range_iter \<Rightarrow> ptr list comp" where
  "range_all st ri =
     (case range_next st ri of
        Inl f \<Rightarrow> Some (Inl f)
      | Inr (x, ri') \<Rightarrow>
         (case x of None \<Rightarrow> ret []
          | Some p \<Rightarrow> cbind (range_all st ri') (\<lambda>ps. ret (p # ps))))"

text \<open>The end of a range is tested on the raw bytes of the key.\<close>

fun before_end :: "bound \<Rightarrow> bytes \<Rightarrow> bool" where
  "before_end (Excluded b) k = (bytes_cmp k b = Less)"
| "before_end (Included b) k = (bytes_cmp k b \<noteq> Greater)"
| "before_end Unbounded k = True"

lemma iter_all_path: "path (nxt st 0) it xs Null \<Longrightarrow> iter_all st it = ret xs"
proof (induction xs arbitrary: it)
  case Nil
  then show ?case by (subst iter_all.simps) (simp add: iter_next_def)
next
  case (Cons x xs)
  then show ?case by (subst iter_all.simps) (auto simp: iter_next_def load_next_nxt)
qed

lemma range_all_path:
  assumes "path (nxt st 0) it xs Null" "\<forall>p \<in> set xs. st p \<noteq> None"
  shows "range_all st \<lparr>ri_start = it, ri_end = hi\<rparr> = ret (takeWhile (\<lambda>p. before_end hi (node_key st p)) xs)"
  using assms
proof (induction xs arbitrary: it)
  case Nil
  then show ?case by (subst range_all.simps) (simp add: range_next_def)
next
  case (Cons x xs)
  then obtain n r where n: "st x = Some n" and r: "it = x" "x \<noteq> Null" "nxt st 0 x = Some r"
    "path (nxt st 0) r xs Null" by auto
  have e: "(case hi of Excluded b \<Rightarrow> bytes_cmp (get_key_bytes n) b \<noteq> Less
      | Included b \<Rightarrow> bytes_cmp (get_key_bytes n) b = Greater | Unbounded \<Rightarrow> False)
    \<longleftrightarrow> \<not> before_end hi (node_key st x)"
    using n by (cases hi) (auto simp: node_key_def)
  show ?case
    using Cons.IH [OF r(4)] Cons.prems(2)
    by (subst range_all.simps) (simp add: range_next_def r n e load_next_nxt Let_def)
qed

lemma path_suffix: "path f h (h # xs @ ys) Null \<Longrightarrow> path f (hd0 ys) ys Null"
proof -
  assume "path f h (h # xs @ ys) Null"
  then obtain r where r: "path f r ys Null" by (auto simp: path_append)
  with path_hd0 [OF r] show ?thesis by simp
qed

section \<open>The base level\<close>

lemma level_0: "sl_wf cmp valid sl st ns \<Longrightarrow> level_list st 0 ns = ns"
  by (force simp: level_list_def sl_wf_def node_ok_def node_height_def filter_id_conv)

lemma base_path:
  assumes "sl_wf cmp valid sl st ns"
  shows "path (nxt st 0) (sl_head sl) (sl_head sl # ns) Null"
proof -
  have "linked st (sl_head sl) 0 (level_list st 0 ns)"
    using assms by (simp add: sl_wf_def MAX_HEAD_HEIGHT_def)
  then show ?thesis using level_0 [OF assms] by (simp add: linked_def)
qed

lemma suffix_path:
  assumes "sl_wf cmp valid sl st ns"
  shows "path (nxt st 0) (succ_at cmp st key ns) (dropWhile (lt cmp st key) ns) Null"
  using path_suffix [of "nxt st 0" "sl_head sl" "takeWhile (lt cmp st key) ns" "dropWhile (lt cmp st key) ns"]
    base_path [OF assms] by (simp add: succ_at_def)

lemma sl_wf_nodes: "sl_wf cmp valid sl st ns \<Longrightarrow> p \<in> set ns \<Longrightarrow> st p \<noteq> None"
  by (auto simp: sl_wf_def node_ok_def)

lemma iter_ok:
  assumes "sl_wf cmp valid sl st ns"
  shows "\<exists>it. iter sl st = Inr it \<and> path (nxt st 0) it ns Null"
  using base_path [OF assms] by (auto simp: iter_def load_next_nxt)

context key_comparator
begin

lemma search_node_ok:
  assumes "sl_wf cmp valid sl st ns" "valid key"
  shows "search_node cmp sl st key = ret (succ_at cmp st key ns)"
    "seek cmp sl st key = ret (succ_at cmp st key ns)"
proof -
  obtain t where t: "search cmp sl st key = ret t" "found cmp sl st ns key t"
    using search_ok [OF assms] by blast
  then have "successors t ! 0 = succ_at cmp st key ns" "searched_node t = None"
    using level_0 [OF assms(1)] by (simp_all add: found_def MAX_HEAD_HEIGHT_def)
  with t(1) show "search_node cmp sl st key = ret (succ_at cmp st key ns)"
    "seek cmp sl st key = ret (succ_at cmp st key ns)"
    by (simp_all add: search_node_def seek_def)
qed

text \<open>The node found for a key holds the first entry not below it.\<close>

lemma search_node_entry:
  assumes "represents cmp valid sl h es" "valid key"
  shows "\<exists>p. search_node cmp sl (h_nodes h) key = ret p \<and>
    (case entries_from cmp key es of
       [] \<Rightarrow> p = Null
     | e # _ \<Rightarrow> p \<noteq> Null \<and> (\<exists>n. h_nodes h p = Some n \<and> (get_key_bytes n, get_value_bytes n) = e))"
proof -
  obtain ns where wf: "sl_wf cmp valid sl (h_nodes h) ns" and es: "entries (h_nodes h) ns = es"
    using assms(1) by (auto simp: represents_def sl_inv_def)
  note sp = suffix_path [OF wf, of key]
  have ef: "entries_from cmp key es = entries (h_nodes h) (dropWhile (lt cmp (h_nodes h) key) ns)"
    by (simp add: entries_from_def entries_split flip: es)
  show ?thesis
  proof (cases "dropWhile (lt cmp (h_nodes h) key) ns")
    case Nil
    then show ?thesis using search_node_ok(1) [OF wf assms(2)] ef
      by (simp add: succ_at_def entries_def del: dropWhile_eq_Nil_conv)
  next
    case (Cons p ps)
    then have "p \<in> set ns" by (metis list.set_intros(1) set_dropWhileD)
    then obtain n where "h_nodes h p = Some n" using sl_wf_nodes [OF wf] by blast
    then show ?thesis using Cons sp search_node_ok(1) [OF wf assms(2)] ef
      by (simp add: succ_at_def entries_def node_key_def node_val_def)
  qed
qed

lemma seek_collect:
  assumes "represents cmp valid sl h es" "valid key"
  shows "\<exists>it ps. seek cmp sl (h_nodes h) key = ret it \<and> iter_all (h_nodes h) it = ret ps \<and>
    entries (h_nodes h) ps = entries_from cmp key es"
proof -
  obtain ns where wf: "sl_wf cmp valid sl (h_nodes h) ns" and es: "entries (h_nodes h) ns = es"
    using assms(1) by (auto simp: represents_def sl_inv_def)
  from search_node_ok(2) [OF wf assms(2)] iter_all_path [OF suffix_path [OF wf, of key]]
  show ?thesis by (simp add: entries_from_def entries_split flip: es)
qed

lemma entries_sorted:
  assumes "represents cmp valid sl h es"
  shows "sorted_wrt (\<lambda>e f. cmp (fst f) (fst e) \<noteq> Inr Less) es" "\<forall>e \<in> set es. valid (fst e)"
  using assms by (auto simp: represents_def sl_inv_def sl_wf_def sorted_nodes_def entries_def sorted_wrt_map)

lemma entries_from_filter:
  assumes s: "sorted_wrt (\<lambda>e f. cmp (fst f) (fst e) \<noteq> Inr Less) es" "\<forall>e \<in> set es. valid (fst e)" and k: "valid key"
  shows "entries_from cmp key es = filter (\<lambda>e. cmp (fst e) key \<noteq> Inr Less) es"
  using s
proof (induction es)
  case (Cons e es)
  show ?case
  proof (cases "below_key cmp key e")
    case True
    then show ?thesis using Cons by (simp add: entries_from_def below_key_def)
  next
    case False
    have "cmp (fst f) key \<noteq> Inr Less" if "f \<in> set es" for f
      using not_less_trans [of key "fst e" "fst f"] Cons.prems that False k by (auto simp: below_key_def)
    then show ?thesis using False by (simp add: entries_from_def below_key_def filter_id_conv)
  qed
qed (simp add: entries_from_def)

end

lemma iter_collect:
  assumes "represents cmp valid sl h es"
  shows "\<exists>it ps. iter sl (h_nodes h) = Inr it \<and> iter_all (h_nodes h) it = ret ps \<and> entries (h_nodes h) ps = es"
proof -
  obtain ns where wf: "sl_wf cmp valid sl (h_nodes h) ns" and es: "entries (h_nodes h) ns = es"
    using assms(1) by (auto simp: represents_def sl_inv_def)
  from iter_ok [OF wf] iter_all_path es show ?thesis by blast
qed

section \<open>Range scans\<close>

fun bound_key :: "bound \<Rightarrow> bytes option" where
  "bound_key (Included k) = Some k"
| "bound_key (Excluded k) = Some k"
| "bound_key Unbounded = None"

text \<open>Both kinds of start bound seek to the first entry not below their key.\<close>

definition start_entries :: "compare \<Rightarrow> bound \<Rightarrow> entry list \<Rightarrow> entry list" where
  "start_entries cmp lo es = (case bound_key lo of None \<Rightarrow> es | Some k \<Rightarrow> entries_from cmp k es)"

lemma entries_takeWhile:
  "entries st (takeWhile (\<lambda>p. P (node_key st p)) ns) = takeWhile (\<lambda>e. P (fst e)) (entries st ns)"
  by (simp add: entries_def takeWhile_map o_def)

context key_comparator
begin

lemma range_collect:
  assumes "represents cmp valid sl h es" "\<forall>k. bound_key lo = Some k \<longrightarrow> valid k"
  shows "\<exists>ri ps. range_new cmp sl (h_nodes h) lo hi = ret ri \<and> range_all (h_nodes h) ri = ret ps \<and>
    entries (h_nodes h) ps = takeWhile (\<lambda>e. before_end hi (fst e)) (start_entries cmp lo es)"
proof -
  let ?st = "h_nodes h"
  obtain ns where wf: "sl_wf cmp valid sl ?st ns" and es: "entries ?st ns = es"
    using assms(1) by (auto simp: represents_def sl_inv_def)
  have "\<exists>it xs. range_new cmp sl ?st lo hi = ret \<lparr>ri_start = it, ri_end = hi\<rparr> \<and> path (nxt ?st 0) it xs Null \<and>
      set xs \<subseteq> set ns \<and> entries ?st xs = start_entries cmp lo es"
  proof (cases "bound_key lo")
    case None
    then have "lo = Unbounded" by (cases lo) auto
    then show ?thesis using iter_ok [OF wf] es
      by (auto simp: range_new_def start_entries_def intro!: exI [of _ ns])
  next
    case (Some k)
    let ?xs = "dropWhile (lt cmp ?st k) ns"
    have "range_new cmp sl ?st lo hi = ret \<lparr>ri_start = succ_at cmp ?st k ns, ri_end = hi\<rparr>"
      using search_node_ok(2) [OF wf, of k] assms(2) Some by (cases lo) (auto simp: range_new_def)
    moreover have "entries ?st ?xs = start_entries cmp lo es"
      using Some by (simp add: start_entries_def entries_from_def entries_split flip: es)
    ultimately show ?thesis using suffix_path [OF wf, of k]
      by (intro exI [of _ "succ_at cmp ?st k ns"] exI [of _ ?xs]) (auto dest: set_dropWhileD)
  qed
  then obtain it xs where x: "range_new cmp sl ?st lo hi = ret \<lparr>ri_start = it, ri_end = hi\<rparr>"
    "path (nxt ?st 0) it xs Null" "set xs \<subseteq> set ns" "entries ?st xs = start_entries cmp lo es" by blast
  have "range_all ?st \<lparr>ri_start = it, ri_end = hi\<rparr> = ret (takeWhile (\<lambda>p. before_end hi (node_key ?st p)) xs)"
    using x(2,3) sl_wf_nodes [OF wf] by (intro range_all_path) auto
  then show ?thesis using x(1,4) by (simp add: entries_takeWhile)
qed

end

text \<open>For the byte order the end test is monotone along the list.\<close>

lemma before_end_mono:
  assumes "bytes_cmp k' k \<noteq> Less" "before_end hi k'"
  shows "before_end hi k"
proof -
  have le: "k = k' \<or> bytes_cmp k k' = Less"
    using assms(1) by (metis bytes_cmp_Equal bytes_cmp_swap ordering_exhaust3)
  show ?thesis
  proof (cases hi)
    case (Included b)
    have "bytes_cmp k b \<noteq> Greater"
    proof
      assume "bytes_cmp k b = Greater"
      then have "bytes_cmp b k = Less" by (simp add: bytes_cmp_swap)
      with le have "bytes_cmp b k' = Less" by (auto intro: bytes_cmp_trans)
      then show False using assms(2) Included by (simp add: bytes_cmp_swap)
    qed
    then show ?thesis by (simp add: Included)
  qed (use le assms in \<open>auto intro: bytes_cmp_trans\<close>)
qed

lemma takeWhile_before_end:
  assumes "sorted_wrt (\<lambda>e f. default_compare (fst f) (fst e) \<noteq> Inr Less) es"
  shows "takeWhile (\<lambda>e. before_end hi (fst e)) es = filter (\<lambda>e. before_end hi (fst e)) es"
  using assms
proof (induction es)
  case (Cons e es)
  have "\<not> before_end hi (fst f)" if "\<not> before_end hi (fst e)" "f \<in> set es" for f
    using before_end_mono [of "fst f" "fst e" hi] that Cons.prems by (auto simp: default_compare_def)
  then show ?case using Cons by (auto simp: filter_empty_conv)
qed simp

end
