(* ===== verification/Skip_List_Spec.thy ===== *)
theory Skip_List_Spec
  imports Skip_List_Read "HOL-Library.Multiset"
begin

text \<open>
  What the skip list promises, for the two comparators of the code: creation, insertion, lookup,
  iteration and range scans as operations on a sorted list of entries, and the inputs on which the
  code leaves that specification (keys of 64 KiB and more, scans over internal keys).
\<close>

section \<open>Facts about sorted insertion\<close>

lemma mset_ins_entry: "mset (ins_entry cmp key val es) = add_mset (key, val) (mset es)"
proof -
  have "mset (takeWhile (below_key cmp key) es) + mset (dropWhile (below_key cmp key) es) = mset es"
    by (metis mset_append takeWhile_dropWhile_id)
  then show ?thesis by (simp add: ins_entry_def)
qed

context key_comparator
begin

lemma entries_from_ins_entry:
  assumes "valid key"
  shows "entries_from cmp key (ins_entry cmp key val es) = (key, val) # entries_from cmp key es"
proof -
  have "\<not> below_key cmp key (key, val)" using cmp_irrefl [OF assms] by (simp add: below_key_def)
  then have "dropWhile (below_key cmp key) ((key, val) # xs) = (key, val) # xs" for xs by simp
  moreover have "\<forall>e \<in> set (takeWhile (below_key cmp key) es). below_key cmp key e"
    by (auto dest: set_takeWhileD)
  ultimately show ?thesis
    unfolding entries_from_def ins_entry_def by (subst dropWhile_append2) auto
qed

end

context key_comparator
begin

text \<open>Seeking to a key that is in the list stops at an entry with that key.\<close>

lemma entries_from_first:
  assumes rep: "represents cmp valid sl h es" and m: "(key, v) \<in> set es" and k: "valid key"
  shows "\<exists>e rest. entries_from cmp key es = e # rest \<and> fst e = key"
proof -
  note srt = entries_sorted [OF rep]
  have f: "entries_from cmp key es = filter (\<lambda>e. cmp (fst e) key \<noteq> Inr Less) es"
    by (rule entries_from_filter [OF srt k])
  have mem: "(key, v) \<in> set (entries_from cmp key es)"
    using m cmp_irrefl [OF k] by (simp add: f)
  then obtain e rest where er: "entries_from cmp key es = e # rest"
    by (cases "entries_from cmp key es") simp_all
  have "sorted_wrt (\<lambda>e f. cmp (fst f) (fst e) \<noteq> Inr Less) (e # rest)"
    using srt(1) unfolding er [symmetric] f by (rule sorted_wrt_filter)
  then have "e = (key, v) \<or> cmp key (fst e) \<noteq> Inr Less" using mem er by fastforce
  moreover have "e \<in> set (entries_from cmp key es)" by (simp add: er)
  then have "e \<in> set es \<and> cmp (fst e) key \<noteq> Inr Less" by (simp add: f)
  moreover from this have "valid (fst e)" using srt(2) by blast
  ultimately have "fst e = key" using k by (auto elim: cmp_cases)
  with er show ?thesis by blast
qed

end

section \<open>New lists\<close>

definition empty_heap :: "arena \<Rightarrow> heap" where
  "empty_heap a = \<lparr>h_arena = a, h_nodes = Map.empty\<rparr>"

lemma empty_heap_ok: "arena_inv a \<Longrightarrow> heap_ok (empty_heap a)"
  by (simp add: empty_heap_def heap_ok_def)

fun insert_all ::
    "bool \<Rightarrow> compare \<Rightarrow> skiplist \<Rightarrow> heap \<Rightarrow> entry list \<Rightarrow> (skiplist \<times> heap) comp" where
  "insert_all dbg cmp sl h [] = ret (sl, h)"
| "insert_all dbg cmp sl h ((k, v) # kvs) =
     cbind (sl_insert dbg cmp sl h k v) (\<lambda>(_, sl', h'). insert_all dbg cmp sl' h' kvs)"

definition entry_ok :: "(bytes \<Rightarrow> bool) \<Rightarrow> nat \<Rightarrow> entry \<Rightarrow> bool" where
  "entry_ok valid block e \<longleftrightarrow> valid (fst e) \<and> length (fst e) < u16_limit \<and> length (snd e) < u32_limit \<and>
     32 + length (fst e) + length (snd e) \<le> block"

definition blocks_left :: "heap \<Rightarrow> nat \<Rightarrow> bool" where
  "blocks_left h n \<longleftrightarrow>
     allocated_bytes (h_arena h) + n * block_size (policy (h_arena h)) \<le> cap (policy (h_arena h))"

lemma blocks_left_step:
  assumes "blocks_left h (Suc n)" "grows_by_one h h'"
  shows "room h" "blocks_left h' n"
  using assms by (auto simp: blocks_left_def room_def grows_by_one_def)

context key_comparator
begin

lemma insert_all_ok:
  assumes "represents cmp valid sl h es" "\<forall>e \<in> set kvs. entry_ok valid (block_size (policy (h_arena h))) e"
    "blocks_left h (length kvs)"
  shows "\<exists>sl' h'. insert_all dbg cmp sl h kvs = ret (sl', h') \<and>
    represents cmp valid sl' h' (foldl (\<lambda>es (k, v). ins_entry cmp k v es) es kvs)"
  using assms
proof (induction kvs arbitrary: sl h es)
  case (Cons e kvs)
  obtain k v where e: "e = (k, v)" by fastforce
  have ok: "valid k" "length k < u16_limit" "length v < u32_limit"
    "32 + length k + length v \<le> block_size (policy (h_arena h))"
    using Cons.prems(2) e by (auto simp: entry_ok_def)
  have "room h" using Cons.prems(3) by (simp add: blocks_left_def room_def)
  then have "fits_and_room h k v" using ok(4) by (simp add: fits_and_room_def)
  then obtain p sl1 h1 where i: "sl_insert dbg cmp sl h k v = ret (p, sl1, h1)"
    "represents cmp valid sl1 h1 (ins_entry cmp k v es)" "grows_by_one h h1"
    using sl_insert_ok [OF Cons.prems(1) ok(1-3), of dbg] by blast
  have "blocks_left h1 (length kvs)" using blocks_left_step Cons.prems(3) i(3) by simp
  moreover have "\<forall>e \<in> set kvs. entry_ok valid (block_size (policy (h_arena h1))) e"
    using Cons.prems(2) i(3) by (simp add: grows_by_one_def)
  ultimately show ?case using Cons.IH [OF i(2)] i(1) e by auto
qed auto

end

lemma mset_foldl_ins: "mset (foldl (\<lambda>es (k, v). ins_entry cmp k v es) es kvs) = mset es + mset kvs"
  by (induction kvs arbitrary: es) (auto simp: mset_ins_entry)

lemma new_list_ok:
  assumes "policy_ok pol" "72 \<le> block_size pol" "(n + 2) * block_size pol \<le> cap pol"
  shows "\<exists>a sl h. arena_new pol System = Inr a \<and> skiplist_new dbg (empty_heap a) = ret (sl, h) \<and>
    represents cmp valid sl h [] \<and> sl_entries sl = 0 \<and> policy (h_arena h) = pol \<and> blocks_left h n"
proof -
  obtain a where a: "arena_new pol System = Inr a" "arena_inv a" "policy a = pol"
    using arena_new_inv [OF assms(1)] by blast
  have al: "allocated_bytes a = block_size pol"
    using a(1) by (auto simp: arena_new_def Let_def rbind_eq_Inr_iff split: if_splits)
  then have b: "blocks_left (empty_heap a) (Suc n)"
    using assms(3) a(3) by (simp add: blocks_left_def empty_heap_def)
  then have "room (empty_heap a)" by (simp add: blocks_left_def room_def)
  then obtain sl h where "skiplist_new dbg (empty_heap a) = ret (sl, h)" "represents cmp valid sl h []"
    "sl_entries sl = 0" and g: "grows_by_one (empty_heap a) h"
    using skiplist_new_ok [OF empty_heap_ok [OF a(2)], of dbg cmp valid] assms(2) a(3)
    by (auto simp: empty_heap_def)
  moreover have "policy (h_arena h) = pol" using g a(3) by (simp add: grows_by_one_def empty_heap_def)
  ultimately show ?thesis using a(1) blocks_left_step(2) [OF b g] by blast
qed

section \<open>Properties\<close>

text \<open>
  C7: Insertion refines sorted insertion: on a list that represents a sorted sequence of entries,
  \<^verbatim>\<open>insert\<close> returns for every key the comparator accepts, and either panics because the arena is full
  (only when the entry does not fit a block or no block is left) or leaves a well-formed list whose
  entries are the old ones with the new one before the first entry that is not below its key.
\<close>

theorem skiplist_insert_refines:
  assumes "represents (dyn_compare dbg c) (key_valid c) sl h es" "key_valid c key"
    "length key < u16_limit" "length val < u32_limit"
  shows "sl_insert dbg (dyn_compare dbg c) sl h key val = Some (Inl (ArenaPanic ArenaFull)) \<and>
      \<not> fits_and_room h key val \<or>
    (\<exists>p sl' h'. sl_insert dbg (dyn_compare dbg c) sl h key val = ret (p, sl', h') \<and>
       represents (dyn_compare dbg c) (key_valid c) sl' h' (ins_entry (dyn_compare dbg c) key val es) \<and>
       sl_entries sl' = (sl_entries sl + 1) mod usize_limit)"
  using dyn_cmp.sl_insert_ok [OF assms] by blast

definition wit_policy :: arena_policy where "wit_policy = \<lparr>block_size = 1000, cap = 10000\<rparr>"

lemma wit_list:
  "\<exists>a sl h. arena_new wit_policy System = Inr a \<and> skiplist_new dbg (empty_heap a) = ret (sl, h) \<and>
    represents cmp valid sl h [] \<and> sl_entries sl = 0 \<and> policy (h_arena h) = wit_policy \<and> blocks_left h 5"
  by (rule new_list_ok) (simp_all add: wit_policy_def policy_ok_def)

theorem skiplist_insert_refines_witness:
  "\<exists>a sl h p sl' h'. arena_new wit_policy System = Inr a \<and> skiplist_new True (empty_heap a) = ret (sl, h) \<and>
     sl_insert True (dyn_compare True DefaultComparator) sl h [1] [2] = ret (p, sl', h') \<and>
     represents (dyn_compare True DefaultComparator) (key_valid DefaultComparator) sl' h' [([1], [2])]"
proof -
  obtain a sl h where n: "arena_new wit_policy System = Inr a" "skiplist_new True (empty_heap a) = ret (sl, h)"
    "represents (dyn_compare True DefaultComparator) (key_valid DefaultComparator) sl h []"
    "policy (h_arena h) = wit_policy" "blocks_left h 5"
    using wit_list by blast
  have "fits_and_room h [1] [2]"
    using n(4,5) by (simp add: fits_and_room_def room_def blocks_left_def wit_policy_def)
  with n skiplist_insert_refines [OF n(3), of "[1]" "[2]"] show ?thesis
    by (simp add: ins_entry_def) blast
qed

text \<open>
  Building a list: on an arena whose policy leaves a block per entry, creating a list and inserting
  any sequence of entries that fit a block returns, and draining the iterator of the result yields a
  sorted permutation of the inserted entries, duplicates of a key included.
\<close>

theorem skiplist_build_sorted:
  assumes "policy_ok pol" "72 \<le> block_size pol" "(length kvs + 2) * block_size pol \<le> cap pol"
    "\<forall>e \<in> set kvs. entry_ok (key_valid c) (block_size pol) e"
  shows "\<exists>a sl h sl' h' it ps. arena_new pol System = Inr a \<and> skiplist_new dbg (empty_heap a) = ret (sl, h) \<and>
    insert_all dbg (dyn_compare dbg c) sl h kvs = ret (sl', h') \<and>
    iter sl' (h_nodes h') = Inr it \<and> iter_all (h_nodes h') it = ret ps \<and>
    mset (entries (h_nodes h') ps) = mset kvs \<and>
    sorted_wrt (\<lambda>e f. dyn_compare dbg c (fst f) (fst e) \<noteq> Inr Less) (entries (h_nodes h') ps)"
proof -
  let ?cmp = "dyn_compare dbg c"
  obtain a sl h where n: "arena_new pol System = Inr a" "skiplist_new dbg (empty_heap a) = ret (sl, h)"
    "represents ?cmp (key_valid c) sl h []" "policy (h_arena h) = pol" "blocks_left h (length kvs)"
    using new_list_ok [OF assms(1-3)] by blast
  obtain sl' h' where i: "insert_all dbg ?cmp sl h kvs = ret (sl', h')"
    "represents ?cmp (key_valid c) sl' h' (foldl (\<lambda>es (k, v). ins_entry ?cmp k v es) [] kvs)"
    using dyn_cmp.insert_all_ok [OF n(3), of kvs dbg] assms(4) n(4,5) by blast
  obtain it ps where it: "iter sl' (h_nodes h') = Inr it" "iter_all (h_nodes h') it = ret ps"
    "entries (h_nodes h') ps = foldl (\<lambda>es (k, v). ins_entry ?cmp k v es) [] kvs"
    using iter_collect [OF i(2)] by blast
  have "mset (entries (h_nodes h') ps) = mset kvs" unfolding it(3) by (simp add: mset_foldl_ins)
  moreover have "sorted_wrt (\<lambda>e f. ?cmp (fst f) (fst e) \<noteq> Inr Less) (entries (h_nodes h') ps)"
    unfolding it(3) by (rule dyn_cmp.entries_sorted(1) [OF i(2)])
  ultimately show ?thesis using n(1,2) i(1) it(1,2) by blast
qed

theorem skiplist_build_sorted_witness:
  "\<exists>a sl h sl' h' it ps. arena_new wit_policy System = Inr a \<and> skiplist_new True (empty_heap a) = ret (sl, h) \<and>
    insert_all True (dyn_compare True DefaultComparator) sl h [([2], [7]), ([1], [8]), ([2], [9])] = ret (sl', h') \<and>
    iter sl' (h_nodes h') = Inr it \<and> iter_all (h_nodes h') it = ret ps \<and>
    mset (entries (h_nodes h') ps) = mset [([2], [7]), ([1], [8]), ([2], [9])] \<and>
    sorted_wrt (\<lambda>e f. dyn_compare True DefaultComparator (fst f) (fst e) \<noteq> Inr Less) (entries (h_nodes h') ps)"
  by (rule skiplist_build_sorted) (simp_all add: wit_policy_def policy_ok_def entry_ok_def)

text \<open>
  A search returns for every key the comparator accepts, and the node it yields at the base level
  holds the first entry that is not below the key; it is null exactly when every entry is below.
\<close>

theorem skiplist_search_first_ge:
  assumes "represents (dyn_compare dbg c) (key_valid c) sl h es" "key_valid c key"
  shows "\<exists>p. search_node (dyn_compare dbg c) sl (h_nodes h) key = ret p \<and>
    (case filter (\<lambda>e. dyn_compare dbg c (fst e) key \<noteq> Inr Less) es of
       [] \<Rightarrow> p = Null
     | e # _ \<Rightarrow> p \<noteq> Null \<and> (\<exists>n. h_nodes h p = Some n \<and> (get_key_bytes n, get_value_bytes n) = e))"
  using dyn_cmp.search_node_entry [OF assms]
  unfolding dyn_cmp.entries_from_filter [OF dyn_cmp.entries_sorted [OF assms(1)] assms(2)] .

text \<open>A list with two entries, for the witnesses.\<close>

lemma wit_two:
  assumes "entry_ok (key_valid c) 1000 (k1, v1)" "entry_ok (key_valid c) 1000 (k2, v2)"
  shows "\<exists>sl h. represents (dyn_compare dbg c) (key_valid c) sl h
    (ins_entry (dyn_compare dbg c) k2 v2 [(k1, v1)]) \<and> blocks_left h 3 \<and> policy (h_arena h) = wit_policy"
proof -
  let ?cmp = "dyn_compare dbg c"
  obtain sl h where n: "represents ?cmp (key_valid c) sl h []"
    "policy (h_arena h) = wit_policy" "blocks_left h 5"
    using wit_list by blast
  have step: "\<exists>sl' h'. represents ?cmp (key_valid c) sl' h' (ins_entry ?cmp k v es) \<and> blocks_left h' n \<and>
      policy (h_arena h') = wit_policy"
    if "represents ?cmp (key_valid c) sl h es" "policy (h_arena h) = wit_policy" "blocks_left h (Suc n)"
      "entry_ok (key_valid c) 1000 (k, v)" for sl h es k v n
  proof -
    note hyp = that
    have "fits_and_room h k v"
      using hyp by (simp add: fits_and_room_def room_def blocks_left_def wit_policy_def entry_ok_def)
    then obtain p sl' h' where "represents ?cmp (key_valid c) sl' h' (ins_entry ?cmp k v es)"
      "grows_by_one h h'"
      using dyn_cmp.sl_insert_ok [OF hyp(1), of k v dbg] hyp(4) by (auto simp: entry_ok_def)
    then show ?thesis using blocks_left_step(2) [OF hyp(3)] hyp(2) by (auto simp: grows_by_one_def)
  qed
  obtain sl1 h1 where "represents ?cmp (key_valid c) sl1 h1 (ins_entry ?cmp k1 v1 [])" "blocks_left h1 4"
    "policy (h_arena h1) = wit_policy"
    using step [OF n(1,2), of 4 k1 v1] n(3) assms(1) by auto
  from step [OF this(1,3), of 3 k2 v2] this(2) assms(2) show ?thesis
    by (simp add: ins_entry_def)
qed

theorem skiplist_search_first_ge_witness:
  "\<exists>sl (h :: heap) p n. search_node (dyn_compare True DefaultComparator) sl (h_nodes h) [2] = ret p \<and>
     h_nodes h p = Some n \<and> (get_key_bytes n, get_value_bytes n) = ([3], [8])"
proof -
  obtain sl h where r: "represents (dyn_compare True DefaultComparator) (key_valid DefaultComparator) sl h
      (ins_entry (dyn_compare True DefaultComparator) [3] [8] [([1], [7])])"
    using wit_two [of DefaultComparator "[1]" "[7]" "[3]" "[8]"] by (auto simp: entry_ok_def)
  from skiplist_search_first_ge [OF this, of "[2]"] obtain p n where
    "search_node (dyn_compare True DefaultComparator) sl (h_nodes h) [2] = ret p"
    "h_nodes h p = Some n" "(get_key_bytes n, get_value_bytes n) = ([3], [8])"
    by (auto simp: ins_entry_def below_key_def default_compare_def)
  then show ?thesis by blast
qed

text \<open>
  What was inserted is found: after an insertion that returned, a search for the key yields a node
  with that key and the value just inserted, also when the key was there before.
\<close>

theorem skiplist_insert_then_search:
  assumes "represents (dyn_compare dbg c) (key_valid c) sl h es" "key_valid c key"
    "length key < u16_limit" "length val < u32_limit"
    "sl_insert dbg (dyn_compare dbg c) sl h key val = ret (p, sl', h')"
  shows "\<exists>q n. search_node (dyn_compare dbg c) sl' (h_nodes h') key = ret q \<and> h_nodes h' q = Some n \<and>
    get_key_bytes n = key \<and> get_value_bytes n = val"
proof -
  have "represents (dyn_compare dbg c) (key_valid c) sl' h' (ins_entry (dyn_compare dbg c) key val es)"
    using dyn_cmp.sl_insert_ok [OF assms(1-4), of dbg] assms(5) by auto
  from dyn_cmp.search_node_entry [OF this assms(2)] show ?thesis
    by (auto simp: dyn_cmp.entries_from_ins_entry [OF assms(2)])
qed

theorem skiplist_insert_then_search_witness:
  "\<exists>sl h p sl' h' q n. sl_insert True (dyn_compare True DefaultComparator) sl h [1] [9] = ret (p, sl', h') \<and>
     search_node (dyn_compare True DefaultComparator) sl' (h_nodes h') [1] = ret q \<and>
     h_nodes h' q = Some n \<and> get_key_bytes n = [1] \<and> get_value_bytes n = [9]"
proof -
  obtain sl h where r: "represents (dyn_compare True DefaultComparator) (key_valid DefaultComparator) sl h
      (ins_entry (dyn_compare True DefaultComparator) [3] [8] [([1], [7])])" "blocks_left h 3"
    "policy (h_arena h) = wit_policy"
    using wit_two [of DefaultComparator "[1]" "[7]" "[3]" "[8]"] by (auto simp: entry_ok_def)
  have "fits_and_room h [1] [9]"
    using r(2,3) by (simp add: fits_and_room_def room_def blocks_left_def wit_policy_def)
  then obtain p sl' h' where i: "sl_insert True (dyn_compare True DefaultComparator) sl h [1] [9] = ret (p, sl', h')"
    using dyn_cmp.sl_insert_ok [OF r(1), of "[1]" "[9]" True] by auto
  have "\<exists>q n. search_node (dyn_compare True DefaultComparator) sl' (h_nodes h') [1] = ret q \<and> h_nodes h' q = Some n \<and>
    get_key_bytes n = [1] \<and> get_value_bytes n = [9]"
    by (rule skiplist_insert_then_search [OF r(1) _ _ _ i]) simp_all
  then show ?thesis using i by blast
qed

text \<open>
  Seeking to a key and draining the iterator returns and yields exactly the entries that are not
  below the key, in list order.
\<close>

theorem skiplist_seek_collects:
  assumes "represents (dyn_compare dbg c) (key_valid c) sl h es" "key_valid c key"
  shows "\<exists>it ps. seek (dyn_compare dbg c) sl (h_nodes h) key = ret it \<and> iter_all (h_nodes h) it = ret ps \<and>
    entries (h_nodes h) ps = filter (\<lambda>e. dyn_compare dbg c (fst e) key \<noteq> Inr Less) es"
  using dyn_cmp.seek_collect [OF assms]
  unfolding dyn_cmp.entries_from_filter [OF dyn_cmp.entries_sorted [OF assms(1)] assms(2)] .

theorem skiplist_seek_collects_witness:
  "\<exists>sl (h :: heap) it ps. seek (dyn_compare True DefaultComparator) sl (h_nodes h) [2] = ret it \<and>
     iter_all (h_nodes h) it = ret ps \<and> entries (h_nodes h) ps = [([3], [8])]"
proof -
  obtain sl h where r: "represents (dyn_compare True DefaultComparator) (key_valid DefaultComparator) sl h
      (ins_entry (dyn_compare True DefaultComparator) [3] [8] [([1], [7])])"
    using wit_two [of DefaultComparator "[1]" "[7]" "[3]" "[8]"] by (auto simp: entry_ok_def)
  from skiplist_seek_collects [OF this, of "[2]"] obtain it ps where
    "seek (dyn_compare True DefaultComparator) sl (h_nodes h) [2] = ret it"
    "iter_all (h_nodes h) it = ret ps" "entries (h_nodes h) ps = [([3], [8])]"
    by (auto simp: ins_entry_def below_key_def default_compare_def)
  then show ?thesis by blast
qed

text \<open>The start of a range as the code reads it: an excluded start behaves like an included one.\<close>

fun from_start :: "bound \<Rightarrow> bytes \<Rightarrow> bool" where
  "from_start (Included b) k = (bytes_cmp k b \<noteq> Less)"
| "from_start (Excluded b) k = (bytes_cmp k b \<noteq> Less)"
| "from_start Unbounded k = True"

lemma start_entries_filter:
  assumes "represents default_compare (\<lambda>_. True) sl h es"
  shows "start_entries default_compare lo es = filter (\<lambda>e. from_start lo (fst e)) es"
  using default_cmp.entries_from_filter [OF default_cmp.entries_sorted [OF assms]]
  by (cases lo) (simp_all add: start_entries_def default_compare_def)

text \<open>
  C32: With the byte-order comparator a range scan returns and yields exactly the entries between its
  bounds, in order, except that an excluded start bound does not exclude: the entries equal to it are
  returned too.
\<close>

theorem range_scan_default:
  assumes "represents default_compare (\<lambda>_. True) sl h es"
  shows "\<exists>ri ps. range_new default_compare sl (h_nodes h) lo hi = ret ri \<and> range_all (h_nodes h) ri = ret ps \<and>
    entries (h_nodes h) ps = filter (\<lambda>e. from_start lo (fst e) \<and> before_end hi (fst e)) es"
proof -
  have "sorted_wrt (\<lambda>e f. default_compare (fst f) (fst e) \<noteq> Inr Less) (filter (\<lambda>e. from_start lo (fst e)) es)"
    using default_cmp.entries_sorted(1) [OF assms] by (rule sorted_wrt_filter)
  then have "takeWhile (\<lambda>e. before_end hi (fst e)) (start_entries default_compare lo es)
      = filter (\<lambda>e. from_start lo (fst e) \<and> before_end hi (fst e)) es"
    by (simp add: start_entries_filter [OF assms] takeWhile_before_end filter_filter)
  with default_cmp.range_collect [OF assms, of lo hi] show ?thesis by simp
qed

theorem range_scan_default_witness:
  "\<exists>sl (h :: heap) ri ps. range_new default_compare sl (h_nodes h) (Excluded [1]) (Excluded [3]) = ret ri \<and>
     range_all (h_nodes h) ri = ret ps \<and> entries (h_nodes h) ps = [([1], [7])]"
proof -
  obtain sl h where r: "represents default_compare (\<lambda>_. True) sl h
      (ins_entry default_compare [3] [8] [([1], [7])])"
    using wit_two [of DefaultComparator "[1]" "[7]" "[3]" "[8]"]
    by (auto simp: entry_ok_def key_valid_fun)
  from range_scan_default [OF this, of "Excluded [1]" "Excluded [3]"] obtain ri ps where
    "range_new default_compare sl (h_nodes h) (Excluded [1]) (Excluded [3]) = ret ri"
    "range_all (h_nodes h) ri = ret ps" "entries (h_nodes h) ps = [([1], [7])]"
    by (auto simp: ins_entry_def below_key_def default_compare_def)
  then show ?thesis by blast
qed

text \<open>
  C33: With the internal-key comparator a range scan from a newer to an older version of one user key
  comes out empty, although both versions are in the list and inside the bounds in list order: the end
  bound is tested in byte order, in which the newer version is the larger one.
\<close>

theorem range_scan_internal_misses_versions:
  assumes "represents (internal_compare dbg) has_trailer sl h es"
    "(encoded_key uk s p, v) \<in> set es" "(encoded_key uk s' p', v') \<in> set es"
    "unat s' < unat s" "unat s < 2 ^ 56"
  shows "internal_compare dbg (encoded_key uk s p) (encoded_key uk s' p') = Inr Less \<and>
    (\<exists>ri. range_new (internal_compare dbg) sl (h_nodes h)
            (Included (encoded_key uk s p)) (Included (encoded_key uk s' p')) = ret ri \<and>
          range_all (h_nodes h) ri = ret [])"
proof
  let ?a = "encoded_key uk s p" and ?b = "encoded_key uk s' p'" and ?cmp = "internal_compare dbg"
  have s': "unat s' < 2 ^ 56" using assms(4,5) by linarith
  have tr: "bytes_cmp (trailer_of s' p') (trailer_of s p) = Less"
    using assms(4) trailer_order [OF assms(5) s', of p' p] by simp
  then show ab: "?cmp ?a ?b = Inr Less"
    by (simp add: internal_less_iff split_encoded_key [simplified])
  have prefix: "bytes_cmp (uk @ xs) (uk @ ys) = bytes_cmp xs ys" for xs ys by (induction uk) auto
  have gt: "bytes_cmp ?a ?b = Greater"
    using tr by (simp add: encoded_key_def prefix bytes_cmp_swap)
  obtain e rest where e: "entries_from ?cmp ?a es = e # rest" "fst e = ?a"
    using internal_cmp.entries_from_first [OF assms(1), of ?a v] assms(2) by auto
  have "\<not> before_end (Included ?b) (fst e)" using e(2) gt by simp
  with internal_cmp.range_collect [OF assms(1), of "Included ?a" "Included ?b"] e(1)
  show "\<exists>ri. range_new ?cmp sl (h_nodes h) (Included ?a) (Included ?b) = ret ri \<and> range_all (h_nodes h) ri = ret []"
    by (auto simp: start_entries_def entries_def)
qed

theorem range_scan_internal_misses_versions_witness:
  "\<exists>sl (h :: heap). internal_compare True (encoded_key [5] 9 Put) (encoded_key [5] 4 Put) = Inr Less \<and>
     (\<exists>ri. range_new (internal_compare True) sl (h_nodes h)
        (Included (encoded_key [5] 9 Put)) (Included (encoded_key [5] 4 Put)) = ret ri \<and>
      range_all (h_nodes h) ri = ret [])"
proof -
  let ?es = "ins_entry (internal_compare True) (encoded_key [5] 9 Put) [1] [(encoded_key [5] 4 Put, [2])]"
  obtain sl h where r: "represents (internal_compare True) has_trailer sl h ?es"
    using wit_two [of InternalKeyComparator "encoded_key [5] 4 Put" "[2]" "encoded_key [5] 9 Put" "[1]" True]
    by (auto simp: entry_ok_def key_valid_fun)
  have "set_mset (mset ?es) = {(encoded_key [5] 9 Put, [1]), (encoded_key [5] 4 Put, [2])}"
    by (simp only: mset_ins_entry) simp
  then have "set ?es = {(encoded_key [5] 9 Put, [1]), (encoded_key [5] 4 Put, [2])}" by simp
  then show ?thesis using range_scan_internal_misses_versions [OF r, of "[5]" 9 Put "[1]" 4 Put "[2]"] by auto
qed

end
