(* ===== verification/Skip_List_Memory.thy ===== *)
theory Skip_List_Memory
  imports Node_Memory Skip_List_Spec
begin

text \<open>
  The skip list in raw memory. \<open>Node_Memory\<close> relates node records to bytes, provided that nodes are placed apart;
  here the arena places them. The accesses of creation and insertion are followed one by one, with allocation by
  \<^verbatim>\<open>Node::alloc\<close> on the arena, and an iterator that reads raw memory is shown to deliver what was inserted.
\<close>

section \<open>Nodes placed by the arena\<close>

text \<open>
  Where the chunks are: \<open>base c\<close> is the address of chunk \<open>c\<close>. Chunks are boxed slices, so they are not at address
  0, lie inside the address space and do not overlap.
\<close>

definition placed :: "(nat \<Rightarrow> nat) \<Rightarrow> arena_policy \<Rightarrow> bool" where
  "placed base pol \<longleftrightarrow> (\<forall>c < cap pol div block_size pol. 0 < base c \<and> base c + block_size pol \<le> 2 ^ 64 \<and>
     (\<forall>d < cap pol div block_size pol. c \<noteq> d \<longrightarrow> base c + block_size pol \<le> base d \<or> base d + block_size pol \<le> base c))"

type_synonym heap_image = "heap \<times> (ptr \<Rightarrow> nat set) \<times> mem"

inductive heap_step :: "endian \<Rightarrow> (nat \<Rightarrow> nat) \<Rightarrow> heap_image \<Rightarrow> heap_image \<Rightarrow> bool" for e base where
  heap_alloc: "node_alloc dbg h hgt klen vlen = ret (p, h') \<Longrightarrow> hgt \<le> MAX_HEAD_HEIGHT \<Longrightarrow> klen < u16_limit \<Longrightarrow> vlen < u32_limit \<Longrightarrow>
    heap_step e base (h, W, m) (h', W(p := {}), raw_init_node e (addr_of base p) hgt klen vlen m)"
| heap_access: "node_access e (addr_of base) (h_nodes h, W, m) (st', W', m') \<Longrightarrow>
    heap_step e base (h, W, m) (h\<lparr>h_nodes := st'\<rparr>, W', m')"

fun heap_inv :: "(nat \<Rightarrow> nat) \<Rightarrow> heap_image \<Rightarrow> bool" where
  "heap_inv base (h, W, m) \<longleftrightarrow> heap_ok h \<and> placed base (policy (h_arena h))"

lemma heap_ok_shape:
  assumes "heap_ok h" "shape st = shape (h_nodes h)"
  shows "heap_ok (h\<lparr>h_nodes := st\<rparr>)"
proof (rule heap_ok_cong [OF assms(1)])
  have s: "map_option (\<lambda>n. (height n, key_len n, value_len n)) (st p) =
      map_option (\<lambda>n. (height n, key_len n, value_len n)) (h_nodes h p)" for p
    using assms(2) by (simp add: shape_def fun_eq_iff)
  have "st p = None \<longleftrightarrow> h_nodes h p = None" for p using s [of p] by (cases "st p"; cases "h_nodes h p") auto
  then show "dom st = dom (h_nodes h)" by (simp add: dom_def)
  show "node_size st = node_size (h_nodes h)"
  proof
    fix p show "node_size st p = node_size (h_nodes h) p"
      using s [of p] by (cases "st p"; cases "h_nodes h p") (auto simp: node_size_def)
  qed
qed

text \<open>Regions that the arena hands out do not overlap as addresses either.\<close>

lemma placed_apart:
  assumes pl: "placed base (policy a)" and inv: "arena_inv a"
    and p: "below (frontier a) (p, k)" "0 < k" and q: "below (frontier a) (q, l)" "0 < l" and no: "\<not> overlap (p, k) (q, l)"
  shows "apart (addr_of base) p k q l" "0 < addr_of base p" "addr_of base p < 2 ^ 64"
proof -
  let ?bs = "block_size (policy a)"
  have len: "length (chunks a) \<le> cap (policy a) div ?bs"
    using inv by (auto simp: arena_inv_def policy_ok_def less_eq_div_iff_mult_less_eq)
  have fr: "frontier a c \<le> ?bs \<and> (0 < frontier a c \<longrightarrow> c < length (chunks a))" for c
  proof (cases "c < length (chunks a)")
    case True
    then have "mem_len (chunks a ! c) = ?bs \<and> bump (chunks a ! c) \<le> mem_len (chunks a ! c)"
      using inv nth_mem unfolding arena_inv_def by blast
    then show ?thesis using True by (simp add: frontier_def)
  qed (simp add: frontier_def)
  obtain c off where pc: "p = Ptr c off" "off + k \<le> frontier a c" using p by (cases p) auto
  obtain d off' where qd: "q = Ptr d off'" "off' + l \<le> frontier a d" using q by (cases q) auto
  have c: "c < cap (policy a) div ?bs" and d: "d < cap (policy a) div ?bs"
    using fr [of c] fr [of d] pc qd p(2) q(2) len by auto
  have b: "off + k \<le> ?bs" "off' + l \<le> ?bs" using pc qd fr [of c] fr [of d] by auto
  show "0 < addr_of base p" "addr_of base p < 2 ^ 64" using pl c b p(2) by (auto simp: placed_def pc)
  show "apart (addr_of base) p k q l"
  proof (cases "c = d")
    case True
    then show ?thesis using no by (auto simp: apart_def pc qd)
  next
    case False
    then have "base c + ?bs \<le> base d \<or> base d + ?bs \<le> base c" using pl c d by (auto simp: placed_def)
    then show ?thesis using b by (auto simp: apart_def pc qd)
  qed
qed

text \<open>What the allocation of a node does to the arena and the store.\<close>

lemma node_alloc_view:
  assumes h: "heap_ok h" and n: "node_alloc dbg h hgt klen vlen = ret (p, h')"
    and b: "hgt \<le> MAX_HEAD_HEIGHT" "klen < u16_limit" "vlen < u32_limit"
  shows "h_nodes h p = None" "p \<noteq> Null" "h_nodes h' = (h_nodes h)(p \<mapsto> init_node hgt klen vlen)" "heap_ok h'"
    "policy (h_arena h') = policy (h_arena h)"
    "h_nodes h q = Some k \<Longrightarrow> \<not> overlap (p, node_bytes (init_node hgt klen vlen)) (q, node_bytes k)"
proof -
  let ?l = "\<lparr>lay_size = 8 + 8 * hgt + klen + vlen, lay_align = 8\<rparr>"
  have b8: "hgt \<le> 8" using b(1) by (simp add: MAX_HEAD_HEIGHT_def)
  show "h_nodes h p = None" "p \<noteq> Null" "h_nodes h' = (h_nodes h)(p \<mapsto> init_node hgt klen vlen)" "heap_ok h'"
    "policy (h_arena h') = policy (h_arena h)"
    using node_alloc_ok [OF h b, of dbg] n by (auto simp: ret_def grows_by_one_def)
  obtain a where a: "alloc_raw (h_arena h) ?l = ret (p, a)"
    using n b by (auto simp: node_alloc_def build_layout_eq [OF b8 b(2,3)] cbind_eq_ret_iff)
  show "\<not> overlap (p, node_bytes (init_node hgt klen vlen)) (q, node_bytes k)" if q: "h_nodes h q = Some k"
  proof -
    have "below (frontier (h_arena h)) (q, node_bytes k)"
      using h q by (force simp: heap_ok_def node_size_def node_bytes_def)
    from ar.alloc_fresh(1) [OF _ node_layout_ok [OF b8 b(2,3)] a this] h show ?thesis
      by (simp add: heap_ok_def node_bytes_def init_node_def)
  qed
qed

lemma heap_inv_step:
  assumes "heap_inv base s" "heap_step e base s s'"
  shows "heap_inv base s'"
  using assms(2)
proof cases
  case heap_alloc
  then show ?thesis using assms(1) node_alloc_view(4,5) by fastforce
next
  case heap_access
  then show ?thesis using assms(1) access_keeps(1) [OF heap_access(3)] heap_ok_shape by auto
qed

text \<open>Every step on heap and memory is one of the node steps of \<open>Node_Memory\<close>, whose placement the arena provides.\<close>

fun image_of :: "heap_image \<Rightarrow> image \<Rightarrow> bool" where
  "image_of (h, W, m) i \<longleftrightarrow> i = (h_nodes h, W, m)"

lemma heap_step_node_step:
  assumes i: "heap_inv base (h, W, m)" and s: "heap_step e base (h, W, m) (h', W', m')"
  shows "node_step e (addr_of base) (h_nodes h, W, m) (h_nodes h', W', m')"
  using s
proof cases
  case (heap_alloc dbg hgt klen vlen p)
  have ok: "heap_ok h" and pl: "placed base (policy (h_arena h'))"
    using i heap_inv_step [OF i s] by auto
  note v = node_alloc_view [OF ok heap_alloc(3-6)]
  let ?n = "init_node hgt klen vlen"
  have inv: "arena_inv (h_arena h')" using v(4) by (simp add: heap_ok_def)
  have bel: "below (frontier (h_arena h')) (q, node_bytes k)" if "h_nodes h' q = Some k" for q k
    using v(4) that by (force simp: heap_ok_def node_size_def node_bytes_def)
  have pos: "0 < node_bytes k" for k by (simp add: node_bytes_def)
  have bp: "below (frontier (h_arena h')) (p, node_bytes ?n)" using bel v(3) by simp
  have ap: "apart (addr_of base) p (node_bytes ?n) q (node_bytes k)" if "h_nodes h q = Some k" for q k
  proof -
    have "h_nodes h' q = Some k" using that v(1,3) by auto
    from placed_apart(1) [OF pl inv bp pos bel [OF this] pos v(6) [OF that]] show ?thesis .
  qed
  have "0 < addr_of base p" "addr_of base p < 2 ^ 64"
  proof -
    have "\<exists>c off. p = Ptr c off \<and> off + node_bytes ?n \<le> frontier (h_arena h') c" using bp by (cases p) auto
    then obtain c off where p: "p = Ptr c off" "off + node_bytes ?n \<le> frontier (h_arena h') c" by blast
    have e: "below (frontier (h_arena h')) (Ptr c off, 4)" "below (frontier (h_arena h')) (Ptr c (off + 4), 4)"
      using p(2) by (simp_all add: node_bytes_def)
    show "0 < addr_of base p" "addr_of base p < 2 ^ 64"
      using placed_apart(2,3) [OF pl inv e(1) _ e(2)] by (simp_all add: p)
  qed
  then show ?thesis
    using v(1-3) heap_alloc ap
    by (auto simp: MAX_HEAD_HEIGHT_def intro!: node_step.step_alloc)
qed (auto intro: node_step.step_access)

interpretation heapmem: simulation "heap_step e base" "\<lambda>s. \<exists>h. s = (h, W\<^sub>0, m\<^sub>0) \<and> h_nodes h = Map.empty \<and> arena_inv (h_arena h) \<and> placed base (policy (h_arena h))"
  "heap_inv base" "node_step e (addr_of base)" image_of "(Map.empty, W\<^sub>0, m\<^sub>0)" for e base W\<^sub>0 m\<^sub>0
proof unfold_locales
  show "heap_inv base s" if "\<exists>h. s = (h, W\<^sub>0, m\<^sub>0) \<and> h_nodes h = Map.empty \<and> arena_inv (h_arena h) \<and> placed base (policy (h_arena h))" for s
    using that by (auto simp: heap_ok_def)
  show "heap_inv base s'" if "heap_inv base s" "heap_step e base s s'" for s s' using heap_inv_step that by blast
  show "image_of s (Map.empty, W\<^sub>0, m\<^sub>0)" if "\<exists>h. s = (h, W\<^sub>0, m\<^sub>0) \<and> h_nodes h = Map.empty \<and> arena_inv (h_arena h) \<and> placed base (policy (h_arena h))" for s
    using that by auto
  show "image_of s' i \<or> (\<exists>i'. node_step e (addr_of base) i i' \<and> image_of s' i')"
    if "heap_inv base s" "image_of s i" "heap_step e base s s'" for s i s'
    using that heap_step_node_step by (cases s; cases s') auto
qed

lemma heap_run_inv:
  assumes "(heap_step e base)\<^sup>*\<^sup>* (empty_heap a, W\<^sub>0, m\<^sub>0) (h, W, m)" "arena_inv a" "placed base (policy a)"
  shows "node_inv e (addr_of base) (h_nodes h, W, m)"
proof -
  have "(node_step e (addr_of base))\<^sup>*\<^sup>* (Map.empty, W\<^sub>0, m\<^sub>0) (h_nodes h, W, m)"
    using heapmem.reachable_simulated [OF assms(1)] assms(2,3) by (auto simp: empty_heap_def)
  from nodemem.reachable_inv [OF this] show ?thesis by (simp add: empty_image_def)
qed


section \<open>Insertion as a sequence of accesses\<close>

text \<open>Pointers a search hands out are null or nodes, as all pointers in towers are.\<close>

definition closed_store :: "nodes \<Rightarrow> bool" where
  "closed_store st \<longleftrightarrow> (\<forall>p n q. st p = Some n \<longrightarrow> q \<in> set (tower n) \<longrightarrow> node_ptr_ok st q)"

definition ctx_ok :: "nodes \<Rightarrow> traversal_ctx \<Rightarrow> bool" where
  "ctx_ok st t \<longleftrightarrow> length (predecessors t) = MAX_HEAD_HEIGHT \<and> length (successors t) = MAX_HEAD_HEIGHT \<and>
     (\<forall>q \<in> set (predecessors t) \<union> set (successors t). node_ptr_ok st q)"

lemma node_inv_closed: "node_inv e addr (st, W, m) \<Longrightarrow> closed_store st"
  unfolding closed_store_def using node_invD(6) by blast

lemma ctx_ok_shape:
  assumes "shape st' = shape st"
  shows "ctx_ok st' t = ctx_ok st t"
  unfolding ctx_ok_def shape_ptr_ok [OF assms] ..

lemma ctx_okD:
  assumes "ctx_ok st t" "l < MAX_HEAD_HEIGHT"
  shows "node_ptr_ok st (predecessors t ! l)" "node_ptr_ok st (successors t ! l)"
  using assms by (auto simp: ctx_ok_def)

lemma load_closed: "closed_store st \<Longrightarrow> load_next st p l = Inr q \<Longrightarrow> node_ptr_ok st q"
  by (force simp: load_next_def closed_store_def split: option.splits if_splits)

lemma walk_closed:
  assumes w: "walk cmp st key l p c = ret (p', c')" and c: "closed_store st" "node_ptr_ok st p" "node_ptr_ok st c"
  shows "node_ptr_ok st p' \<and> node_ptr_ok st c'"
proof -
  let ?P = "\<lambda>cmp st key l p c (r :: (ptr \<times> ptr) res). closed_store st \<longrightarrow> node_ptr_ok st p \<longrightarrow> node_ptr_ok st c \<longrightarrow>
    (\<forall>p' c'. r = Inr (p', c') \<longrightarrow> node_ptr_ok st p' \<and> node_ptr_ok st c')"
  have "?P cmp st key l p c (Inr (p', c'))"
  proof (rule walk.raw_induct [of ?P cmp st key l p c "Inr (p', c')"])
    fix loop cmp st key l p c r
    assume IH: "\<And>cmp st key l p c r. loop cmp st key l p c = Some r \<Longrightarrow> ?P cmp st key l p c r"
      and body: "(if c = Null then ret (p, c)
        else case st c of None \<Rightarrow> Some (Inl InvalidAccess)
          | Some n \<Rightarrow> case cmp (get_key_bytes n) key of Inl f \<Rightarrow> Some (Inl f)
            | Inr o' \<Rightarrow> if o' = Less then case load_next st c l of Inl f \<Rightarrow> Some (Inl f) | Inr nx \<Rightarrow> loop cmp st key l c nx
                else ret (p, c)) = Some r"
    show "?P cmp st key l p c r"
    proof (intro impI allI)
      fix p' c' assume c: "closed_store st" "node_ptr_ok st p" "node_ptr_ok st c" "r = Inr (p', c')"
      consider (stop) "p' = p" "c' = c" | (go) nx where "load_next st c l = Inr nx" "loop cmp st key l c nx = Some (Inr (p', c'))"
        using body c(4) by (auto simp: ret_def split: if_splits option.splits sum.splits)
      then show "node_ptr_ok st p' \<and> node_ptr_ok st c'"
      proof cases
        case go
        show ?thesis using IH [OF go(2)] c(1,3) load_closed [OF c(1) go(1)] by blast
      qed (use c in blast)
    qed
  qed (use w in \<open>simp add: ret_def\<close>)
  with c show ?thesis by blast
qed

lemma search_levels_closed:
  assumes "search_levels cmp st key l p t = ret t'" "closed_store st" "node_ptr_ok st p" "ctx_ok st t"
  shows "ctx_ok st t'"
  using assms
proof (induction l arbitrary: p t)
  case (Suc l)
  obtain c where c: "load_next st p l = Inr c" using Suc.prems(1) by (auto simp: ret_def split: sum.splits)
  obtain p' c' where w: "walk cmp st key l p c = ret (p', c')"
    and r: "search_levels cmp st key l p' (t\<lparr>predecessors := (predecessors t)[l := p'], successors := (successors t)[l := c']\<rparr>) = ret t'"
    using Suc.prems(1) c by (auto simp: cbind_eq_ret_iff)
  have "node_ptr_ok st p' \<and> node_ptr_ok st c'"
    using walk_closed [OF w Suc.prems(2,3) load_closed [OF Suc.prems(2) c]] .
  then show ?case
    using Suc.IH [OF r Suc.prems(2)] Suc.prems(4) set_update_subset_insert [of "predecessors t" l p']
      set_update_subset_insert [of "successors t" l c'] by (auto simp: ctx_ok_def)
qed (simp add: ret_def)

lemma search_closed:
  assumes "search cmp sl st key = ret t" "closed_store st" "node_ptr_ok st (sl_head sl)"
  shows "ctx_ok st t"
proof -
  obtain l where "search_levels cmp st key l (sl_head sl) (traversal_new\<lparr>predecessors := replicate MAX_HEAD_HEIGHT (sl_head sl)\<rparr>) = ret t"
    using assms(1) by (auto simp: search_def ret_def Let_def split: sum.splits)
  moreover have "ctx_ok st (traversal_new\<lparr>predecessors := replicate MAX_HEAD_HEIGHT (sl_head sl)\<rparr>)"
    using assms(3) by (auto simp: ctx_ok_def traversal_new_def node_ptr_ok_def)
  ultimately show ?thesis using search_levels_closed assms(2,3) by blast
qed

text \<open>
  \<open>accesses e addr s st'\<close>: a sequence of accesses to existing nodes leads from the image \<open>s\<close> to the store \<open>st'\<close>.
\<close>

definition accesses :: "endian \<Rightarrow> (ptr \<Rightarrow> nat) \<Rightarrow> image \<Rightarrow> nodes \<Rightarrow> bool" where
  "accesses e addr s st' \<longleftrightarrow> (\<exists>W' m'. (node_access e addr)\<^sup>*\<^sup>* s (st', W', m'))"

lemma accesses_keep:
  assumes "(node_access e addr)\<^sup>*\<^sup>* (st, W, m) (st', W', m')"
  shows "shape st' = shape st \<and> (\<forall>q. W q \<subseteq> W' q)" "node_inv e addr (st, W, m) \<Longrightarrow> node_inv e addr (st', W', m')"
proof -
  let ?P = "\<lambda>(st', W', m'). shape st' = shape st \<and> (\<forall>q. W q \<subseteq> W' q)"
  have "?P y" if "(node_access e addr)\<^sup>*\<^sup>* (st, W, m) y" for y
    using that by (induction rule: rtranclp_induct) (auto dest: access_keeps)
  from this [OF assms] show "shape st' = shape st \<and> (\<forall>q. W q \<subseteq> W' q)" by simp
  show "node_inv e addr (st', W', m')" if "node_inv e addr (st, W, m)"
    using assms that by (induction rule: rtranclp_induct) (auto intro: node_inv_access simp del: node_inv.simps)
qed

lemma accesses_refl: "accesses e addr (st, W, m) st"
  unfolding accesses_def by blast

lemma accesses_trans:
  assumes i: "node_inv e addr (st, W, m)" and a: "accesses e addr (st, W, m) st1"
    and b: "\<And>W m. node_inv e addr (st1, W, m) \<Longrightarrow> accesses e addr (st1, W, m) st2"
  shows "accesses e addr (st, W, m) st2"
proof -
  obtain W1 m1 where r: "(node_access e addr)\<^sup>*\<^sup>* (st, W, m) (st1, W1, m1)" using a by (auto simp: accesses_def)
  from b [OF accesses_keep(2) [OF r i]] r show ?thesis unfolding accesses_def by (meson rtranclp_trans)
qed

lemma accesses_shape: "accesses e addr (st, W, m) st' \<Longrightarrow> shape st' = shape st"
  using accesses_keep(1) by (auto simp: accesses_def)

lemma accesses_step: "node_access e addr (st, W, m) (st', W', m') \<Longrightarrow> accesses e addr (st, W, m) st'"
  unfolding accesses_def by blast

lemma try_link_accesses:
  assumes i: "node_inv e addr (st, W, m)" and t: "try_link st t p l = Inr (b, st')" and c: "ctx_ok st t" "node_ptr_ok st p" "l < MAX_HEAD_HEIGHT"
  shows "accesses e addr (st, W, m) st'"
proof -
  let ?s = "successors t ! l"
  note ok = ctx_okD [OF c(1,3)]
  obtain st1 where s: "(if ?s \<noteq> Null then store_next st p l ?s else Inr st) = Inr st1"
    and x: "cas_next st1 (predecessors t ! l) l ?s p = Inr (b, st')"
    using t by (auto simp: try_link_def Let_def rbind_eq_Inr_iff)
  have a: "accesses e addr (st, W, m) st1"
    using s ok(2) accesses_refl by (auto split: if_splits intro: accesses_step node_access.step_store)
  show ?thesis
  proof (rule accesses_trans [OF i a])
    fix W m
    obtain b' m' where "raw_cas_next e (addr (predecessors t ! l)) l (addr ?s) (addr p) m = (b', m')" by fastforce
    from node_access.step_cas [OF x _ _ this] show "accesses e addr (st1, W, m) st'"
      using ok c(2) by (auto simp: shape_ptr_ok [OF accesses_shape [OF a]] intro: accesses_step)
  qed
qed

text \<open>The two retry loops; the search after a failed attempt only reads.\<close>

text \<open>The body shared by both: an attempt, and after a failed one a search for the next.\<close>

lemma retry_accesses:
  assumes i: "node_inv e addr (st, W, m)" and c: "ctx_ok st t" "node_ptr_ok st p" "l < MAX_HEAD_HEIGHT" "node_ptr_ok st (sl_head sl)"
    and t: "try_link st t p l = Inr (b, st1)" and s: "search cmp sl st1 key = ret t1"
  shows "ctx_ok st1 t1" "node_ptr_ok st1 p" "node_ptr_ok st1 (sl_head sl)"
proof -
  note a = try_link_accesses [OF i t c(1-3)]
  note ok = shape_ptr_ok [OF accesses_shape [OF a]]
  obtain W1 m1 where r: "(node_access e addr)\<^sup>*\<^sup>* (st, W, m) (st1, W1, m1)" using a by (auto simp: accesses_def)
  show "node_ptr_ok st1 p" "node_ptr_ok st1 (sl_head sl)" using c(2,4) ok by auto
  then show "ctx_ok st1 t1" using search_closed [OF s node_inv_closed [OF accesses_keep(2) [OF r i]]] by blast
qed

lemma insert_base_accesses:
  assumes b: "insert_base cmp sl key p st t = ret (x, st')"
    and c: "node_inv e addr (st, W, m)" "ctx_ok st t" "node_ptr_ok st p" "node_ptr_ok st (sl_head sl)"
  shows "accesses e addr (st, W, m) st' \<and> (\<forall>t'. x = Inr t' \<longrightarrow> ctx_ok st' t')"
proof -
  let ?P = "\<lambda>cmp sl key p st t (r :: ((ptr + traversal_ctx) \<times> nodes) res). ctx_ok st t \<longrightarrow> node_ptr_ok st p \<longrightarrow> node_ptr_ok st (sl_head sl) \<longrightarrow>
    (\<forall>x st' W m. r = Inr (x, st') \<longrightarrow> node_inv e addr (st, W, m) \<longrightarrow>
       accesses e addr (st, W, m) st' \<and> (\<forall>t'. x = Inr t' \<longrightarrow> ctx_ok st' t'))"
  have "?P cmp sl key p st t (Inr (x, st'))"
  proof (rule insert_base.raw_induct [of ?P cmp sl key p st t "Inr (x, st')"])
    fix loop cmp sl key p st t r
    assume IH: "\<And>cmp sl key p st t r. loop cmp sl key p st t = Some r \<Longrightarrow> ?P cmp sl key p st t r"
      and body: "(case try_link st t p 0 of Inl f \<Rightarrow> Some (Inl f)
        | Inr (d, st') \<Rightarrow> if d then ret (Inr t, st')
            else cbind (search cmp sl st' key) (\<lambda>t'. case searched_node t' of Some n \<Rightarrow> ret (Inl n, st') | None \<Rightarrow> loop cmp sl key p st' t')) = Some r"
    show "?P cmp sl key p st t r"
    proof (intro impI allI)
      fix x st' W m
      assume c: "ctx_ok st t" "node_ptr_ok st p" "node_ptr_ok st (sl_head sl)" "r = Inr (x, st')" and i: "node_inv e addr (st, W, m)"
      obtain d st1 where l: "try_link st t p 0 = Inr (d, st1)" using body c(4) by (auto split: sum.splits)
      have z: "0 < MAX_HEAD_HEIGHT" by (simp add: MAX_HEAD_HEIGHT_def)
      note a = try_link_accesses [OF i l c(1,2) z]
      show "accesses e addr (st, W, m) st' \<and> (\<forall>t'. x = Inr t' \<longrightarrow> ctx_ok st' t')"
      proof (cases d)
        case True
        then show ?thesis using body l c(1,4) a ctx_ok_shape [OF accesses_shape [OF a]] by (auto simp: ret_def)
      next
        case False
        then obtain t1 where s: "search cmp sl st1 key = ret t1"
          and k: "(case searched_node t1 of Some n \<Rightarrow> ret (Inl n, st1) | None \<Rightarrow> loop cmp sl key p st1 t1) = ret (x, st')"
          using body l c(4) by (auto simp: cbind_eq_ret_iff simp flip: ret_def)
        show ?thesis
        proof (cases "searched_node t1")
          case None
          note r = retry_accesses [OF i c(1,2) z c(3) l s]
          have "loop cmp sl key p st1 t1 = Some (Inr (x, st'))" using k None by (simp add: ret_def)
          from IH [OF this] r have n: "accesses e addr (st1, W, m) st' \<and> (\<forall>t'. x = Inr t' \<longrightarrow> ctx_ok st' t')"
            if "node_inv e addr (st1, W, m)" for W m using that by blast
          then have "accesses e addr (st, W, m) st'" using accesses_trans [OF i a] by blast
          moreover obtain W1 m1 where "(node_access e addr)\<^sup>*\<^sup>* (st, W, m) (st1, W1, m1)" using a by (auto simp: accesses_def)
          then have "node_inv e addr (st1, W1, m1)" using accesses_keep(2) i by blast
          ultimately show ?thesis using n by blast
        qed (use k a in \<open>auto simp: ret_def\<close>)
      qed
    qed
  qed (use b in \<open>simp add: ret_def\<close>)
  with c show ?thesis by blast
qed

lemma link_level_accesses:
  assumes b: "link_level cmp sl key p l st t = ret (t', st')"
    and c: "node_inv e addr (st, W, m)" "ctx_ok st t" "node_ptr_ok st p" "node_ptr_ok st (sl_head sl)" "l < MAX_HEAD_HEIGHT"
  shows "accesses e addr (st, W, m) st' \<and> ctx_ok st' t'"
proof -
  let ?P = "\<lambda>cmp sl key p l st t (r :: (traversal_ctx \<times> nodes) res). l < MAX_HEAD_HEIGHT \<longrightarrow> ctx_ok st t \<longrightarrow> node_ptr_ok st p \<longrightarrow> node_ptr_ok st (sl_head sl) \<longrightarrow>
    (\<forall>t' st' W m. r = Inr (t', st') \<longrightarrow> node_inv e addr (st, W, m) \<longrightarrow> accesses e addr (st, W, m) st' \<and> ctx_ok st' t')"
  have "?P cmp sl key p l st t (Inr (t', st'))"
  proof (rule link_level.raw_induct [of ?P cmp sl key p l st t "Inr (t', st')"])
    fix loop cmp sl key p l st t r
    assume IH: "\<And>cmp sl key p l st t r. loop cmp sl key p l st t = Some r \<Longrightarrow> ?P cmp sl key p l st t r"
      and body: "(case try_link st t p l of Inl f \<Rightarrow> Some (Inl f)
        | Inr (d, st') \<Rightarrow> if d then ret (t, st') else cbind (search cmp sl st' key) (\<lambda>t'. loop cmp sl key p l st' t')) = Some r"
    show "?P cmp sl key p l st t r"
    proof (intro impI allI)
      fix t' st' W m
      assume c: "l < MAX_HEAD_HEIGHT" "ctx_ok st t" "node_ptr_ok st p" "node_ptr_ok st (sl_head sl)" "r = Inr (t', st')"
        and i: "node_inv e addr (st, W, m)"
      obtain d st1 where k: "try_link st t p l = Inr (d, st1)" using body c(5) by (auto split: sum.splits)
      note a = try_link_accesses [OF i k c(2,3,1)]
      show "accesses e addr (st, W, m) st' \<and> ctx_ok st' t'"
      proof (cases d)
        case True
        then show ?thesis using body k c(2,5) a ctx_ok_shape [OF accesses_shape [OF a]] by (auto simp: ret_def)
      next
        case False
        then obtain t1 where s: "search cmp sl st1 key = ret t1" and n: "loop cmp sl key p l st1 t1 = Some (Inr (t', st'))"
          using body k c(5) by (auto simp: cbind_eq_ret_iff simp flip: ret_def)
        note r = retry_accesses [OF i c(2,3,1,4) k s]
        from IH [OF n] r c(1) have n: "accesses e addr (st1, W, m) st' \<and> ctx_ok st' t'"
          if "node_inv e addr (st1, W, m)" for W m using that by blast
        then have "accesses e addr (st, W, m) st'" using accesses_trans [OF i a] by blast
        moreover obtain W1 m1 where "(node_access e addr)\<^sup>*\<^sup>* (st, W, m) (st1, W1, m1)" using a by (auto simp: accesses_def)
        then have "node_inv e addr (st1, W1, m1)" using accesses_keep(2) i by blast
        ultimately show ?thesis using n by blast
      qed
    qed
  qed (use b in \<open>simp add: ret_def\<close>)
  with c show ?thesis by blast
qed

lemma link_levels_accesses:
  assumes "link_levels cmp sl key p ls st t = ret st'" "node_inv e addr (st, W, m)" "ctx_ok st t" "node_ptr_ok st p"
    "node_ptr_ok st (sl_head sl)" "\<forall>l \<in> set ls. l < MAX_HEAD_HEIGHT"
  shows "accesses e addr (st, W, m) st'"
  using assms
proof (induction ls arbitrary: st t W m)
  case (Cons l ls)
  obtain t1 st1 where l: "link_level cmp sl key p l st t = ret (t1, st1)" and r: "link_levels cmp sl key p ls st1 t1 = ret st'"
    using Cons.prems(1) by (auto simp: cbind_eq_ret_iff)
  have a: "accesses e addr (st, W, m) st1 \<and> ctx_ok st1 t1"
    using link_level_accesses [OF l Cons.prems(2-5)] Cons.prems(6) by simp
  then have "shape st1 = shape st" using accesses_shape by blast
  note ok = shape_ptr_ok [OF this]
  show ?case
    using accesses_trans [OF Cons.prems(2) conjunct1 [OF a] Cons.IH [OF r]] a Cons.prems(4-6) ok by simp
qed (simp add: ret_def accesses_refl)

lemma link_node_accesses:
  assumes l: "link_node cmp sl key p hgt h t = ret (q, h')" and hgt: "hgt \<le> MAX_HEAD_HEIGHT"
    and c: "node_inv e addr (h_nodes h, W, m)" "ctx_ok (h_nodes h) t" "node_ptr_ok (h_nodes h) p" "node_ptr_ok (h_nodes h) (sl_head sl)"
  shows "accesses e addr (h_nodes h, W, m) (h_nodes h') \<and> h' = h\<lparr>h_nodes := h_nodes h'\<rparr>"
proof -
  obtain x st where b: "insert_base cmp sl key p (h_nodes h) t = ret (x, st)"
    and r: "(case x of Inl n \<Rightarrow> ret (n, h\<lparr>h_nodes := st\<rparr>)
      | Inr t' \<Rightarrow> cbind (link_levels cmp sl key p [1..<hgt] st t') (\<lambda>st'. ret (p, h\<lparr>h_nodes := st'\<rparr>))) = ret (q, h')"
    using l by (auto simp: link_node_def cbind_eq_ret_iff)
  have a: "accesses e addr (h_nodes h, W, m) st" and t: "\<And>t'. x = Inr t' \<Longrightarrow> ctx_ok st t'"
    using insert_base_accesses [OF b c] by auto
  show ?thesis
  proof (cases x)
    case (Inl n)
    then show ?thesis using r a by (auto simp: ret_def)
  next
    case (Inr t')
    then obtain st' where k: "link_levels cmp sl key p [1..<hgt] st t' = ret st'" and h': "h' = h\<lparr>h_nodes := st'\<rparr>"
      using r by (auto simp: cbind_eq_ret_iff)
    note ok = shape_ptr_ok [OF accesses_shape [OF a]]
    have "accesses e addr (st, W, m) st'" if "node_inv e addr (st, W, m)" for W m
      using link_levels_accesses [OF k that t [OF Inr]] c(3,4) ok hgt by simp
    then have "accesses e addr (h_nodes h, W, m) st'" by (rule accesses_trans [OF c(1) a])
    then show ?thesis by (simp add: h')
  qed
qed

section \<open>Whole operations\<close>

text \<open>Every byte of every key and value has been written.\<close>

definition written :: "nodes \<Rightarrow> (ptr \<Rightarrow> nat set) \<Rightarrow> bool" where
  "written st W \<longleftrightarrow> (\<forall>p a b c. shape st p = Some (a, b, c) \<longrightarrow> {0..<b + c} \<subseteq> W p)"

lemma writtenD: "written st W \<Longrightarrow> st p = Some n \<Longrightarrow> {0..<key_len n + value_len n} \<subseteq> W p"
  by (simp add: written_def shape_def)

lemma written_mono: "written st W \<Longrightarrow> shape st' = shape st \<Longrightarrow> (\<And>q. W q \<subseteq> W' q) \<Longrightarrow> written st' W'"
  unfolding written_def by (metis subset_trans)

lemma heap_accesses:
  assumes "(node_access e (addr_of base))\<^sup>*\<^sup>* (h_nodes h, W, m) (st', W', m')"
  shows "(heap_step e base)\<^sup>*\<^sup>* (h, W, m) (h\<lparr>h_nodes := st'\<rparr>, W', m')"
proof -
  have "case y of (st', W', m') \<Rightarrow> (heap_step e base)\<^sup>*\<^sup>* (h, W, m) (h\<lparr>h_nodes := st'\<rparr>, W', m')"
    if "(node_access e (addr_of base))\<^sup>*\<^sup>* (h_nodes h, W, m) y" for y
    using that
  proof (induction rule: rtranclp_induct)
    case (step y z)
    obtain st1 W1 m1 st2 W2 m2 where yz: "y = (st1, W1, m1)" "z = (st2, W2, m2)" by (cases y; cases z) auto
    have "heap_step e base (h\<lparr>h_nodes := st1\<rparr>, W1, m1) (h\<lparr>h_nodes := st1\<rparr>\<lparr>h_nodes := st2\<rparr>, W2, m2)"
      by (rule heap_access) (use step(2) yz in simp)
    then show ?case using step.IH by (simp add: yz)
  qed simp
  from this [OF assms] show ?thesis by simp
qed

text \<open>The heap, the memory and the list as they are between operations.\<close>

definition in_memory :: "endian \<Rightarrow> (nat \<Rightarrow> nat) \<Rightarrow> skiplist \<Rightarrow> heap_image \<Rightarrow> bool" where
  "in_memory e base sl s \<longleftrightarrow> heap_inv base s \<and> (case s of (h, W, m) \<Rightarrow>
     node_inv e (addr_of base) (h_nodes h, W, m) \<and> written (h_nodes h) W \<and> node_ptr_ok (h_nodes h) (sl_head sl))"

lemma in_memory_accesses:
  assumes i: "in_memory e base sl (h, W, m)" and a: "accesses e (addr_of base) (h_nodes h, W, m) st'" and s: "sl_head sl' = sl_head sl"
  shows "\<exists>W' m'. (heap_step e base)\<^sup>*\<^sup>* (h, W, m) (h\<lparr>h_nodes := st'\<rparr>, W', m') \<and> in_memory e base sl' (h\<lparr>h_nodes := st'\<rparr>, W', m')"
proof -
  obtain W' m' where r: "(node_access e (addr_of base))\<^sup>*\<^sup>* (h_nodes h, W, m) (st', W', m')" using a by (auto simp: accesses_def)
  note k = accesses_keep [OF r]
  have p: "heap_ok h" "placed base (policy (h_arena h))" "node_inv e (addr_of base) (h_nodes h, W, m)" "written (h_nodes h) W" "node_ptr_ok (h_nodes h) (sl_head sl)"
    using i by (simp_all add: in_memory_def)
  have "heap_ok (h\<lparr>h_nodes := st'\<rparr>)" using heap_ok_shape [OF p(1)] k(1) by blast
  moreover have "written st' W'" using written_mono [OF p(4)] k(1) by blast
  moreover have "node_ptr_ok st' (sl_head sl)" using shape_ptr_ok k(1) p(5) by blast
  ultimately have "in_memory e base sl' (h\<lparr>h_nodes := st'\<rparr>, W', m')"
    using p(2) k(2) [OF p(3)] s by (simp add: in_memory_def del: node_inv.simps)
  then show ?thesis using heap_accesses [OF r] by blast
qed

text \<open>
  What an insertion needs of the code that fills in the key: it is a sequence of accesses that writes the whole key.
  Both the copy of \<^verbatim>\<open>insert\<close> and the closures given to \<^verbatim>\<open>insert_with\<close> are of this kind.
\<close>

definition fills_key :: "(nodes \<Rightarrow> ptr \<Rightarrow> nodes res) \<Rightarrow> nat \<Rightarrow> bool" where
  "fills_key f klen \<longleftrightarrow> (\<forall>e addr st p st' W m. f st p = Inr st' \<longrightarrow>
     (\<exists>W' m'. (node_access e addr)\<^sup>*\<^sup>* (st, W, m) (st', W', m') \<and> {0..<klen} \<subseteq> W' p))"

lemma fills_keyD:
  assumes "fills_key f klen" "f st p = Inr st'"
  obtains W' m' where "(node_access e addr)\<^sup>*\<^sup>* (st, W, m) (st', W', m')" "{0..<klen} \<subseteq> W' p"
  using assms unfolding fills_key_def by blast

lemma fills_key_copy: "klen \<le> length key \<Longrightarrow> fills_key (\<lambda>st p. write_payload st p 0 key) klen"
  unfolding fills_key_def
proof (intro allI impI)
  fix e addr st p st' W and m :: mem
  assume "klen \<le> length key" and w: "write_payload st p 0 key = Inr st'"
  then show "\<exists>W' m'. (node_access e addr)\<^sup>*\<^sup>* (st, W, m) (st', W', m') \<and> {0..<klen} \<subseteq> W' p"
    using r_into_rtranclp [of "node_access e addr", OF node_access.step_key [OF w, of e addr W m]]
    by (intro exI conjI) auto
qed

text \<open>The value follows the key.\<close>

lemma fill_value:
  assumes f: "fills_key f klen" "f st p = Inr st1" and v: "write_value st1 p val = Inr st2" "vlen \<le> length val"
    and sh: "shape st p = Some (hgt, klen, vlen)"
  obtains W' m' where "(node_access e addr)\<^sup>*\<^sup>* (st, W, m) (st2, W', m')" "{0..<klen + vlen} \<subseteq> W' p"
proof -
  obtain W1 m1 where r: "(node_access e addr)\<^sup>*\<^sup>* (st, W, m) (st1, W1, m1)" and w: "{0..<klen} \<subseteq> W1 p"
    using fills_keyD [OF f] by metis
  have "shape st1 p = Some (hgt, klen, vlen)" using accesses_keep(1) [OF r] sh by simp
  then obtain n where n: "st1 p = Some n" "key_len n = klen" by (auto simp: shape_def)
  show thesis by (rule that [OF rtranclp.rtrancl_into_rtrancl [OF r node_access.step_value [OF n(1) v(1)]]]) (use w v(2) n(2) in auto)
qed

text \<open>A new node with its key and value written into it.\<close>

lemma alloc_filled:
  assumes i: "in_memory e base sl (h, W, m)"
    and n: "node_alloc dbg h hgt klen vlen = ret (p, h1)" "hgt \<le> MAX_HEAD_HEIGHT" "klen < u16_limit" "vlen < u32_limit"
    and f: "fills_key f klen" "f (h_nodes h1) p = Inr st" and v: "write_value st p val = Inr st'" "vlen \<le> length val"
  shows "\<exists>W' m'. (heap_step e base)\<^sup>*\<^sup>* (h, W, m) (h1\<lparr>h_nodes := st'\<rparr>, W', m') \<and>
    in_memory e base sl (h1\<lparr>h_nodes := st'\<rparr>, W', m')"
    "shape st' = (shape (h_nodes h))(p \<mapsto> (hgt, klen, vlen))"
proof -
  let ?a = "addr_of base" let ?W = "W(p := {})" let ?m = "raw_init_node e (?a p) hgt klen vlen m"
  have j: "heap_inv base (h, W, m)" "heap_ok h" "node_inv e ?a (h_nodes h, W, m)" "written (h_nodes h) W" "node_ptr_ok (h_nodes h) (sl_head sl)"
    using i by (simp_all add: in_memory_def del: node_inv.simps)
  note nv = node_alloc_view [OF j(2) n]
  have s1: "heap_step e base (h, W, m) (h1, ?W, ?m)" by (rule heap_alloc [OF n])
  have j1: "node_inv e ?a (h_nodes h1, ?W, ?m)" by (rule node_inv_step [OF j(3) heap_step_node_step [OF j(1) s1]])
  have sh1: "shape (h_nodes h1) = (shape (h_nodes h))(p \<mapsto> (hgt, klen, vlen))"
    by (auto simp: nv(3) shape_def fun_eq_iff init_node_def)
  then have "shape (h_nodes h1) p = Some (hgt, klen, vlen)" by simp
  from fill_value [OF f v this] obtain W' m' where r: "(node_access e ?a)\<^sup>*\<^sup>* (h_nodes h1, ?W, ?m) (st', W', m')"
    and w: "{0..<klen + vlen} \<subseteq> W' p" by metis
  have sh': "shape st' = shape (h_nodes h1)" "\<And>q. ?W q \<subseteq> W' q" using accesses_keep(1) [OF r] by blast+
  then show "shape st' = (shape (h_nodes h))(p \<mapsto> (hgt, klen, vlen))" using sh1 by simp
  have "{0..<b + c} \<subseteq> W' q" if "shape st' q = Some (a, b, c)" for q a b c
  proof (cases "q = p")
    case False
    then show ?thesis using that j(4) sh'(2) [of q] by (simp add: sh'(1) sh1 written_def) blast
  qed (use that w in \<open>simp add: sh'(1) sh1\<close>)
  then have "written st' W'" unfolding written_def by blast
  moreover have "node_ptr_ok st' (sl_head sl)"
    using j(5) shape_ptr_ok [OF sh'(1)] by (auto simp: nv(3) node_ptr_ok_def)
  moreover have "heap_inv base (h1\<lparr>h_nodes := st'\<rparr>, W', m')"
    using heap_inv_step [OF j(1) s1] heap_ok_shape [OF _ sh'(1)] by simp
  ultimately have "in_memory e base sl (h1\<lparr>h_nodes := st'\<rparr>, W', m')"
    using accesses_keep(2) [OF r j1] by (simp add: in_memory_def del: node_inv.simps heap_inv.simps)
  then show "\<exists>W' m'. (heap_step e base)\<^sup>*\<^sup>* (h, W, m) (h1\<lparr>h_nodes := st'\<rparr>, W', m') \<and>
    in_memory e base sl (h1\<lparr>h_nodes := st'\<rparr>, W', m')"
    using converse_rtranclp_into_rtranclp [OF s1 heap_accesses [OF r]] by blast
qed

text \<open>Linking a filled node, with a context whose pointers are nodes.\<close>

lemma link_node_run:
  assumes l: "link_node cmp sl' key q hgt h t = ret (r, h')" and hgt: "hgt \<le> MAX_HEAD_HEIGHT" and s: "sl_head sl' = sl_head sl"
    and i: "in_memory e base sl (h, W, m)" and c: "ctx_ok (h_nodes h) t" "node_ptr_ok (h_nodes h) q"
  shows "\<exists>W' m'. (heap_step e base)\<^sup>*\<^sup>* (h, W, m) (h', W', m') \<and> in_memory e base sl' (h', W', m')"
proof -
  have z: "node_inv e (addr_of base) (h_nodes h, W, m)" "node_ptr_ok (h_nodes h) (sl_head sl')"
    using i s by (simp_all add: in_memory_def del: node_inv.simps)
  have a: "accesses e (addr_of base) (h_nodes h, W, m) (h_nodes h')" and h': "h' = h\<lparr>h_nodes := h_nodes h'\<rparr>"
    using link_node_accesses [OF l hgt z(1) c z(2)] by auto
  from in_memory_accesses [OF i a s] show ?thesis using h' by metis
qed

text \<open>The heights and lists both insertions work with.\<close>

lemma level_kept:
  assumes "generate_random_level (sl\<lparr>sl_entries := n\<rparr>) = (hgt, sl')"
  shows "hgt \<le> MAX_HEAD_HEIGHT" "sl_head sl' = sl_head sl"
  using generate_random_level_bounds [OF assms] by (auto simp: MAX_HEAD_HEIGHT_def)

lemma sl_insert_run:
  assumes s: "sl_insert dbg cmp sl h key val = ret (p, sl', h')" and i: "in_memory e base sl (h, W, m)"
  shows "\<exists>W' m'. (heap_step e base)\<^sup>*\<^sup>* (h, W, m) (h', W', m') \<and> in_memory e base sl' (h', W', m')"
proof -
  obtain t where t: "search cmp sl (h_nodes h) key = ret t" using s by (auto simp: sl_insert_def cbind_eq_ret_iff)
  have p: "node_inv e (addr_of base) (h_nodes h, W, m)" "node_ptr_ok (h_nodes h) (sl_head sl)"
    using i by (simp_all add: in_memory_def del: node_inv.simps)
  have c: "ctx_ok (h_nodes h) t" by (rule search_closed [OF t node_inv_closed [OF p(1)] p(2)])
  show ?thesis
  proof (cases "searched_node t")
    case None
    obtain hgt sl1 where g: "generate_random_level (sl\<lparr>sl_entries := (sl_entries sl + 1) mod usize_limit\<rparr>) = (hgt, sl1)" by fastforce
    note hg = level_kept [OF g]
    let ?k = "length key mod u16_limit" let ?v = "length val mod u32_limit"
    let ?w = "\<lambda>st q. rbind (write_payload st q 0 key) (\<lambda>st. write_value st q val)"
    obtain q h1 where n: "node_alloc dbg h hgt ?k ?v = ret (q, h1)"
      and w0: "(case ?w (h_nodes h1) q of Inl f \<Rightarrow> Some (Inl f)
        | Inr st \<Rightarrow> cbind (link_node cmp sl1 key q hgt (h1\<lparr>h_nodes := st\<rparr>) t) (\<lambda>(p, h'). ret (p, sl1, h'))) = ret (p, sl', h')"
      using s t None g hg(1) by (auto simp: sl_insert_def cbind_eq_ret_iff)
    obtain st' where w1: "?w (h_nodes h1) q = Inr st'" using w0 by (cases "?w (h_nodes h1) q") (auto simp: ret_def)
    obtain st where w: "write_payload (h_nodes h1) q 0 key = Inr st" "write_value st q val = Inr st'"
      using w1 by (auto simp: rbind_eq_Inr_iff)
    have l: "link_node cmp sl1 key q hgt (h1\<lparr>h_nodes := st'\<rparr>) t = ret (p, h')" and e: "sl' = sl1"
      using w0 w1 by (auto simp: cbind_eq_ret_iff)
    note af = alloc_filled [OF i n hg(1) _ _ fills_key_copy w(1) w(2), simplified]
    obtain W1 m1 where r1: "(heap_step e base)\<^sup>*\<^sup>* (h, W, m) (h1\<lparr>h_nodes := st'\<rparr>, W1, m1)"
      and i1: "in_memory e base sl (h1\<lparr>h_nodes := st'\<rparr>, W1, m1)" using af(1) by blast
    have ok: "node_ptr_ok st' x" if "node_ptr_ok (h_nodes h) x \<or> x = q" for x
      using that af(2) by (auto simp: node_ptr_ok_def shape_def fun_eq_iff dest: spec [of _ x] split: if_splits)
    then have "ctx_ok st' t" using c by (auto simp: ctx_ok_def)
    then show ?thesis using link_node_run [OF l hg(1,2) i1] ok [of q] r1 e by (auto dest: rtranclp_trans)
  qed (use s t i in \<open>auto simp: sl_insert_def ret_def cbind_def\<close>)
qed

lemma insert_with_run:
  assumes s: "insert_with dbg cmp sl h klen val f = ret (p, sl', h')" and i: "in_memory e base sl (h, W, m)"
    and k: "klen < u16_limit" "fills_key f klen"
  shows "\<exists>W' m'. (heap_step e base)\<^sup>*\<^sup>* (h, W, m) (h', W', m') \<and> in_memory e base sl' (h', W', m')"
proof -
  obtain hgt sl1 where g: "generate_random_level (sl\<lparr>sl_entries := (sl_entries sl + 1) mod usize_limit\<rparr>) = (hgt, sl1)" by fastforce
  note hg = level_kept [OF g]
  let ?w = "\<lambda>st q. rbind (f st q) (\<lambda>st. write_value st q val)"
  let ?link = "\<lambda>h1 q st n. let key = get_key_bytes n in cbind (search cmp sl1 st key) (\<lambda>t. case searched_node t of
      Some x \<Rightarrow> ret (x, sl1, h1\<lparr>h_nodes := st\<rparr>)
    | None \<Rightarrow> cbind (link_node cmp sl1 key q hgt (h1\<lparr>h_nodes := st\<rparr>) t) (\<lambda>(p, h'). ret (p, sl1, h')))"
  obtain q h1 where n: "node_alloc dbg h hgt klen (length val mod u32_limit) = ret (q, h1)"
    and w0: "(case ?w (h_nodes h1) q of Inl x \<Rightarrow> Some (Inl x)
      | Inr st \<Rightarrow> (case st q of None \<Rightarrow> Some (Inl InvalidAccess) | Some n \<Rightarrow> ?link h1 q st n)) = ret (p, sl', h')"
    using s g hg(1) by (auto simp: insert_with_def cbind_eq_ret_iff)
  obtain st' where w1: "?w (h_nodes h1) q = Inr st'" using w0 by (cases "?w (h_nodes h1) q") (auto simp: ret_def)
  obtain st where w: "f (h_nodes h1) q = Inr st" "write_value st q val = Inr st'" using w1 by (auto simp: rbind_eq_Inr_iff)
  obtain n' t where n': "st' q = Some n'" and t: "search cmp sl1 st' (get_key_bytes n') = ret t"
    and l: "(case searched_node t of Some x \<Rightarrow> ret (x, sl1, h1\<lparr>h_nodes := st'\<rparr>)
      | None \<Rightarrow> cbind (link_node cmp sl1 (get_key_bytes n') q hgt (h1\<lparr>h_nodes := st'\<rparr>) t) (\<lambda>(p, h'). ret (p, sl1, h'))) = ret (p, sl', h')"
  proof (cases "st' q")
    case (Some n)
    then show thesis using that w0 w1 by (auto simp: cbind_eq_ret_iff Let_def)
  qed (use w0 w1 in \<open>simp add: ret_def\<close>)
  note af = alloc_filled [OF i n hg(1) k(1) _ k(2) w, simplified]
  obtain W1 m1 where r1: "(heap_step e base)\<^sup>*\<^sup>* (h, W, m) (h1\<lparr>h_nodes := st'\<rparr>, W1, m1)"
    and i1: "in_memory e base sl (h1\<lparr>h_nodes := st'\<rparr>, W1, m1)" using af(1) by blast
  then have j: "in_memory e base sl1 (h1\<lparr>h_nodes := st'\<rparr>, W1, m1)" using hg(2) by (simp add: in_memory_def)
  then have "node_inv e (addr_of base) (st', W1, m1)" "node_ptr_ok st' (sl_head sl1)"
    by (simp_all add: in_memory_def del: node_inv.simps)
  then have c: "ctx_ok st' t" using search_closed [OF t node_inv_closed] by blast
  show ?thesis
  proof (cases "searched_node t")
    case None
    then have k: "link_node cmp sl1 (get_key_bytes n') q hgt (h1\<lparr>h_nodes := st'\<rparr>) t = ret (p, h')" "sl' = sl1"
      using l by (auto simp: cbind_eq_ret_iff)
    show ?thesis using link_node_run [OF k(1) hg(1,2) i1] c n' r1 k(2) by (auto simp: node_ptr_ok_def dest: rtranclp_trans)
  qed (use l r1 j in \<open>auto simp: ret_def\<close>)
qed

lemma insert_all_run:
  assumes "insert_all dbg cmp sl h kvs = ret (sl', h')" "in_memory e base sl (h, W, m)"
  shows "\<exists>W' m'. (heap_step e base)\<^sup>*\<^sup>* (h, W, m) (h', W', m') \<and> in_memory e base sl' (h', W', m')"
  using assms
proof (induction kvs arbitrary: sl h W m)
  case (Cons kv kvs)
  obtain k v where kv: "kv = (k, v)" by fastforce
  obtain p sl1 h1 where s: "sl_insert dbg cmp sl h k v = ret (p, sl1, h1)" and r: "insert_all dbg cmp sl1 h1 kvs = ret (sl', h')"
    using Cons.prems(1) by (auto simp: kv cbind_eq_ret_iff)
  obtain W1 m1 where "(heap_step e base)\<^sup>*\<^sup>* (h, W, m) (h1, W1, m1)" "in_memory e base sl1 (h1, W1, m1)"
    using sl_insert_run [OF s Cons.prems(2)] by blast
  with Cons.IH [OF r] show ?case by (meson rtranclp_trans)
qed (auto simp: ret_def)

lemma skiplist_new_run:
  assumes s: "skiplist_new dbg (empty_heap a) = ret (sl, h)" and a: "arena_inv a" "placed base (policy a)"
  shows "\<exists>W' m'. (heap_step e base)\<^sup>*\<^sup>* (empty_heap a, W, m) (h, W', m') \<and> in_memory e base sl (h, W', m')"
proof -
  obtain p where n: "node_alloc dbg (empty_heap a) MAX_HEAD_HEIGHT 0 0 = ret (p, h)" and sl: "sl_head sl = p"
    using s by (auto simp: skiplist_new_def cbind_eq_ret_iff)
  have i: "heap_inv base (empty_heap a, W, m)" using a empty_heap_ok by (simp add: empty_heap_def)
  have s: "heap_step e base (empty_heap a, W, m) (h, W(p := {}), raw_init_node e (addr_of base p) MAX_HEAD_HEIGHT 0 0 m)"
    by (rule heap_alloc [OF n]) simp_all
  note v = node_alloc_view(3) [OF empty_heap_ok [OF a(1)] n]
  have "h_nodes h = [p \<mapsto> init_node MAX_HEAD_HEIGHT 0 0]" using v by (simp add: empty_heap_def)
  then have "written (h_nodes h) (W(p := {}))" "node_ptr_ok (h_nodes h) (sl_head sl)"
    using sl by (auto simp: written_def shape_def node_ptr_ok_def init_node_def split: if_splits)
  then have "in_memory e base sl (h, W(p := {}), raw_init_node e (addr_of base p) MAX_HEAD_HEIGHT 0 0 m)"
    using heap_inv_step [OF i s] heap_run_inv [OF r_into_rtranclp [of "heap_step e base", OF s] a]
    by (simp add: in_memory_def del: node_inv.simps heap_inv.simps)
  then show ?thesis using s by blast
qed

section \<open>Iterating over raw memory\<close>

text \<open>
  The iterator with its loads from memory: \<^verbatim>\<open>next\<close> returns the node it is at and follows the pointer in the base
  slot of its tower, and the caller reads the key and the value of that node.
\<close>

partial_function (option) raw_iter_all :: "endian \<Rightarrow> mem \<Rightarrow> nat \<Rightarrow> entry list option" where
  "raw_iter_all e m a =
     (if a = 0 then Some []
      else Option.bind (raw_iter_all e m (raw_load_next e m a 0)) (\<lambda>es.
        Some ((raw_get_key_bytes e m a, raw_get_value_bytes e m a) # es)))"

lemma raw_iter_path:
  assumes i: "node_inv e addr (st, W, m)" and w: "written st W"
  shows "path (nxt st 0) p ps Null \<Longrightarrow> raw_iter_all e m (addr p) = Some (entries st ps)"
proof (induction ps arbitrary: p)
  case Nil
  then show ?case using node_invD(1) [OF i] by (subst raw_iter_all.simps) (simp add: entries_def)
next
  case (Cons x ps)
  then obtain r where p: "p = x" "x \<noteq> Null" and r: "nxt st 0 x = Some r" "path (nxt st 0) r ps Null" by auto
  then obtain n where n: "st x = Some n" by (auto simp: nxt_def split: option.splits)
  note h = node_invD(5) [OF i n]
  have "load_next st x 0 = Inr r" using r(1) by (simp add: load_next_nxt)
  then have l: "raw_load_next e m (addr x) 0 = addr r" by (rule raw_load_eq(1) [OF i])
  have "raw_get_key_bytes e m (addr x) = get_key_bytes n" "raw_get_value_bytes e m (addr x) = get_value_bytes n"
    using writtenD [OF w n] by (auto intro!: holds_key_bytes [OF h] holds_value_bytes [OF h])
  moreover have "addr x \<noteq> 0" using node_invD(3) [OF i n] by simp
  ultimately show ?case
    using Cons.IH [OF r(2)] l p by (subst raw_iter_all.simps) (simp add: entries_def node_key_def node_val_def n)
qed

section \<open>The memory holds the list\<close>

text \<open>
  C14: The records of the skip list model are what the code keeps in raw memory. Start with an empty heap and any
  memory content, let nodes be allocated by the arena and initialised, tower slots stored and
  compare-and-swapped, keys and values copied, each with the address arithmetic of the code on the bytes of
  memory. Then at any time, for every node: the header fields read from memory are the node's, the tower height
  computed from the key pointer is its height, loading a tower slot gives the address of the pointer the record
  has there, a compare-and-swap succeeds in memory exactly when it does on the record, and once the key has been
  copied the bytes read through the code's pointers are the key of the record, and likewise for the value.
\<close>

theorem node_memory_refines:
  assumes "arena_inv a" "placed base (policy a)" "(heap_step e base)\<^sup>*\<^sup>* (empty_heap a, W\<^sub>0, m\<^sub>0) (h, W, m)" "h_nodes h p = Some n"
  shows "(raw_height e m (addr_of base p) = height n \<and> raw_key_len e m (addr_of base p) = key_len n \<and>
      raw_value_len e m (addr_of base p) = value_len n \<and> raw_tower_height e m (addr_of base p) = tower_height n) \<and>
    (\<forall>level q. load_next (h_nodes h) p level = Inr q \<longrightarrow> raw_load_next e m (addr_of base p) level = addr_of base q) \<and>
    (\<forall>level x y b st'. cas_next (h_nodes h) p level x y = Inr (b, st') \<longrightarrow> node_ptr_ok (h_nodes h) x \<longrightarrow>
      node_ptr_ok (h_nodes h) y \<longrightarrow>
      fst (raw_cas_next e (addr_of base p) level (addr_of base x) (addr_of base y) m) = b) \<and>
    ({0..<key_len n} \<subseteq> W p \<longrightarrow> raw_get_key_bytes e m (addr_of base p) = get_key_bytes n) \<and>
    ({key_len n..<key_len n + value_len n} \<subseteq> W p \<longrightarrow> raw_get_value_bytes e m (addr_of base p) = get_value_bytes n)"
    (is "?header \<and> ?loads \<and> ?swaps \<and> ?key \<and> ?val")
proof -
  have i: "node_inv e (addr_of base) (h_nodes h, W, m)" by (rule heap_run_inv [OF assms(3,1,2)])
  note h = node_invD(5) [OF i assms(4)]
  have ?header
    using h holds_key_ptr(1) [OF h]
    by (simp add: holds_node_def raw_tower_height_def tower_height_def key_ptr_def raw_tower_ptr_def tower_ptr_def)
  moreover have ?loads using raw_load_eq(1) [OF i] by blast
  moreover have ?swaps using raw_cas_eq(1) [OF i] by (metis prod.collapse)
  moreover have ?key ?val using holds_key_bytes [OF h] holds_value_bytes [OF h] by blast+
  ultimately show ?thesis by blast
qed

text \<open>Chunks of the small policy of the witnesses, at multiples of 4096.\<close>

definition wit_base :: "nat \<Rightarrow> nat" where
  "wit_base c = 4096 * (c + 1)"

lemma wit_placed: "placed wit_base wit_policy"
  unfolding placed_def wit_policy_def wit_base_def
proof (intro allI impI conjI)
  fix c d :: nat assume "c \<noteq> d"
  then have "c < d \<or> d < c" by auto
  then show "4096 * (c + 1) + block_size \<lparr>block_size = 1000, cap = 10000\<rparr> \<le> 4096 * (d + 1) \<or>
     4096 * (d + 1) + block_size \<lparr>block_size = 1000, cap = 10000\<rparr> \<le> 4096 * (c + 1)" by auto
qed auto

theorem node_memory_refines_witness:
  "\<exists>a sl h W m n. arena_new wit_policy System = Inr a \<and> skiplist_new True (empty_heap a) = ret (sl, h) \<and>
     (heap_step LittleEndian wit_base)\<^sup>*\<^sup>* (empty_heap a, \<lambda>_. {}, \<lambda>_. 9) (h, W, m) \<and> h_nodes h (sl_head sl) = Some n \<and>
     raw_height LittleEndian m (addr_of wit_base (sl_head sl)) = height n"
proof -
  obtain a sl h where a: "arena_new wit_policy System = Inr a" "skiplist_new True (empty_heap a) = ret (sl, h)"
    "represents (dyn_compare True DefaultComparator) (key_valid DefaultComparator) sl h []"
    using wit_list [of True "dyn_compare True DefaultComparator" "key_valid DefaultComparator"] by blast
  have v: "arena_inv a" "policy a = wit_policy" using arena_new_inv [of wit_policy] a(1) by (auto simp: wit_policy_def policy_ok_def)
  then have pl: "placed wit_base (policy a)" using wit_placed by simp
  obtain W m where r: "(heap_step LittleEndian wit_base)\<^sup>*\<^sup>* (empty_heap a, \<lambda>_. {}, \<lambda>_. 9) (h, W, m)"
    using skiplist_new_run [OF a(2) v(1) pl] by blast
  obtain n where n: "h_nodes h (sl_head sl) = Some n"
    using a(3) by (auto simp: represents_def sl_inv_def sl_wf_def node_height_def MAX_HEAD_HEIGHT_def split: option.splits)
  show ?thesis using node_memory_refines [OF v(1) pl r n] a(1,2) r n by blast
qed

text \<open>
  C13: Building a list in raw memory: create an arena and a list on it, insert any sequence of entries that fit, and
  follow the accesses on the bytes of memory, whatever it held before. There is such a run of accesses; and after
  every one of them that has written all keys and values, starting at the address in the base slot of the head
  and following the addresses in memory ends, and the keys and values read are a sorted permutation of the
  entries inserted.
\<close>

theorem skiplist_in_memory:
  assumes "policy_ok pol" "72 \<le> block_size pol" "(length kvs + 2) * block_size pol \<le> cap pol"
    "\<forall>e \<in> set kvs. entry_ok (key_valid c) (block_size pol) e" "placed base pol"
  shows "\<exists>a sl h sl' h' es. arena_new pol System = Inr a \<and> skiplist_new dbg (empty_heap a) = ret (sl, h) \<and>
    insert_all dbg (dyn_compare dbg c) sl h kvs = ret (sl', h') \<and> mset es = mset kvs \<and>
    sorted_wrt (\<lambda>x y. dyn_compare dbg c (fst y) (fst x) \<noteq> Inr Less) es \<and>
    (\<exists>W m. (heap_step e base)\<^sup>*\<^sup>* (empty_heap a, W\<^sub>0, m\<^sub>0) (h', W, m) \<and> written (h_nodes h') W) \<and>
    (\<forall>W m. (heap_step e base)\<^sup>*\<^sup>* (empty_heap a, W\<^sub>0, m\<^sub>0) (h', W, m) \<longrightarrow> written (h_nodes h') W \<longrightarrow>
       raw_iter_all e m (raw_load_next e m (addr_of base (sl_head sl')) 0) = Some es)"
proof -
  let ?cmp = "dyn_compare dbg c" let ?es = "foldl (\<lambda>es (k, v). ins_entry ?cmp k v es) [] kvs"
  obtain a sl h where n: "arena_new pol System = Inr a" "skiplist_new dbg (empty_heap a) = ret (sl, h)"
    "represents ?cmp (key_valid c) sl h []" "policy (h_arena h) = pol" "blocks_left h (length kvs)"
    using new_list_ok [OF assms(1-3)] by blast
  obtain sl' h' where i: "insert_all dbg ?cmp sl h kvs = ret (sl', h')" "represents ?cmp (key_valid c) sl' h' ?es"
    using dyn_cmp.insert_all_ok [OF n(3), of kvs dbg] assms(4) n(4,5) by blast
  have v: "arena_inv a" "placed base (policy a)" using arena_new_inv [OF assms(1)] n(1) assms(5) by auto
  obtain W m where r: "(heap_step e base)\<^sup>*\<^sup>* (empty_heap a, W\<^sub>0, m\<^sub>0) (h, W, m)" "in_memory e base sl (h, W, m)"
    using skiplist_new_run [OF n(2) v] by blast
  obtain W' m' where r': "(heap_step e base)\<^sup>*\<^sup>* (empty_heap a, W\<^sub>0, m\<^sub>0) (h', W', m')" "written (h_nodes h') W'"
    using insert_all_run [OF i(1) r(2)] r(1) by (auto simp: in_memory_def simp del: node_inv.simps heap_inv.simps dest: rtranclp_trans)
  obtain ns where wf: "sl_wf ?cmp (key_valid c) sl' (h_nodes h') ns" and es: "entries (h_nodes h') ns = ?es"
    using i(2) by (auto simp: represents_def sl_inv_def)
  obtain it where it: "iter sl' (h_nodes h') = Inr it" "path (nxt (h_nodes h') 0) it ns Null" using iter_ok [OF wf] by blast
  have "raw_iter_all e m (raw_load_next e m (addr_of base (sl_head sl')) 0) = Some ?es"
    if "(heap_step e base)\<^sup>*\<^sup>* (empty_heap a, W\<^sub>0, m\<^sub>0) (h', W, m)" "written (h_nodes h') W" for W m
  proof -
    note iv = heap_run_inv [OF that(1) v]
    show ?thesis using raw_iter_path [OF iv that(2) it(2)] raw_load_eq(1) [OF iv it(1) [unfolded iter_def]] es by simp
  qed
  moreover have "mset ?es = mset kvs" by (simp add: mset_foldl_ins)
  moreover have "sorted_wrt (\<lambda>x y. ?cmp (fst y) (fst x) \<noteq> Inr Less) ?es" by (rule dyn_cmp.entries_sorted(1) [OF i(2)])
  ultimately show ?thesis using n(1,2) i(1) r' by blast
qed

theorem skiplist_in_memory_witness:
  "\<exists>a (sl' :: skiplist) h' es. arena_new wit_policy System = Inr a \<and> mset es = mset [([2], [7]), ([1], [8]), ([2], [9])] \<and>
    (\<exists>W m. (heap_step BigEndian wit_base)\<^sup>*\<^sup>* (empty_heap a, \<lambda>_. {}, \<lambda>_. 9) (h', W, m) \<and>
       raw_iter_all BigEndian m (raw_load_next BigEndian m (addr_of wit_base (sl_head sl')) 0) = Some es)"
proof -
  let ?kvs = "[([2], [7]), ([1], [8]), ([2], [9])] :: entry list"
  have h: "policy_ok wit_policy" "72 \<le> block_size wit_policy" "(length ?kvs + 2) * block_size wit_policy \<le> cap wit_policy"
    "\<forall>e \<in> set ?kvs. entry_ok (key_valid DefaultComparator) (block_size wit_policy) e"
    by (simp_all add: wit_policy_def policy_ok_def entry_ok_def)
  obtain a h' es W m and sl' :: skiplist where f: "arena_new wit_policy System = Inr a" "mset es = mset ?kvs"
    "(heap_step BigEndian wit_base)\<^sup>*\<^sup>* (empty_heap a, \<lambda>_. {}, \<lambda>_. 9) (h', W, m)"
    "raw_iter_all BigEndian m (raw_load_next BigEndian m (addr_of wit_base (sl_head sl')) 0) = Some es"
    using skiplist_in_memory [OF h wit_placed, of True BigEndian "\<lambda>_. {}" "\<lambda>_. 9"] by blast
  show ?thesis by (intro exI conjI) (rule f)+
qed

section \<open>Keys whose length is truncated\<close>

text \<open>Copying a key into a new node, where the node has less room than the key is long.\<close>

lemma raw_copy_past_node:
  assumes "hgt < u16_limit" "klen < u16_limit" "vlen < u32_limit" "klen + vlen < length key"
  shows "raw_copy_key e a 0 key (raw_init_node e a hgt klen vlen m) (a + node_bytes (init_node hgt klen vlen)) = key ! (klen + vlen)"
proof -
  have "holds_node e (\<lambda>_. 0) (raw_init_node e a hgt klen vlen m) a (init_node hgt klen vlen) {}"
    by (rule holds_init) (use assms in simp_all)
  note k = holds_key_ptr(1) [OF this]
  show ?thesis using assms(4) by (simp add: raw_copy_key_def k mem_write_def node_bytes_def init_node_def)
qed

text \<open>
  C37: A long key overruns its node. The length of a key of 64 KiB or more is truncated to sixteen bits for the
  allocation. If the value is shorter than what the truncation took off the length (64 KiB for keys below 128 KiB;
  with a longer value the copy ends inside the node), and the arena has room for the node with the truncated length,
  the node is allocated and \<^verbatim>\<open>insert\<close> then copies the whole key, past the end of the node: an access outside the
  memory the node owns. On raw memory, whatever it held and wherever the node is, the byte right behind the node
  is overwritten with a byte of the key.
\<close>

theorem insert_long_key_overruns:
  assumes "represents (dyn_compare dbg c) (key_valid c) sl h es" "key_valid c key" "length val < u32_limit"
    "length val < length key - length key mod u16_limit"
    "32 + length key mod u16_limit + length val \<le> block_size (policy (h_arena h))" "room h"
  shows "sl_insert dbg (dyn_compare dbg c) sl h key val = Some (Inl InvalidAccess) \<and>
    (\<exists>hgt p h' n. node_alloc dbg h hgt (length key mod u16_limit) (length val) = ret (p, h') \<and> h_nodes h' p = Some n \<and>
       length (payload n) < length key \<and>
       (\<forall>e base m. raw_copy_key e (addr_of base p) 0 key
            (raw_init_node e (addr_of base p) hgt (length key mod u16_limit) (length val) m) (addr_of base p + node_bytes n) =
          key ! (length key mod u16_limit + length val)))"
proof -
  let ?cmp = "dyn_compare dbg c" let ?k = "length key mod u16_limit" let ?v = "length val"
  obtain ns where wf: "sl_wf ?cmp (key_valid c) sl (h_nodes h) ns" and ok: "heap_ok h"
    using assms(1) by (auto simp: represents_def sl_inv_def)
  obtain t where t: "search ?cmp sl (h_nodes h) key = ret t" "searched_node t = None"
    using dyn_cmp.search_ok [OF wf assms(2)] by (auto simp: found_def)
  obtain hgt sl' where nh: "next_handle sl = (hgt, sl')" by fastforce
  note b = next_handle_props [OF nh wf]
  have k: "?k < u16_limit" by (rule mod_less_divisor) simp
  have long: "?k + ?v < length key" using assms(4) by linarith
  have "8 + 8 * hgt + ?k + ?v \<le> block_size (policy (h_arena h))" using b(8) assms(5) by linarith
  then obtain p a where n: "node_alloc dbg h hgt ?k ?v =
      ret (p, \<lparr>h_arena = a, h_nodes = (h_nodes h)(p \<mapsto> init_node hgt ?k ?v)\<rparr>)"
    using node_alloc_ok [OF ok b(2) k assms(3), of dbg] assms(6) by (auto simp: not_less)
  have w: "write_payload (st(p \<mapsto> init_node hgt ?k ?v)) p 0 key = Inl InvalidAccess" for st
    using long by (simp add: write_payload_def copy_into_def init_node_def)
  have "sl_insert dbg ?cmp sl h key val = Some (Inl InvalidAccess)"
    using n w t b(2) assms(3) by (simp add: sl_insert_handle nh)
  moreover have "length (payload (init_node hgt ?k ?v)) < length key" using long by (simp add: init_node_def)
  moreover have "hgt < u16_limit" using b(8) by simp
  ultimately show ?thesis using n raw_copy_past_node [OF _ k assms(3) long, of hgt] by (intro conjI exI) auto
qed

theorem insert_long_key_overruns_witness:
  "\<exists>a sl h. arena_new wit_policy System = Inr a \<and> skiplist_new True (empty_heap a) = ret (sl, h) \<and>
     sl_insert True (dyn_compare True DefaultComparator) sl h (replicate 65536 0) [1, 2, 3] = Some (Inl InvalidAccess)"
proof -
  obtain a sl h where l: "arena_new wit_policy System = Inr a" "skiplist_new True (empty_heap a) = ret (sl, h)"
    "represents (dyn_compare True DefaultComparator) (key_valid DefaultComparator) sl h []" "policy (h_arena h) = wit_policy"
    "blocks_left h 5"
    using wit_list [of True "dyn_compare True DefaultComparator" "key_valid DefaultComparator"] by blast
  have r: "room h" using l(4,5) by (simp add: room_def blocks_left_def)
  have "sl_insert True (dyn_compare True DefaultComparator) sl h (replicate 65536 0) [1, 2, 3] = Some (Inl InvalidAccess)"
    by (rule conjunct1 [OF insert_long_key_overruns [OF l(3)]]) (use r l(4) in \<open>simp_all add: wit_policy_def key_valid_fun\<close>)
  then show ?thesis using l(1,2) by blast
qed

end
