(* ===== verification/Memtable.thy ===== *)
theory Memtable
  imports Skip_List_Spec
begin

text \<open>
  The memtable of \<^verbatim>\<open>memtable/memtable.rs\<close>: life cycle codes, the table's state (arena, node
  store and skip list), both insertions, point lookup and the internal iterator. The table is a
  multi-version store: a lookup key is a user key with a sequence number, and \<^verbatim>\<open>get\<close> returns the
  newest version of the user key that is not newer than it. \<open>ordered_store\<close> is the interface to the
  skip list the lookup rests on.
\<close>

section \<open>Codes\<close>

datatype mem_return = NotFound | MergeRet | Deleted | Value bytes

datatype mem_life_cycle = Active | Freezing | Frozen | Flushing | Flushed

fun life_cycle_as_u8 :: "mem_life_cycle \<Rightarrow> u8" where
  "life_cycle_as_u8 Active = 1"
| "life_cycle_as_u8 Freezing = 2"
| "life_cycle_as_u8 Frozen = 3"
| "life_cycle_as_u8 Flushing = 4"
| "life_cycle_as_u8 Flushed = 5"

definition life_cycle_from_u8 :: "u8 \<Rightarrow> mem_life_cycle res" where
  "life_cycle_from_u8 v =
     (if v = 1 then Inr Active else if v = 2 then Inr Freezing else if v = 3 then Inr Frozen
      else if v = 4 then Inr Flushing else if v = 5 then Inr Flushed else Inl ExplicitPanic)"

fun life_cycle_display :: "mem_life_cycle \<Rightarrow> string" where
  "life_cycle_display Active = ''Active''"
| "life_cycle_display Freezing = ''Freezing''"
| "life_cycle_display Frozen = ''Frozen''"
| "life_cycle_display Flushing = ''Flushing''"
| "life_cycle_display Flushed = ''Flushed''"

text \<open>The type states of the handle and their names.\<close>

datatype memtable_state = Mutable | Immutable | FlushedState

fun state_name :: "memtable_state \<Rightarrow> string" where
  "state_name Mutable = ''Mutable''"
| "state_name Immutable = ''Immutable''"
| "state_name FlushedState = ''Flushed''"

section \<open>State and operations\<close>

record memtable =
  mt_id :: u64
  highest_seqno :: u64
  mt_size :: u64
  requested_rotation :: bool
  lifecycle :: u8
  mt_heap :: heap
  mt_comparator :: comparator
  mt_skiplist :: skiplist

definition inner_display :: "memtable \<Rightarrow> string res" where
  "inner_display m = rbind (life_cycle_from_u8 (lifecycle m)) (\<lambda>l. Inr (''{ lifecycle: '' @ life_cycle_display l @ '' }''))"

definition memtable_display :: "memtable_state \<Rightarrow> memtable \<Rightarrow> string res" where
  "memtable_display s m =
     rbind (inner_display m) (\<lambda>i. Inr (''Memtable<'' @ state_name s @ ''> { '' @ i @ '' } ''))"

definition memtable_new :: "bool \<Rightarrow> u64 \<Rightarrow> arena_policy \<Rightarrow> allocator \<Rightarrow> comparator \<Rightarrow> memtable comp" where
  "memtable_new dbg mid pol alc cmp =
     (case arena_new pol alc of
        Inl f \<Rightarrow> Some (Inl f)
      | Inr a \<Rightarrow> cbind (skiplist_new dbg (empty_heap a)) (\<lambda>(sl, h).
          ret \<lparr>mt_id = mid, highest_seqno = 0, mt_size = 0, requested_rotation = False,
               lifecycle = life_cycle_as_u8 Active, mt_heap = h, mt_comparator = cmp, mt_skiplist = sl\<rparr>))"

abbreviation mt_compare :: "bool \<Rightarrow> memtable \<Rightarrow> compare" where
  "mt_compare dbg m \<equiv> dyn_compare dbg (mt_comparator m)"

abbreviation mt_nodes :: "memtable \<Rightarrow> nodes" where
  "mt_nodes m \<equiv> h_nodes (mt_heap m)"

definition first_ge :: "bool \<Rightarrow> memtable \<Rightarrow> bytes \<Rightarrow> entry option comp" where
  "first_ge dbg m key =
     cbind (search (mt_compare dbg m) (mt_skiplist m) (mt_nodes m) key) (\<lambda>t.
       let node = successors t ! 0 in
       if node \<noteq> Null then
         (case mt_nodes m node of
            None \<Rightarrow> Some (Inl InvalidAccess)
          | Some n \<Rightarrow> ret (Some (get_key_bytes n, get_value_bytes n)))
       else ret None)"

definition mt_insert :: "bool \<Rightarrow> memtable \<Rightarrow> bytes \<Rightarrow> bytes \<Rightarrow> memtable comp" where
  "mt_insert dbg m key val =
     cbind (sl_insert dbg (mt_compare dbg m) (mt_skiplist m) (mt_heap m) key val) (\<lambda>(_, sl, h).
       ret (m\<lparr>mt_skiplist := sl, mt_heap := h\<rparr>))"

text \<open>The closure of \<^verbatim>\<open>insert_direct\<close>: the user key, then the trailer, into the new node.\<close>

definition write_internal_key ::
    "bool \<Rightarrow> bytes \<Rightarrow> u64 \<Rightarrow> operation_type \<Rightarrow> nodes \<Rightarrow> ptr \<Rightarrow> nodes res" where
  "write_internal_key dbg user_key seq_no op st node_ptr =
     rbind (write_payload st node_ptr 0 user_key) (\<lambda>st.
     rbind (encode_trailer dbg seq_no op) (\<lambda>trailer.
       write_payload st node_ptr (length user_key) trailer))"

definition insert_direct ::
    "bool \<Rightarrow> memtable \<Rightarrow> bytes \<Rightarrow> u64 \<Rightarrow> operation_type \<Rightarrow> bytes \<Rightarrow> memtable comp" where
  "insert_direct dbg m user_key seq_no op val =
     cbind (insert_with dbg (mt_compare dbg m) (mt_skiplist m) (mt_heap m)
              ((length user_key + 8) mod u16_limit) val (write_internal_key dbg user_key seq_no op)) (\<lambda>(_, sl, h).
       ret (m\<lparr>mt_skiplist := sl, mt_heap := h\<rparr>))"

text \<open>The answer an entry of the list gives to a lookup key.\<close>

definition get_entry :: "bool \<Rightarrow> bytes \<Rightarrow> bytes \<Rightarrow> bytes \<Rightarrow> mem_return res" where
  "get_entry dbg key skip_key v =
     rbind (internal_key_from dbg skip_key) (\<lambda>sk.
     rbind (internal_key_from dbg key) (\<lambda>lookup.
       if ik_user_key sk \<noteq> ik_user_key lookup then Inr NotFound
       else rbind (op_from_u8 (ik_op sk)) (\<lambda>op. case op of
           Put \<Rightarrow> Inr (Value v)
         | Delete \<Rightarrow> Inr Deleted
         | Merge \<Rightarrow> Inr MergeRet
         | Max \<Rightarrow> Inl UnreachableCode)))"

definition mt_get :: "bool \<Rightarrow> memtable \<Rightarrow> bytes \<Rightarrow> mem_return comp" where
  "mt_get dbg m key =
     cbind (first_ge dbg m key) (\<lambda>r. case r of
         None \<Rightarrow> ret NotFound
       | Some (skip_key, v) \<Rightarrow> Some (get_entry dbg key skip_key v))"

section \<open>The internal iterator\<close>

record memtable_iterator =
  mi_item :: ptr
  mi_current :: "ptr option"

definition non_null :: "ptr \<Rightarrow> ptr option" where
  "non_null p = (if p = Null then None else Some p)"

definition mt_iter :: "memtable \<Rightarrow> memtable_iterator res" where
  "mt_iter m = rbind (load_next (mt_nodes m) (sl_head (mt_skiplist m)) 0) (\<lambda>p.
     Inr \<lparr>mi_item = p, mi_current = None\<rparr>)"

definition mt_iter_from :: "bool \<Rightarrow> memtable \<Rightarrow> bytes \<Rightarrow> memtable_iterator comp" where
  "mt_iter_from dbg m key = cbind (search_node (mt_compare dbg m) (mt_skiplist m) (mt_nodes m) key) (\<lambda>p.
     ret \<lparr>mi_item = p, mi_current = None\<rparr>)"

definition mi_valid :: "memtable_iterator \<Rightarrow> bool" where
  "mi_valid it \<longleftrightarrow> mi_current it \<noteq> None"

definition mi_seek_to_first :: "memtable \<Rightarrow> memtable_iterator \<Rightarrow> memtable_iterator res" where
  "mi_seek_to_first m it = rbind (load_next (mt_nodes m) (sl_head (mt_skiplist m)) 0) (\<lambda>p.
     Inr (it\<lparr>mi_item := p, mi_current := non_null p\<rparr>))"

definition mi_seek :: "bool \<Rightarrow> memtable \<Rightarrow> memtable_iterator \<Rightarrow> bytes \<Rightarrow> memtable_iterator comp" where
  "mi_seek dbg m it key = cbind (search_node (mt_compare dbg m) (mt_skiplist m) (mt_nodes m) key) (\<lambda>p.
     ret (it\<lparr>mi_item := p, mi_current := non_null p\<rparr>))"

definition mi_next :: "memtable \<Rightarrow> memtable_iterator \<Rightarrow> memtable_iterator res" where
  "mi_next m it = (case mi_current it of
       Some cur \<Rightarrow> rbind (load_next (mt_nodes m) cur 0) (\<lambda>p. Inr (it\<lparr>mi_current := non_null p\<rparr>))
     | None \<Rightarrow> Inr (it\<lparr>mi_current := None\<rparr>))"

definition node_at :: "nodes \<Rightarrow> ptr \<Rightarrow> node res" where
  "node_at st p = (case st p of None \<Rightarrow> Inl InvalidAccess | Some n \<Rightarrow> Inr n)"

definition mi_key :: "bool \<Rightarrow> memtable \<Rightarrow> memtable_iterator \<Rightarrow> bytes res" where
  "mi_key dbg m it = rbind (debug_assert dbg (mi_valid it)) (\<lambda>_. case mi_current it of
       None \<Rightarrow> Inl UnwrapNone
     | Some p \<Rightarrow> rbind (node_at (mt_nodes m) p) (\<lambda>n. Inr (get_key_bytes n)))"

definition mi_value :: "bool \<Rightarrow> memtable \<Rightarrow> memtable_iterator \<Rightarrow> bytes res" where
  "mi_value dbg m it = rbind (debug_assert dbg (mi_valid it)) (\<lambda>_. case mi_current it of
       None \<Rightarrow> Inl UnwrapNone
     | Some p \<Rightarrow> rbind (node_at (mt_nodes m) p) (\<lambda>n. Inr (get_value_bytes n)))"

definition mi_internal_key :: "bool \<Rightarrow> memtable \<Rightarrow> memtable_iterator \<Rightarrow> internal_key_ref option res" where
  "mi_internal_key dbg m it = (case mi_current it of
       None \<Rightarrow> Inr None
     | Some p \<Rightarrow> rbind (node_at (mt_nodes m) p) (\<lambda>n.
         rbind (internal_key_from dbg (get_key_bytes n)) (\<lambda>k. Inr (Some k))))"

section \<open>The interface to an ordered store\<close>

text \<open>
  What point lookups rely on: the store holds a sorted list of entries and \<open>find\<close> returns the first
  one that is not below a key; \<open>put\<close> inserts before it.
\<close>

locale ordered_store = key_comparator cmp valid for cmp valid +
  fixes rep :: "'s \<Rightarrow> entry list \<Rightarrow> bool"
    and find :: "'s \<Rightarrow> bytes \<Rightarrow> entry option comp"
  assumes rep_sorted: "rep s es \<Longrightarrow> sorted_wrt (\<lambda>e f. cmp (fst f) (fst e) \<noteq> Inr Less) es"
    and rep_valid: "rep s es \<Longrightarrow> \<forall>e \<in> set es. valid (fst e)"
    and find_first: "rep s es \<Longrightarrow> valid k \<Longrightarrow>
      find s k = ret (case entries_from cmp k es of [] \<Rightarrow> None | e # _ \<Rightarrow> Some e)"
begin

lemma find_filter:
  assumes "rep s es" "valid k"
  shows "find s k = ret (case filter (\<lambda>e. cmp (fst e) k \<noteq> Inr Less) es of [] \<Rightarrow> None | e # _ \<Rightarrow> Some e)"
  using find_first [OF assms] entries_from_filter [OF rep_sorted [OF assms(1)] rep_valid [OF assms(1)] assms(2)]
  by simp

end

locale mutable_store = ordered_store cmp valid rep find for cmp valid rep and find :: "'s \<Rightarrow> bytes \<Rightarrow> entry option comp" +
  fixes put :: "'s \<Rightarrow> bytes \<Rightarrow> bytes \<Rightarrow> 's comp"
    and small :: "bytes \<Rightarrow> bytes \<Rightarrow> bool"
  assumes put_rep: "rep s es \<Longrightarrow> valid k \<Longrightarrow> small k v \<Longrightarrow> put s k v = ret s' \<Longrightarrow> rep s' (ins_entry cmp k v es)"
begin

lemma put_find:
  assumes "rep s es" "valid k" "small k v" "put s k v = ret s'"
  shows "find s' k = ret (Some (k, v))"
  using find_first [OF put_rep [OF assms] assms(2)] by (simp add: entries_from_ins_entry [OF assms(2)])

end

text \<open>The entries of a memtable.\<close>

definition mt_rep :: "bool \<Rightarrow> comparator \<Rightarrow> memtable \<Rightarrow> entry list \<Rightarrow> bool" where
  "mt_rep dbg c m es \<longleftrightarrow> mt_comparator m = c \<and>
     represents (dyn_compare dbg c) (key_valid c) (mt_skiplist m) (mt_heap m) es"

definition small_entry :: "bytes \<Rightarrow> bytes \<Rightarrow> bool" where
  "small_entry k v \<longleftrightarrow> length k < u16_limit \<and> length v < u32_limit"

lemma first_ge_search_node:
  "first_ge dbg m key = cbind (search_node (mt_compare dbg m) (mt_skiplist m) (mt_nodes m) key) (\<lambda>node.
     if node \<noteq> Null then
       (case mt_nodes m node of
          None \<Rightarrow> Some (Inl InvalidAccess)
        | Some n \<Rightarrow> ret (Some (get_key_bytes n, get_value_bytes n)))
     else ret None)"
  by (auto simp: first_ge_def search_node_def Let_def comp_defs split: option.splits sum.splits)

lemma first_ge_ok:
  assumes "mt_rep dbg c m es" "key_valid c k"
  shows "first_ge dbg m k = ret (case entries_from (dyn_compare dbg c) k es of [] \<Rightarrow> None | e # _ \<Rightarrow> Some e)"
proof -
  have r: "represents (dyn_compare dbg c) (key_valid c) (mt_skiplist m) (mt_heap m) es" and c: "mt_comparator m = c"
    using assms(1) by (simp_all add: mt_rep_def)
  from dyn_cmp.search_node_entry [OF r assms(2)] show ?thesis
    by (auto simp: first_ge_search_node c split: list.splits)
qed

lemma mt_insert_ok:
  assumes "mt_rep dbg c m es" "key_valid c k" "small_entry k v"
  shows "mt_insert dbg m k v = Some (Inl (ArenaPanic ArenaFull)) \<and> \<not> fits_and_room (mt_heap m) k v \<or>
    (\<exists>m'. mt_insert dbg m k v = ret m' \<and> mt_rep dbg c m' (ins_entry (dyn_compare dbg c) k v es) \<and>
       grows_by_one (mt_heap m) (mt_heap m'))"
  using dyn_cmp.sl_insert_ok [of dbg c "mt_skiplist m" "mt_heap m" es k v dbg] assms
  by (auto simp: mt_rep_def small_entry_def mt_insert_def)

interpretation mt: mutable_store "dyn_compare dbg c" "key_valid c" "mt_rep dbg c" "first_ge dbg" "mt_insert dbg" small_entry
  for dbg c
proof unfold_locales
  fix m es k v m'
  assume r: "mt_rep dbg c m es"
  then have rp: "represents (dyn_compare dbg c) (key_valid c) (mt_skiplist m) (mt_heap m) es" by (simp add: mt_rep_def)
  show "sorted_wrt (\<lambda>e f. dyn_compare dbg c (fst f) (fst e) \<noteq> Inr Less) es" "\<forall>e \<in> set es. key_valid c (fst e)"
    using dyn_cmp.entries_sorted [OF rp] by simp_all
  assume k: "key_valid c k"
  show "first_ge dbg m k = ret (case entries_from (dyn_compare dbg c) k es of [] \<Rightarrow> None | e # _ \<Rightarrow> Some e)"
    by (rule first_ge_ok [OF r k])
  assume "small_entry k v" "mt_insert dbg m k v = ret m'"
  then show "mt_rep dbg c m' (ins_entry (dyn_compare dbg c) k v es)"
    using mt_insert_ok [OF r k, of v] by auto
qed

end
