(* ===== verification/Memtable_Versions.thy ===== *)
theory Memtable_Versions
  imports Memtable
begin

text \<open>
  The memtable as a multi-version store. Its entries are versions: a user key, a sequence number, an
  operation and a value. The list keeps the versions of a user key newest first; \<^verbatim>\<open>get\<close> with a user
  key and a sequence number returns the newest version that is not newer than it, insertions of newer
  versions do not change what an older snapshot reads, and the iterator yields all versions in order.
\<close>

section \<open>Versions\<close>

record version =
  v_user :: bytes
  v_seq :: u64
  v_op :: operation_type
  v_val :: bytes

definition enc :: "version \<Rightarrow> entry" where
  "enc v = (encoded_key (v_user v) (v_seq v) (v_op v), v_val v)"

text \<open>A version that can be stored: the sequence number fits the trailer and \<open>Max\<close> is kept for seeks.\<close>

definition version_ok :: "version \<Rightarrow> bool" where
  "version_ok v \<longleftrightarrow> unat (v_seq v) < 2 ^ 56 \<and> v_op v \<noteq> Max \<and>
     length (v_user v) + 8 < u16_limit \<and> length (v_val v) < u32_limit"

text \<open>\<open>not_newer s p v\<close>: the version is visible to a lookup with sequence number \<open>s\<close> and operation \<open>p\<close>.\<close>

definition not_newer :: "u64 \<Rightarrow> operation_type \<Rightarrow> version \<Rightarrow> bool" where
  "not_newer s p v \<longleftrightarrow> unat (v_seq v) < unat s \<or> v_seq v = s \<and> v_op v \<le> p"

definition version_before :: "version \<Rightarrow> version \<Rightarrow> bool" where
  "version_before v w \<longleftrightarrow> bytes_cmp (v_user v) (v_user w) = Less \<or>
     v_user v = v_user w \<and> \<not> not_newer (v_seq w) (v_op w) v"

definition ins_version :: "version \<Rightarrow> version list \<Rightarrow> version list" where
  "ins_version v vs = takeWhile (\<lambda>w. version_before w v) vs @ v # dropWhile (\<lambda>w. version_before w v) vs"

definition mt_versions :: "bool \<Rightarrow> memtable \<Rightarrow> version list \<Rightarrow> bool" where
  "mt_versions dbg m vs \<longleftrightarrow> mt_rep dbg InternalKeyComparator m (map enc vs) \<and> (\<forall>v \<in> set vs. version_ok v)"

text \<open>The answer a version gives to a lookup.\<close>

fun answer :: "operation_type \<Rightarrow> bytes \<Rightarrow> mem_return" where
  "answer Put v = Value v"
| "answer Delete v = Deleted"
| "answer Merge v = MergeRet"
| "answer Max v = NotFound"

definition visible :: "bytes \<Rightarrow> u64 \<Rightarrow> operation_type \<Rightarrow> version list \<Rightarrow> version list" where
  "visible uk s p vs = filter (\<lambda>v. v_user v = uk \<and> not_newer s p v) vs"

definition read_version :: "bytes \<Rightarrow> u64 \<Rightarrow> operation_type \<Rightarrow> version list \<Rightarrow> mem_return" where
  "read_version uk s p vs =
     (case visible uk s p vs of [] \<Rightarrow> NotFound | v # _ \<Rightarrow> answer (v_op v) (v_val v))"

section \<open>The order of versions is the order of their keys\<close>

lemma enc_less:
  assumes "unat (v_seq v) < 2 ^ 56" "unat s < 2 ^ 56"
  shows "internal_compare dbg (fst (enc v)) (encoded_key uk s p) = Inr Less \<longleftrightarrow>
    bytes_cmp (v_user v) uk = Less \<or> v_user v = uk \<and> \<not> not_newer s p v"
  unfolding enc_def fst_conv internal_less_encoded [OF assms]
  by (auto simp: not_newer_def word_unat_eq_iff)

lemma enc_before:
  assumes "version_ok v" "version_ok w"
  shows "internal_compare dbg (fst (enc v)) (fst (enc w)) = Inr Less \<longleftrightarrow> version_before v w"
proof -
  have w: "fst (enc w) = encoded_key (v_user w) (v_seq w) (v_op w)" by (simp add: enc_def)
  show ?thesis unfolding w version_before_def using assms by (intro enc_less) (auto simp: version_ok_def)
qed

lemma ins_version_enc:
  assumes "version_ok v" "\<forall>w \<in> set vs. version_ok w"
  shows "ins_entry (internal_compare dbg) (fst (enc v)) (v_val v) (map enc vs) = map enc (ins_version v vs)"
proof -
  have "below_key (internal_compare dbg) (fst (enc v)) (enc w) = version_before w v" if "w \<in> set vs" for w
    using enc_before [of w v dbg] assms that by (simp add: below_key_def)
  then show ?thesis
    by (simp add: ins_entry_def ins_version_def takeWhile_map dropWhile_map o_def enc_def cong: takeWhile_cong dropWhile_cong)
qed

lemma set_ins_version: "set (ins_version v vs) = insert v (set vs)"
proof -
  have "set (takeWhile (\<lambda>w. version_before w v) vs) \<union> set (dropWhile (\<lambda>w. version_before w v) vs) = set vs"
    by (metis set_append takeWhile_dropWhile_id)
  then show ?thesis by (auto simp: ins_version_def)
qed

lemma filter_ins_version:
  "\<not> P v \<Longrightarrow> filter P (ins_version v vs) = filter P vs"
  unfolding ins_version_def by (metis filter.simps(2) filter_append takeWhile_dropWhile_id)

lemma mt_versions_sorted:
  assumes "mt_versions dbg m vs"
  shows "sorted_wrt (\<lambda>v w. \<not> version_before w v) vs"
proof -
  have "sorted_wrt (\<lambda>v w. internal_compare dbg (fst (enc w)) (fst (enc v)) \<noteq> Inr Less) vs"
    using mt.rep_sorted [of dbg InternalKeyComparator m "map enc vs"] assms
    by (simp add: mt_versions_def sorted_wrt_map)
  then show ?thesis
    by (rule sorted_wrt_mono_rel [rotated]) (use assms in \<open>auto simp: enc_before mt_versions_def\<close>)
qed

section \<open>Point lookups\<close>

lemma not_before_trans_user:
  assumes "\<not> version_before w v" "bytes_cmp (v_user v) uk \<noteq> Less" "v_user v \<noteq> uk"
  shows "v_user w \<noteq> uk"
proof
  assume "v_user w = uk"
  with assms have "bytes_cmp uk (v_user v) \<noteq> Less" by (auto simp: version_before_def)
  then show False using assms(2,3) by (metis bytes_cmp_Equal bytes_cmp_swap ordering_exhaust3)
qed

text \<open>
  The first version not below the lookup key has the key's user key exactly when a version is visible,
  and then it is the first visible one.
\<close>

lemma first_not_below:
  assumes "sorted_wrt (\<lambda>v w. \<not> version_before w v) vs"
  shows "(case filter (\<lambda>v. \<not> (bytes_cmp (v_user v) uk = Less \<or> v_user v = uk \<and> \<not> not_newer s p v)) vs of
      [] \<Rightarrow> NotFound
    | v # _ \<Rightarrow> if v_user v \<noteq> uk then NotFound else answer (v_op v) (v_val v)) = read_version uk s p vs"
  using assms
proof (induction vs)
  case (Cons v vs)
  show ?case
  proof (cases "bytes_cmp (v_user v) uk = Less \<or> v_user v = uk \<and> \<not> not_newer s p v")
    case True
    then have "visible uk s p (v # vs) = visible uk s p vs" by (auto simp: visible_def)
    moreover have "\<not> \<not> (bytes_cmp (v_user v) uk = Less \<or> v_user v = uk \<and> \<not> not_newer s p v)" using True by simp
    ultimately show ?thesis using Cons unfolding read_version_def filter.simps(2) by (simp only: if_False sorted_wrt.simps)
  next
    case False
    show ?thesis
    proof (cases "v_user v = uk")
      case True
      then show ?thesis using False by (simp add: read_version_def visible_def)
    next
      case ne: False
      then have "visible uk s p (v # vs) = []"
        using not_before_trans_user [of _ v uk] Cons.prems False
        by (auto simp: visible_def filter_empty_conv)
      then show ?thesis using False ne by (simp add: read_version_def)
    qed
  qed
qed (simp add: read_version_def visible_def)

lemma get_entry_version:
  assumes "version_ok w" "unat s < 2 ^ 56"
  shows "get_entry dbg (encoded_key uk s p) (fst (enc w)) (v_val w) =
    Inr (if v_user w \<noteq> uk then NotFound else answer (v_op w) (v_val w))"
  using assms by (cases "v_op w") (auto simp: get_entry_def enc_def version_ok_def op_from_u8_def)

lemma mt_get_ok:
  assumes v: "mt_versions dbg m vs" and s: "unat s < 2 ^ 56"
  shows "mt_get dbg m (encoded_key uk s p) = ret (read_version uk s p vs)"
proof -
  let ?k = "encoded_key uk s p"
  let ?P = "\<lambda>v. \<not> (bytes_cmp (v_user v) uk = Less \<or> v_user v = uk \<and> \<not> not_newer s p v)"
  have rep: "mt_rep dbg InternalKeyComparator m (map enc vs)" and ok: "\<forall>v \<in> set vs. version_ok v"
    using v by (simp_all add: mt_versions_def)
  have "filter (\<lambda>e. internal_compare dbg (fst e) ?k \<noteq> Inr Less) (map enc vs) = map enc (filter ?P vs)"
    using ok s by (auto simp: filter_map o_def version_ok_def enc_less intro!: arg_cong [where f = "map enc"] filter_cong)
  then have f: "first_ge dbg m ?k = ret (case map enc (filter ?P vs) of [] \<Rightarrow> None | e # _ \<Rightarrow> Some e)"
    using mt.find_filter [OF rep, of ?k] by simp
  show ?thesis
  proof (cases "filter ?P vs")
    case Nil
    then show ?thesis using f first_not_below [OF mt_versions_sorted [OF v], of uk s p] by (simp add: mt_get_def)
  next
    case (Cons w ws)
    have "w \<in> set (filter ?P vs)" by (simp only: Cons list.set_intros)
    then have "version_ok w" using ok by simp
    then have "mt_get dbg m ?k = ret (if v_user w \<noteq> uk then NotFound else answer (v_op w) (v_val w))"
      using f Cons get_entry_version [of w s dbg uk p] s by (auto simp: mt_get_def ret_def enc_def)
    then show ?thesis using Cons first_not_below [OF mt_versions_sorted [OF v], of uk s p] by simp
  qed
qed

section \<open>Insertions\<close>

lemma write_internal_key_writes:
  assumes "unat s < 2 ^ 56"
  shows "writes_key (write_internal_key dbg uk s p) (encoded_key uk s p)"
proof -
  have "take (length uk) (replicate (length uk + 8 + n) (0 :: u8)) = replicate (length uk) 0" for n by simp
  then show ?thesis
    by (auto simp: writes_key_def write_internal_key_def write_payload_def copy_into_def init_node_def
        encode_trailer_eq [OF assms] encoded_key_def fun_upd_def add.commute)
qed

lemma insert_direct_ok:
  assumes v: "mt_versions dbg m vs" and ok: "version_ok nv"
  shows "insert_direct dbg m (v_user nv) (v_seq nv) (v_op nv) (v_val nv) = Some (Inl (ArenaPanic ArenaFull)) \<and>
      \<not> fits_and_room (mt_heap m) (fst (enc nv)) (v_val nv) \<or>
    (\<exists>m'. insert_direct dbg m (v_user nv) (v_seq nv) (v_op nv) (v_val nv) = ret m' \<and>
       mt_versions dbg m' (ins_version nv vs) \<and> grows_by_one (mt_heap m) (mt_heap m'))"
proof -
  let ?key = "encoded_key (v_user nv) (v_seq nv) (v_op nv)"
  have len: "length ?key < u16_limit" "length (v_val nv) < u32_limit" "(length (v_user nv) + 8) mod u16_limit = length ?key"
    using ok by (auto simp: version_ok_def)
  have rep: "mt_rep dbg InternalKeyComparator m (map enc vs)" and vok: "\<forall>v \<in> set vs. version_ok v"
    using v by (simp_all add: mt_versions_def)
  then have r: "represents (dyn_compare dbg InternalKeyComparator) (key_valid InternalKeyComparator)
      (mt_skiplist m) (mt_heap m) (map enc vs)" and c: "mt_comparator m = InternalKeyComparator"
    by (simp_all add: mt_rep_def)
  have w: "writes_key (write_internal_key dbg (v_user nv) (v_seq nv) (v_op nv)) ?key"
    using ok by (intro write_internal_key_writes) (simp add: version_ok_def)
  have ins: "ins_entry (internal_compare dbg) ?key (v_val nv) (map enc vs) = map enc (ins_version nv vs)"
    using ins_version_enc [OF ok vok, of dbg] by (simp add: enc_def)
  have vok': "\<forall>v \<in> set (ins_version nv vs). version_ok v" using ok vok by (simp add: set_ins_version)
  have key: "fst (enc nv) = ?key" by (simp add: enc_def)
  from dyn_cmp.insert_with_ok [OF r _ w len(1,2), of dbg] show ?thesis
    unfolding insert_direct_def len(3) key using c vok' ins
    by (auto simp: mt_versions_def mt_rep_def)
qed

lemma memtable_new_ok:
  assumes "policy_ok pol" "72 \<le> block_size pol" "(n + 2) * block_size pol \<le> cap pol"
  shows "\<exists>m. memtable_new dbg mid pol System InternalKeyComparator = ret m \<and> mt_versions dbg m [] \<and>
    mt_id m = mid \<and> lifecycle m = 1 \<and> policy (h_arena (mt_heap m)) = pol \<and> blocks_left (mt_heap m) n"
proof -
  obtain a sl h where "arena_new pol System = Inr a" "skiplist_new dbg (empty_heap a) = ret (sl, h)"
    "represents (dyn_compare dbg InternalKeyComparator) (key_valid InternalKeyComparator) sl h []"
    "policy (h_arena h) = pol" "blocks_left h n"
    using new_list_ok [OF assms] by blast
  then show ?thesis by (simp add: memtable_new_def mt_versions_def mt_rep_def)
qed

text \<open>A write is one \<open>insert_direct\<close>; \<open>write_all\<close> performs a sequence of them.\<close>

fun write_all :: "bool \<Rightarrow> memtable \<Rightarrow> version list \<Rightarrow> memtable comp" where
  "write_all dbg m [] = ret m"
| "write_all dbg m (v # vs) =
     cbind (insert_direct dbg m (v_user v) (v_seq v) (v_op v) (v_val v)) (\<lambda>m'. write_all dbg m' vs)"

lemma write_all_ok:
  assumes "mt_versions dbg m vs" "\<forall>v \<in> set ws. version_ok v \<and>
      40 + length (v_user v) + length (v_val v) \<le> block_size (policy (h_arena (mt_heap m)))"
    "blocks_left (mt_heap m) (length ws)"
  shows "\<exists>m'. write_all dbg m ws = ret m' \<and> mt_versions dbg m' (foldl (\<lambda>vs v. ins_version v vs) vs ws)"
  using assms
proof (induction ws arbitrary: m vs)
  case (Cons w ws)
  have ok: "version_ok w" using Cons.prems(2) by simp
  have "fits_and_room (mt_heap m) (fst (enc w)) (v_val w)"
    using Cons.prems(2,3) by (simp add: fits_and_room_def enc_def room_def blocks_left_def)
  then obtain m1 where i: "insert_direct dbg m (v_user w) (v_seq w) (v_op w) (v_val w) = ret m1"
    "mt_versions dbg m1 (ins_version w vs)" "grows_by_one (mt_heap m) (mt_heap m1)"
    using insert_direct_ok [OF Cons.prems(1) ok] by blast
  have "blocks_left (mt_heap m1) (length ws)" using blocks_left_step(2) Cons.prems(3) i(3) by simp
  moreover have "\<forall>v \<in> set ws. version_ok v \<and>
      40 + length (v_user v) + length (v_val v) \<le> block_size (policy (h_arena (mt_heap m1)))"
    using Cons.prems(2) i(3) by (simp add: grows_by_one_def)
  ultimately show ?case using Cons.IH [OF i(2)] i(1) by auto
qed simp

section \<open>Properties of lookups and writes\<close>

lemma not_newer_Max: "v_op v \<noteq> Max \<Longrightarrow> not_newer s Max v \<longleftrightarrow> unat (v_seq v) \<le> unat s"
  by (cases "v_op v") (auto simp: not_newer_def word_unat_eq_iff le_less op_less_iff)

lemma visible_newest:
  assumes "sorted_wrt (\<lambda>v w. \<not> version_before w v) vs" "visible uk s p vs = v # rest"
  shows "\<forall>w \<in> set rest. not_newer (v_seq v) (v_op v) w"
proof -
  have "sorted_wrt (\<lambda>v w. \<not> version_before w v) (v # rest)"
    using assms(1) unfolding assms(2) [symmetric] visible_def by (rule sorted_wrt_filter)
  moreover have "\<forall>w \<in> set (v # rest). v_user w = uk"
    unfolding assms(2) [symmetric] by (simp add: visible_def)
  ultimately show ?thesis by (auto simp: version_before_def)
qed

text \<open>
  A point lookup returns, and its answer is that of the newest version of the user key that is not
  newer than the lookup's sequence number and operation: its value, a deletion mark or a merge mark, or
  \<^verbatim>\<open>NotFound\<close> when there is none.
\<close>

theorem memtable_get_newest_visible:
  assumes "mt_versions dbg m vs" "unat s < 2 ^ 56"
  shows "mt_get dbg m (encoded_key uk s p) =
      ret (case visible uk s p vs of [] \<Rightarrow> NotFound | v # _ \<Rightarrow> answer (v_op v) (v_val v)) \<and>
    (\<forall>v rest. visible uk s p vs = v # rest \<longrightarrow> (\<forall>w \<in> set rest. not_newer (v_seq v) (v_op v) w))"
  using mt_get_ok [OF assms] visible_newest [OF mt_versions_sorted [OF assms(1)]]
  by (auto simp: read_version_def)

definition wit_versions :: "version list" where
  "wit_versions =
     [\<lparr>v_user = [7], v_seq = 1, v_op = Put, v_val = [11]\<rparr>,
      \<lparr>v_user = [7], v_seq = 2, v_op = Put, v_val = [12]\<rparr>,
      \<lparr>v_user = [7], v_seq = 3, v_op = Delete, v_val = []\<rparr>]"

lemma wit_memtable:
  "\<exists>m. memtable_new True 0 wit_policy System InternalKeyComparator = ret m \<and> mt_versions True m [] \<and>
     policy (h_arena (mt_heap m)) = wit_policy \<and> blocks_left (mt_heap m) 6"
  using memtable_new_ok [of wit_policy 6 True 0] by (auto simp: wit_policy_def policy_ok_def)

lemma wit_written:
  "\<exists>m m'. memtable_new True 0 wit_policy System InternalKeyComparator = ret m \<and>
     write_all True m wit_versions = ret m' \<and> mt_versions True m' (rev wit_versions) \<and>
     policy (h_arena (mt_heap m')) = policy (h_arena (mt_heap m))"
proof -
  obtain m where m: "memtable_new True 0 wit_policy System InternalKeyComparator = ret m" "mt_versions True m []"
    "policy (h_arena (mt_heap m)) = wit_policy" "blocks_left (mt_heap m) 6"
    using wit_memtable by blast
  have step: "\<exists>m1. insert_direct True m (v_user v) (v_seq v) (v_op v) (v_val v) = ret m1 \<and>
      mt_versions True m1 (ins_version v vs) \<and> policy (h_arena (mt_heap m1)) = wit_policy \<and> blocks_left (mt_heap m1) n"
    if "mt_versions True m vs" "policy (h_arena (mt_heap m)) = wit_policy" "blocks_left (mt_heap m) (Suc n)"
      "v \<in> set wit_versions" for m vs v n
  proof -
    have ok: "version_ok v" using that(4) by (auto simp: wit_versions_def version_ok_def)
    have "fits_and_room (mt_heap m) (fst (enc v)) (v_val v)"
      using that by (auto simp: fits_and_room_def enc_def room_def blocks_left_def wit_policy_def wit_versions_def)
    then show ?thesis using insert_direct_ok [OF that(1) ok] blocks_left_step(2) [OF that(3)] that(2)
      by (auto simp: grows_by_one_def)
  qed
  let ?v = "\<lambda>i. wit_versions ! i"
  have mem: "?v 0 \<in> set wit_versions" "?v 1 \<in> set wit_versions" "?v 2 \<in> set wit_versions"
    by (simp_all add: wit_versions_def)
  obtain m1 where m1: "insert_direct True m (v_user (?v 0)) (v_seq (?v 0)) (v_op (?v 0)) (v_val (?v 0)) = ret m1"
    "mt_versions True m1 (ins_version (?v 0) [])" "policy (h_arena (mt_heap m1)) = wit_policy" "blocks_left (mt_heap m1) 5"
    using step [OF m(2,3), of 5 "?v 0"] m(4) mem by auto
  obtain m2 where m2: "insert_direct True m1 (v_user (?v 1)) (v_seq (?v 1)) (v_op (?v 1)) (v_val (?v 1)) = ret m2"
    "mt_versions True m2 (ins_version (?v 1) (ins_version (?v 0) []))" "policy (h_arena (mt_heap m2)) = wit_policy"
    "blocks_left (mt_heap m2) 4"
    using step [OF m1(2,3), of 4 "?v 1"] m1(4) mem by auto
  obtain m3 where m3: "insert_direct True m2 (v_user (?v 2)) (v_seq (?v 2)) (v_op (?v 2)) (v_val (?v 2)) = ret m3"
    "mt_versions True m3 (ins_version (?v 2) (ins_version (?v 1) (ins_version (?v 0) [])))"
    "policy (h_arena (mt_heap m3)) = wit_policy"
    using step [OF m2(2,3), of 3 "?v 2"] m2(4) mem by auto
  have "ins_version (?v 2) (ins_version (?v 1) (ins_version (?v 0) [])) = rev wit_versions"
    by (simp add: wit_versions_def ins_version_def version_before_def not_newer_def op_order)
  moreover have "write_all True m wit_versions = ret m3"
    using m1(1) m2(1) m3(1) by (simp add: wit_versions_def)
  ultimately show ?thesis using m(1,3) m3(2,3) by auto
qed

theorem memtable_get_newest_visible_witness:
  "\<exists>m m'. memtable_new True 0 wit_policy System InternalKeyComparator = ret m \<and>
     write_all True m wit_versions = ret m' \<and> mt_get True m' (encoded_key [7] 2 Max) = ret (Value [12])"
proof -
  obtain m m' where w: "memtable_new True 0 wit_policy System InternalKeyComparator = ret m"
    "write_all True m wit_versions = ret m'" "mt_versions True m' (rev wit_versions)"
    using wit_written by blast
  have "visible [7] 2 Max (rev wit_versions) =
      [\<lparr>v_user = [7], v_seq = 2, v_op = Put, v_val = [12]\<rparr>, \<lparr>v_user = [7], v_seq = 1, v_op = Put, v_val = [11]\<rparr>]"
    by (simp add: visible_def wit_versions_def not_newer_def op_order)
  with memtable_get_newest_visible [OF w(3), of 2 "[7]" Max] w(1,2) show ?thesis by simp
qed

text \<open>
  C6: \<^verbatim>\<open>insert_direct\<close> writes the internal key into the new node and adds exactly the version it was
  given, in order; it panics only when the arena is full.
\<close>

theorem memtable_insert_direct_refines:
  assumes "mt_versions dbg m vs" "version_ok nv"
  shows "insert_direct dbg m (v_user nv) (v_seq nv) (v_op nv) (v_val nv) = Some (Inl (ArenaPanic ArenaFull)) \<and>
      \<not> fits_and_room (mt_heap m) (fst (enc nv)) (v_val nv) \<or>
    (\<exists>m'. insert_direct dbg m (v_user nv) (v_seq nv) (v_op nv) (v_val nv) = ret m' \<and>
       mt_versions dbg m' (ins_version nv vs))"
  using insert_direct_ok [OF assms] by blast

theorem memtable_insert_direct_refines_witness:
  "\<exists>m m'. memtable_new True 0 wit_policy System InternalKeyComparator = ret m \<and>
     insert_direct True m [7] 1 Put [11] = ret m' \<and>
     mt_versions True m' [\<lparr>v_user = [7], v_seq = 1, v_op = Put, v_val = [11]\<rparr>]"
proof -
  obtain m where m: "memtable_new True 0 wit_policy System InternalKeyComparator = ret m" "mt_versions True m []"
    "policy (h_arena (mt_heap m)) = wit_policy" "blocks_left (mt_heap m) 6"
    using wit_memtable by blast
  let ?v = "\<lparr>v_user = [7], v_seq = 1, v_op = Put, v_val = [11]\<rparr>"
  have "fits_and_room (mt_heap m) (fst (enc ?v)) [11]"
    using m(3,4) by (simp add: fits_and_room_def enc_def room_def blocks_left_def wit_policy_def)
  then obtain m' where "insert_direct True m [7] 1 Put [11] = ret m'" "mt_versions True m' (ins_version ?v [])"
    using memtable_insert_direct_refines [OF m(2), of ?v] by (auto simp: version_ok_def)
  then show ?thesis using m(1) by (auto simp: ins_version_def)
qed

text \<open>
  C5: Snapshots are stable: writing a version does not change what a lookup answers for another user
  key, or for the same user key at a sequence number the new version is newer than.
\<close>

theorem memtable_snapshot_stable:
  assumes "mt_versions dbg m vs" "version_ok nv" "unat s < 2 ^ 56"
    "insert_direct dbg m (v_user nv) (v_seq nv) (v_op nv) (v_val nv) = ret m'"
    "uk \<noteq> v_user nv \<or> \<not> not_newer s p nv"
  shows "mt_get dbg m' (encoded_key uk s p) = mt_get dbg m (encoded_key uk s p)"
proof -
  have v': "mt_versions dbg m' (ins_version nv vs)" using insert_direct_ok [OF assms(1,2)] assms(4) by auto
  have "visible uk s p (ins_version nv vs) = visible uk s p vs"
    unfolding visible_def using assms(5) by (intro filter_ins_version) auto
  then show ?thesis
    using mt_get_ok [OF v' assms(3)] mt_get_ok [OF assms(1,3)] by (simp add: read_version_def)
qed

theorem memtable_snapshot_stable_witness:
  "\<exists>m m'. mt_versions True m [\<lparr>v_user = [7], v_seq = 1, v_op = Put, v_val = [11]\<rparr>] \<and>
     insert_direct True m [7] 2 Put [12] = ret m' \<and>
     mt_get True m' (encoded_key [7] 1 Max) = mt_get True m (encoded_key [7] 1 Max)"
proof -
  let ?v1 = "\<lparr>v_user = [7], v_seq = 1, v_op = Put, v_val = [11]\<rparr>"
  let ?v2 = "\<lparr>v_user = [7], v_seq = 2, v_op = Put, v_val = [12]\<rparr>"
  obtain m0 where m0: "mt_versions True m0 []" "policy (h_arena (mt_heap m0)) = wit_policy" "blocks_left (mt_heap m0) 6"
    using wit_memtable by blast
  have ok: "version_ok ?v1" "version_ok ?v2" by (simp_all add: version_ok_def)
  have "fits_and_room (mt_heap m0) (fst (enc ?v1)) [11]"
    using m0 by (simp add: fits_and_room_def enc_def room_def blocks_left_def wit_policy_def)
  then obtain m where m: "mt_versions True m (ins_version ?v1 [])" "grows_by_one (mt_heap m0) (mt_heap m)"
    using insert_direct_ok [OF m0(1) ok(1)] by auto
  have "blocks_left (mt_heap m) 5" "policy (h_arena (mt_heap m)) = wit_policy"
    using blocks_left_step(2) [OF _ m(2), of 5] m0 m(2) by (auto simp: grows_by_one_def)
  then have "fits_and_room (mt_heap m) (fst (enc ?v2)) [12]"
    by (simp add: fits_and_room_def enc_def room_def blocks_left_def wit_policy_def)
  then obtain m' where m': "insert_direct True m (v_user ?v2) (v_seq ?v2) (v_op ?v2) (v_val ?v2) = ret m'"
    using insert_direct_ok [OF m(1) ok(2)] by auto
  have "mt_get True m' (encoded_key [7] 1 Max) = mt_get True m (encoded_key [7] 1 Max)"
    by (rule memtable_snapshot_stable [OF m(1) ok(2) _ m']) (simp_all add: not_newer_def op_order)
  then show ?thesis using m(1) m' by (auto simp: ins_version_def)
qed

text \<open>Writes with increasing sequence numbers: the visible ones are in the list newest first.\<close>

lemma visible_ins_version:
  assumes "\<forall>x \<in> set vs. unat (v_seq x) < unat (v_seq v)"
  shows "visible uk s p (ins_version v vs) =
    (if v_user v = uk \<and> not_newer s p v then v # visible uk s p vs else visible uk s p vs)"
proof (cases "v_user v = uk \<and> not_newer s p v")
  case False
  then show ?thesis
    using filter_ins_version [of "\<lambda>v. v_user v = uk \<and> not_newer s p v" v vs] by (auto simp: visible_def)
next
  case True
  let ?P = "\<lambda>x. v_user x = uk \<and> not_newer s p x"
  have "\<not> ?P x" if "x \<in> set (takeWhile (\<lambda>w. version_before w v) vs)" for x
  proof -
    have "x \<in> set vs" "version_before x v" using set_takeWhileD [OF that] by auto
    then show ?thesis using True assms by (auto simp: version_before_def not_newer_def op_order)
  qed
  then have e: "filter ?P (takeWhile (\<lambda>w. version_before w v) vs) = []" by (simp add: filter_empty_conv)
  have "filter ?P vs = filter ?P (takeWhile (\<lambda>w. version_before w v) vs) @ filter ?P (dropWhile (\<lambda>w. version_before w v) vs)"
    by (metis filter_append takeWhile_dropWhile_id)
  then show ?thesis using True e by (simp add: visible_def ins_version_def)
qed

lemma visible_history:
  assumes "sorted_wrt (\<lambda>v w. unat (v_seq v) < unat (v_seq w)) ws"
  shows "visible uk s p (foldl (\<lambda>vs v. ins_version v vs) [] ws) = rev (visible uk s p ws) \<and>
    set (foldl (\<lambda>vs v. ins_version v vs) [] ws) = set ws"
  using assms
proof (induction ws rule: rev_induct)
  case (snoc w ws)
  then have IH: "visible uk s p (foldl (\<lambda>vs v. ins_version v vs) [] ws) = rev (visible uk s p ws)"
    "set (foldl (\<lambda>vs v. ins_version v vs) [] ws) = set ws" by (auto simp: sorted_wrt_append)
  have "\<forall>x \<in> set (foldl (\<lambda>vs v. ins_version v vs) [] ws). unat (v_seq x) < unat (v_seq w)"
    using snoc.prems IH(2) by (auto simp: sorted_wrt_append)
  from visible_ins_version [OF this, of uk s p] show ?case
    using IH by (auto simp: visible_def set_ins_version)
qed (simp add: visible_def)

text \<open>Create, write and read.\<close>

lemma write_then_get:
  assumes "policy_ok pol" "72 \<le> block_size pol" "(length ws + 2) * block_size pol \<le> cap pol"
    "\<forall>v \<in> set ws. version_ok v \<and> 40 + length (v_user v) + length (v_val v) \<le> block_size pol"
    "sorted_wrt (\<lambda>v w. unat (v_seq v) < unat (v_seq w)) ws" "unat s < 2 ^ 56"
  shows "\<exists>m m'. memtable_new dbg mid pol System InternalKeyComparator = ret m \<and> write_all dbg m ws = ret m' \<and>
    mt_versions dbg m' (foldl (\<lambda>vs v. ins_version v vs) [] ws) \<and>
    mt_get dbg m' (encoded_key uk s Max) =
      ret (case rev (filter (\<lambda>v. v_user v = uk \<and> unat (v_seq v) \<le> unat s) ws) of
             [] \<Rightarrow> NotFound | v # _ \<Rightarrow> answer (v_op v) (v_val v))"
proof -
  obtain m where m: "memtable_new dbg mid pol System InternalKeyComparator = ret m" "mt_versions dbg m []"
    "policy (h_arena (mt_heap m)) = pol" "blocks_left (mt_heap m) (length ws)"
    using memtable_new_ok [OF assms(1-3), of dbg mid] by blast
  obtain m' where m': "write_all dbg m ws = ret m'" "mt_versions dbg m' (foldl (\<lambda>vs v. ins_version v vs) [] ws)"
    using write_all_ok [OF m(2), of ws] assms(4) m(3,4) by auto
  have "visible uk s Max ws = filter (\<lambda>v. v_user v = uk \<and> unat (v_seq v) \<le> unat s) ws"
    unfolding visible_def using assms(4) by (intro filter_cong) (auto simp: not_newer_Max version_ok_def)
  then have "mt_get dbg m' (encoded_key uk s Max) =
      ret (case rev (filter (\<lambda>v. v_user v = uk \<and> unat (v_seq v) \<le> unat s) ws) of
             [] \<Rightarrow> NotFound | v # _ \<Rightarrow> answer (v_op v) (v_val v))"
    using mt_get_ok [OF m'(2) assms(6), of uk Max] visible_history [OF assms(5), of uk s Max]
    by (simp add: read_version_def)
  with m(1) m' show ?thesis by blast
qed

text \<open>
  C1: Last write wins, end to end: a memtable created on an arena with enough blocks, written with
  \<^verbatim>\<open>insert_direct\<close> under increasing sequence numbers and then read at sequence number \<open>s\<close> with the seek
  operation \<open>Max\<close> answers with the last write to the user key whose sequence number is at most \<open>s\<close>.
\<close>

theorem memtable_last_write_wins:
  assumes "policy_ok pol" "72 \<le> block_size pol" "(length ws + 2) * block_size pol \<le> cap pol"
    "\<forall>v \<in> set ws. version_ok v \<and> 40 + length (v_user v) + length (v_val v) \<le> block_size pol"
    "sorted_wrt (\<lambda>v w. unat (v_seq v) < unat (v_seq w)) ws" "unat s < 2 ^ 56"
  shows "\<exists>m m'. memtable_new dbg mid pol System InternalKeyComparator = ret m \<and> write_all dbg m ws = ret m' \<and>
    mt_get dbg m' (encoded_key uk s Max) =
      ret (case rev (filter (\<lambda>v. v_user v = uk \<and> unat (v_seq v) \<le> unat s) ws) of
             [] \<Rightarrow> NotFound | v # _ \<Rightarrow> answer (v_op v) (v_val v))"
  using write_then_get [OF assms, of dbg mid uk] by blast

theorem memtable_last_write_wins_witness:
  "\<exists>m m'. memtable_new True 3 wit_policy System InternalKeyComparator = ret m \<and>
     write_all True m wit_versions = ret m' \<and> mt_get True m' (encoded_key [7] 8 Max) = ret Deleted"
proof -
  have "\<exists>m m'. memtable_new True 3 wit_policy System InternalKeyComparator = ret m \<and> write_all True m wit_versions = ret m' \<and>
    mt_get True m' (encoded_key [7] 8 Max) =
      ret (case rev (filter (\<lambda>v. v_user v = [7] \<and> unat (v_seq v) \<le> unat (8 :: u64)) wit_versions) of
             [] \<Rightarrow> NotFound | v # _ \<Rightarrow> answer (v_op v) (v_val v))"
    by (rule memtable_last_write_wins) (auto simp: wit_policy_def policy_ok_def wit_versions_def version_ok_def)
  then show ?thesis by (simp add: wit_versions_def)
qed

end
