(* ===== verification/Memtable_Memory.thy ===== *)
theory Memtable_Memory
  imports Skip_List_Memory Memtable_Versions
begin

text \<open>
  Reading the memtable from raw memory. \<^verbatim>\<open>SkipList::search\<close> and \<^verbatim>\<open>Memtable::get\<close> are written once more, with node
  addresses for pointers and every load, key and value read from the bytes of memory as the code does. They are
  shown to compute what the definitions on node records compute, and so, after any writes with
  \<^verbatim>\<open>insert_direct\<close>, to answer with the last write.
\<close>

section \<open>Search on addresses\<close>

record raw_ctx =
  raw_searched_node :: "nat option"
  raw_predecessors :: "nat list"
  raw_successors :: "nat list"

fun raw_start_level :: "endian \<Rightarrow> mem \<Rightarrow> nat \<Rightarrow> nat \<Rightarrow> nat" where
  "raw_start_level e m head 0 = 0"
| "raw_start_level e m head (Suc l) = (if raw_load_next e m head l = 0 then raw_start_level e m head l else Suc l)"

partial_function (option) raw_walk ::
    "compare \<Rightarrow> endian \<Rightarrow> mem \<Rightarrow> bytes \<Rightarrow> nat \<Rightarrow> nat \<Rightarrow> nat \<Rightarrow> (nat \<times> nat) comp" where
  "raw_walk cmp e m key level pred cur =
     (if cur = 0 then ret (pred, cur)
      else case cmp (raw_get_key_bytes e m cur) key of
          Inl f \<Rightarrow> Some (Inl f)
        | Inr r \<Rightarrow> if r = Less then raw_walk cmp e m key level cur (raw_load_next e m cur level) else ret (pred, cur))"

fun raw_search_levels :: "compare \<Rightarrow> endian \<Rightarrow> mem \<Rightarrow> bytes \<Rightarrow> nat \<Rightarrow> nat \<Rightarrow> raw_ctx \<Rightarrow> raw_ctx comp" where
  "raw_search_levels cmp e m key 0 pred t = ret t"
| "raw_search_levels cmp e m key (Suc level) pred t =
     cbind (raw_walk cmp e m key level pred (raw_load_next e m pred level)) (\<lambda>(pred', cur').
       raw_search_levels cmp e m key level pred'
         (t\<lparr>raw_predecessors := (raw_predecessors t)[level := pred'], raw_successors := (raw_successors t)[level := cur']\<rparr>))"

definition raw_search :: "compare \<Rightarrow> endian \<Rightarrow> mem \<Rightarrow> nat \<Rightarrow> nat \<Rightarrow> bytes \<Rightarrow> raw_ctx comp" where
  "raw_search cmp e m head max_level key =
     raw_search_levels cmp e m key (raw_start_level e m head max_level) head
       \<lparr>raw_searched_node = None, raw_predecessors = replicate MAX_HEAD_HEIGHT head, raw_successors = replicate MAX_HEAD_HEIGHT 0\<rparr>"

section \<open>Point lookup on addresses\<close>

definition raw_first_ge :: "compare \<Rightarrow> endian \<Rightarrow> mem \<Rightarrow> nat \<Rightarrow> nat \<Rightarrow> bytes \<Rightarrow> entry option comp" where
  "raw_first_ge cmp e m head max_level key =
     cbind (raw_search cmp e m head max_level key) (\<lambda>t.
       let node = raw_successors t ! 0 in
       if node \<noteq> 0 then ret (Some (raw_get_key_bytes e m node, raw_get_value_bytes e m node)) else ret None)"

definition raw_get :: "bool \<Rightarrow> compare \<Rightarrow> endian \<Rightarrow> mem \<Rightarrow> nat \<Rightarrow> nat \<Rightarrow> bytes \<Rightarrow> mem_return comp" where
  "raw_get dbg cmp e m head max_level key =
     cbind (raw_first_ge cmp e m head max_level key) (\<lambda>r. case r of
         None \<Rightarrow> ret NotFound
       | Some (skip_key, v) \<Rightarrow> Some (get_entry dbg key skip_key v))"

section \<open>They compute what the definitions on records compute\<close>

definition ctx_addrs :: "(ptr \<Rightarrow> nat) \<Rightarrow> traversal_ctx \<Rightarrow> raw_ctx" where
  "ctx_addrs addr t = \<lparr>raw_searched_node = map_option addr (searched_node t), raw_predecessors = map addr (predecessors t),
     raw_successors = map addr (successors t)\<rparr>"

text \<open>
  What the reading operations rely on: \<open>holds st m\<close> says that memory \<open>m\<close> is an image of the store \<open>st\<close>. Then only
  the null pointer has address 0, a load from memory gives the address of the pointer that the record has, and the
  bytes read are the key and the value.
\<close>

locale store_image =
  fixes e :: endian and addr :: "ptr \<Rightarrow> nat" and holds :: "nodes \<Rightarrow> mem \<Rightarrow> bool"
  assumes null: "addr Null = 0"
    and null_addr: "holds st m \<Longrightarrow> node_ptr_ok st p \<Longrightarrow> addr p = 0 \<longleftrightarrow> p = Null"
    and load_addr: "holds st m \<Longrightarrow> load_next st p level = Inr q \<Longrightarrow> raw_load_next e m (addr p) level = addr q"
    and load_ptr: "holds st m \<Longrightarrow> load_next st p level = Inr q \<Longrightarrow> node_ptr_ok st q"
    and key_bytes: "holds st m \<Longrightarrow> st p = Some n \<Longrightarrow> raw_get_key_bytes e m (addr p) = get_key_bytes n"
    and value_bytes: "holds st m \<Longrightarrow> st p = Some n \<Longrightarrow> raw_get_value_bytes e m (addr p) = get_value_bytes n"
begin

lemma raw_start_level_eq: "holds st m \<Longrightarrow> start_level st p n = Inr l \<Longrightarrow> raw_start_level e m (addr p) n = l"
proof (induction n)
  case (Suc n)
  then obtain q where q: "load_next st p n = Inr q" by (auto simp: rbind_eq_Inr_iff)
  then show ?case using Suc load_addr [OF Suc.prems(1) q] null_addr [OF Suc.prems(1) load_ptr [OF Suc.prems(1) q]] by auto
qed simp

lemma raw_walk_eq:
  assumes h: "holds st m" and w: "walk cmp st key l p c = ret (p', c')" and c: "node_ptr_ok st c"
  shows "raw_walk cmp e m key l (addr p) (addr c) = ret (addr p', addr c')"
proof -
  let ?P = "\<lambda>cmp st' key l p c (r :: (ptr \<times> ptr) res). st' = st \<longrightarrow> node_ptr_ok st c \<longrightarrow>
    (\<forall>p' c'. r = Inr (p', c') \<longrightarrow> raw_walk cmp e m key l (addr p) (addr c) = ret (addr p', addr c'))"
  have "?P cmp st key l p c (Inr (p', c'))"
  proof (rule walk.raw_induct [of ?P cmp st key l p c "Inr (p', c')"])
    fix loop cmp st' key l p c r
    assume IH: "\<And>cmp st' key l p c r. loop cmp st' key l p c = Some r \<Longrightarrow> ?P cmp st' key l p c r"
      and body: "(if c = Null then ret (p, c)
        else case st' c of None \<Rightarrow> Some (Inl InvalidAccess)
          | Some n \<Rightarrow> case cmp (get_key_bytes n) key of Inl f \<Rightarrow> Some (Inl f)
            | Inr o' \<Rightarrow> if o' = Less then case load_next st' c l of Inl f \<Rightarrow> Some (Inl f) | Inr nx \<Rightarrow> loop cmp st' key l c nx
                else ret (p, c)) = Some r"
    show "?P cmp st' key l p c r"
    proof (intro impI allI)
      fix p' c' assume s: "st' = st" "node_ptr_ok st c" "r = Inr (p', c')"
      consider (null) "c = Null" "p' = p" "c' = c"
        | (stop) n o' where "c \<noteq> Null" "st c = Some n" "cmp (get_key_bytes n) key = Inr o'" "o' \<noteq> Less" "p' = p" "c' = c"
        | (go) n nx where "c \<noteq> Null" "st c = Some n" "cmp (get_key_bytes n) key = Inr Less" "load_next st c l = Inr nx"
            "loop cmp st key l c nx = Some (Inr (p', c'))"
        using body s by (auto simp: ret_def split: if_splits option.splits sum.splits)
      then show "raw_walk cmp e m key l (addr p) (addr c) = ret (addr p', addr c')"
      proof cases
        case go
        have "raw_walk cmp e m key l (addr c) (addr nx) = ret (addr p', addr c')"
          using IH [OF go(5)] load_ptr [OF h go(4)] by blast
        then show ?thesis using go null_addr [OF h s(2)] key_bytes [OF h] load_addr [OF h go(4)] by (subst raw_walk.simps) simp
      qed (use null_addr [OF h s(2)] key_bytes [OF h] in \<open>subst raw_walk.simps, simp\<close>)+
    qed
  qed (use w in \<open>simp add: ret_def\<close>)
  with c show ?thesis by blast
qed

lemma raw_search_levels_eq:
  assumes h: "holds st m" and "search_levels cmp st key l p t = ret t'"
  shows "raw_search_levels cmp e m key l (addr p) (ctx_addrs addr t) = ret (ctx_addrs addr t')"
  using assms(2)
proof (induction l arbitrary: p t)
  case (Suc l)
  obtain c where c: "load_next st p l = Inr c" using Suc.prems by (auto simp: ret_def split: sum.splits)
  obtain p' c' where w: "walk cmp st key l p c = ret (p', c')"
    and r: "search_levels cmp st key l p' (t\<lparr>predecessors := (predecessors t)[l := p'], successors := (successors t)[l := c']\<rparr>) = ret t'"
    using Suc.prems c by (auto simp: cbind_eq_ret_iff)
  show ?case using raw_walk_eq [OF h w load_ptr [OF h c]] load_addr [OF h c] Suc.IH [OF r] by (simp add: ctx_addrs_def map_update)
qed (simp add: ret_def)

lemma raw_search_eq:
  assumes h: "holds st m" and "search cmp sl st key = ret t"
  shows "raw_search cmp e m (addr (sl_head sl)) (sl_max_level sl) key = ret (ctx_addrs addr t)"
proof -
  let ?t = "traversal_new\<lparr>predecessors := replicate MAX_HEAD_HEIGHT (sl_head sl)\<rparr>"
  obtain l where l: "start_level st (sl_head sl) (sl_max_level sl) = Inr l"
    and s: "search_levels cmp st key l (sl_head sl) ?t = ret t"
    using assms(2) by (auto simp: search_def ret_def Let_def split: sum.splits)
  have "ctx_addrs addr ?t = \<lparr>raw_searched_node = None, raw_predecessors = replicate MAX_HEAD_HEIGHT (addr (sl_head sl)), raw_successors = replicate MAX_HEAD_HEIGHT 0\<rparr>"
    using null by (simp add: ctx_addrs_def traversal_new_def)
  with raw_search_levels_eq [OF h s] raw_start_level_eq [OF h l] show ?thesis by (simp add: raw_search_def)
qed

end

text \<open>The image that the arena's nodes have once their keys and values are written.\<close>

definition image_of :: "endian \<Rightarrow> (nat \<Rightarrow> nat) \<Rightarrow> nodes \<Rightarrow> mem \<Rightarrow> bool" where
  "image_of e base st m \<longleftrightarrow> (\<exists>W. node_inv e (addr_of base) (st, W, m) \<and> written st W)"

interpretation img: store_image e "addr_of base" "image_of e base" for e base
proof unfold_locales
  fix st m p n assume i: "image_of e base st m"
  then obtain W where inv: "node_inv e (addr_of base) (st, W, m)" and wr: "written st W" by (auto simp: image_of_def)
  show "addr_of base p = 0 \<longleftrightarrow> p = Null" if "node_ptr_ok st p"
    using addr_eq_iff [OF inv that, of Null] node_invD(1) [OF inv] by (simp add: node_ptr_ok_def)
  show "raw_load_next e m (addr_of base p) level = addr_of base q" "node_ptr_ok st q" if "load_next st p level = Inr q" for level q
    using raw_load_eq [OF inv that] by simp_all
  assume n: "st p = Some n"
  show "raw_get_key_bytes e m (addr_of base p) = get_key_bytes n" "raw_get_value_bytes e m (addr_of base p) = get_value_bytes n"
    using node_invD(5) [OF inv n] writtenD [OF wr n] by (auto intro!: holds_key_bytes holds_value_bytes)
qed simp

text \<open>A memtable whose heap is in memory is read there with the same answers.\<close>

lemma raw_get_eq:
  assumes i: "image_of e base (mt_nodes t) m" and h: "node_ptr_ok (mt_nodes t) (sl_head (mt_skiplist t))"
    and g: "mt_get dbg t key = ret a"
  shows "raw_get dbg (mt_compare dbg t) e m (addr_of base (sl_head (mt_skiplist t))) (sl_max_level (mt_skiplist t)) key = ret a"
proof -
  obtain x where x: "search (mt_compare dbg t) (mt_skiplist t) (mt_nodes t) key = ret x"
    using g by (auto simp: mt_get_def first_ge_def cbind_eq_ret_iff)
  have c: "ctx_ok (mt_nodes t) x"
    using i search_closed [OF x node_inv_closed h] by (auto simp: image_of_def simp del: node_inv.simps)
  let ?n = "successors x ! 0"
  have z: "0 < MAX_HEAD_HEIGHT" by (simp add: MAX_HEAD_HEIGHT_def)
  have n: "node_ptr_ok (mt_nodes t) ?n" by (rule ctx_okD(2) [OF c z])
  have s: "raw_successors (ctx_addrs (addr_of base) x) ! 0 = addr_of base ?n"
    using c z by (simp add: ctx_addrs_def ctx_ok_def)
  note r = img.raw_search_eq [OF i x] img.null_addr [OF i n]
  show ?thesis
  proof (cases "?n = Null")
    case True
    then show ?thesis using g x r s by (simp add: raw_get_def raw_first_ge_def mt_get_def first_ge_def Let_def)
  next
    case False
    then obtain k where k: "mt_nodes t ?n = Some k" using n by (auto simp: node_ptr_ok_def)
    then show ?thesis
      using g x r s False img.key_bytes [OF i k] img.value_bytes [OF i k]
      by (simp add: raw_get_def raw_first_ge_def mt_get_def first_ge_def Let_def)
  qed
qed

section \<open>Writing with insert_direct\<close>

lemma encode_trailer_length: "encode_trailer dbg s op = Inr t \<Longrightarrow> length t = 8"
  by (auto simp: encode_trailer_def rbind_eq_Inr_iff u64_to_be_bytes_def)

text \<open>The closure copies the user key and behind it the trailer: together they fill the key.\<close>

lemma write_internal_key_fills:
  assumes "klen \<le> length uk + 8"
  shows "fills_key (write_internal_key dbg uk s op) klen"
  unfolding fills_key_def
proof (intro allI impI)
  fix e addr st p st' W and m :: mem
  assume "write_internal_key dbg uk s op st p = Inr st'"
  then obtain st1 t where w: "write_payload st p 0 uk = Inr st1" "encode_trailer dbg s op = Inr t"
      "write_payload st1 p (length uk) t = Inr st'"
    by (auto simp: write_internal_key_def rbind_eq_Inr_iff)
  note r = rtranclp.rtrancl_into_rtrancl [OF r_into_rtranclp [of "node_access e addr", OF node_access.step_key [OF w(1), of e addr W m]]
    node_access.step_key [OF w(3)]]
  show "\<exists>W' m'. (node_access e addr)\<^sup>*\<^sup>* (st, W, m) (st', W', m') \<and> {0..<klen} \<subseteq> W' p"
    by (intro exI conjI, rule r) (use assms encode_trailer_length [OF w(2)] in auto)
qed

abbreviation table_in_memory :: "endian \<Rightarrow> (nat \<Rightarrow> nat) \<Rightarrow> memtable \<Rightarrow> (ptr \<Rightarrow> nat set) \<Rightarrow> mem \<Rightarrow> bool" where
  "table_in_memory e base t W m \<equiv> in_memory e base (mt_skiplist t) (mt_heap t, W, m)"

lemma insert_direct_run:
  assumes "insert_direct dbg t uk s op val = ret t'" "table_in_memory e base t W m"
  shows "\<exists>W' m'. (heap_step e base)\<^sup>*\<^sup>* (mt_heap t, W, m) (mt_heap t', W', m') \<and> table_in_memory e base t' W' m'"
proof -
  let ?k = "(length uk + 8) mod u16_limit"
  have k: "?k < u16_limit" "?k \<le> length uk + 8" by simp_all
  obtain p sl h where i: "insert_with dbg (mt_compare dbg t) (mt_skiplist t) (mt_heap t) ?k val (write_internal_key dbg uk s op) = ret (p, sl, h)"
    and t': "t' = t\<lparr>mt_skiplist := sl, mt_heap := h\<rparr>"
    using assms(1) by (auto simp: insert_direct_def cbind_eq_ret_iff)
  from insert_with_run [OF i assms(2) k(1) write_internal_key_fills [OF k(2)]] show ?thesis by (simp add: t')
qed

lemma write_all_run:
  assumes "write_all dbg t ws = ret t'" "table_in_memory e base t W m"
  shows "\<exists>W' m'. (heap_step e base)\<^sup>*\<^sup>* (mt_heap t, W, m) (mt_heap t', W', m') \<and> table_in_memory e base t' W' m'"
  using assms
proof (induction ws arbitrary: t W m)
  case (Cons v ws)
  obtain t1 where s: "insert_direct dbg t (v_user v) (v_seq v) (v_op v) (v_val v) = ret t1" and r: "write_all dbg t1 ws = ret t'"
    using Cons.prems(1) by (auto simp: cbind_eq_ret_iff)
  obtain W1 m1 where "(heap_step e base)\<^sup>*\<^sup>* (mt_heap t, W, m) (mt_heap t1, W1, m1)" "table_in_memory e base t1 W1 m1"
    using insert_direct_run [OF s Cons.prems(2)] by blast
  with Cons.IH [OF r] show ?case by (meson rtranclp_trans)
qed (auto simp: ret_def)

lemma memtable_new_run:
  assumes "memtable_new dbg mid pol System c = ret t" "policy_ok pol" "placed base pol"
  obtains a W' m' where "arena_new pol System = Inr a" "arena_inv a" "placed base (policy a)"
    "(heap_step e base)\<^sup>*\<^sup>* (empty_heap a, W, m) (mt_heap t, W', m')" "table_in_memory e base t W' m'"
proof -
  obtain a where a0: "arena_new pol System = Inr a"
    using assms(1) by (cases "arena_new pol System") (auto simp: memtable_new_def ret_def)
  then obtain sl h where a: "arena_new pol System = Inr a" "skiplist_new dbg (empty_heap a) = ret (sl, h)" "mt_heap t = h" "mt_skiplist t = sl"
    using assms(1) by (auto simp: memtable_new_def cbind_eq_ret_iff)
  have v: "arena_inv a" "placed base (policy a)" using arena_new_inv [OF assms(2)] a(1) assms(3) by auto
  show thesis using skiplist_new_run [OF a(2) v, of e W m] that [OF a(1) v] a(3,4) by auto
qed

section \<open>Last write wins, in memory\<close>

text \<open>
  C3: Last write wins on the bytes of memory. Create a memtable on an arena with enough blocks and write to it with
  \<^verbatim>\<open>insert_direct\<close> under increasing sequence numbers, following the accesses on raw memory, whatever it held before.
  There is such a run of accesses; and after every one of them that has written all keys and values, \<^verbatim>\<open>get\<close> at
  sequence number \<open>s\<close>, with every pointer, length, key and value loaded from memory, ends and answers with the last
  write to the user key whose sequence number is at most \<open>s\<close>.
\<close>

theorem memtable_in_memory:
  assumes "policy_ok pol" "72 \<le> block_size pol" "(length ws + 2) * block_size pol \<le> cap pol"
    "\<forall>v \<in> set ws. version_ok v \<and> 40 + length (v_user v) + length (v_val v) \<le> block_size pol"
    "sorted_wrt (\<lambda>v w. unat (v_seq v) < unat (v_seq w)) ws" "unat s < 2 ^ 56" "placed base pol"
  shows "\<exists>a t t'. arena_new pol System = Inr a \<and> memtable_new dbg mid pol System InternalKeyComparator = ret t \<and>
    write_all dbg t ws = ret t' \<and>
    (\<exists>W m. (heap_step e base)\<^sup>*\<^sup>* (empty_heap a, W\<^sub>0, m\<^sub>0) (mt_heap t', W, m) \<and> written (mt_nodes t') W) \<and>
    (\<forall>W m. (heap_step e base)\<^sup>*\<^sup>* (empty_heap a, W\<^sub>0, m\<^sub>0) (mt_heap t', W, m) \<longrightarrow> written (mt_nodes t') W \<longrightarrow>
       raw_get dbg (internal_compare dbg) e m (addr_of base (sl_head (mt_skiplist t'))) (sl_max_level (mt_skiplist t')) (encoded_key uk s Max) =
         ret (case rev (filter (\<lambda>v. v_user v = uk \<and> unat (v_seq v) \<le> unat s) ws) of
                [] \<Rightarrow> NotFound | v # _ \<Rightarrow> answer (v_op v) (v_val v)))"
proof -
  obtain t t' where t: "memtable_new dbg mid pol System InternalKeyComparator = ret t" "write_all dbg t ws = ret t'"
    and v: "mt_versions dbg t' (foldl (\<lambda>vs v. ins_version v vs) [] ws)" and g: "mt_get dbg t' (encoded_key uk s Max) =
      ret (case rev (filter (\<lambda>v. v_user v = uk \<and> unat (v_seq v) \<le> unat s) ws) of
             [] \<Rightarrow> NotFound | v # _ \<Rightarrow> answer (v_op v) (v_val v))"
    using write_then_get [OF assms(1-6), of dbg mid uk] by blast
  obtain a W m where a: "arena_new pol System = Inr a" "arena_inv a" "placed base (policy a)"
    and r: "(heap_step e base)\<^sup>*\<^sup>* (empty_heap a, W\<^sub>0, m\<^sub>0) (mt_heap t, W, m)" "table_in_memory e base t W m"
    using memtable_new_run [OF t(1) assms(1,7)] by metis
  obtain W' m' where r': "(heap_step e base)\<^sup>*\<^sup>* (empty_heap a, W\<^sub>0, m\<^sub>0) (mt_heap t', W', m')" "table_in_memory e base t' W' m'"
    using write_all_run [OF t(2) r(2)] rtranclp_trans [OF r(1)] by blast
  then have h: "written (mt_nodes t') W'" "node_ptr_ok (mt_nodes t') (sl_head (mt_skiplist t'))"
    by (simp_all add: in_memory_def del: node_inv.simps heap_inv.simps)
  have c: "mt_compare dbg t' = internal_compare dbg" using v by (auto simp: mt_versions_def mt_rep_def fun_eq_iff)
  have "image_of e base (mt_nodes t') m"
    if "(heap_step e base)\<^sup>*\<^sup>* (empty_heap a, W\<^sub>0, m\<^sub>0) (mt_heap t', W, m)" "written (mt_nodes t') W" for W m
    using heap_run_inv [OF that(1) a(2,3)] that(2) unfolding image_of_def by blast
  from raw_get_eq [OF this h(2) g] show ?thesis using a(1) t r'(1) h(1) unfolding c by blast
qed

theorem memtable_in_memory_witness:
  "\<exists>a (t' :: memtable) W m. arena_new wit_policy System = Inr a \<and>
     (heap_step LittleEndian wit_base)\<^sup>*\<^sup>* (empty_heap a, \<lambda>_. {}, \<lambda>_. 9) (mt_heap t', W, m) \<and>
     raw_get True (internal_compare True) LittleEndian m (addr_of wit_base (sl_head (mt_skiplist t')))
       (sl_max_level (mt_skiplist t')) (encoded_key [7] 2 Max) = ret (Value [12])"
proof -
  have h: "policy_ok wit_policy" "72 \<le> block_size wit_policy" "(length wit_versions + 2) * block_size wit_policy \<le> cap wit_policy"
    "\<forall>v \<in> set wit_versions. version_ok v \<and> 40 + length (v_user v) + length (v_val v) \<le> block_size wit_policy"
    "sorted_wrt (\<lambda>v w. unat (v_seq v) < unat (v_seq w)) wit_versions" "unat (2 :: u64) < 2 ^ 56"
    by (simp_all add: wit_policy_def policy_ok_def wit_versions_def version_ok_def)
  obtain a W m and t' :: memtable where f: "arena_new wit_policy System = Inr a"
    "(heap_step LittleEndian wit_base)\<^sup>*\<^sup>* (empty_heap a, \<lambda>_. {}, \<lambda>_. 9) (mt_heap t', W, m)"
    "raw_get True (internal_compare True) LittleEndian m (addr_of wit_base (sl_head (mt_skiplist t')))
       (sl_max_level (mt_skiplist t')) (encoded_key [7] 2 Max) =
     ret (case rev (filter (\<lambda>v. v_user v = [7] \<and> unat (v_seq v) \<le> unat (2 :: u64)) wit_versions) of
            [] \<Rightarrow> NotFound | v # _ \<Rightarrow> answer (v_op v) (v_val v))"
    using memtable_in_memory [OF h wit_placed, of True 0 LittleEndian "\<lambda>_. {}" "\<lambda>_. 9" "[7]"] by blast
  show ?thesis by (intro exI conjI, rule f(1), rule f(2)) (use f(3) in \<open>simp add: wit_versions_def\<close>)
qed

end
