(* ===== verification/Memtable_Iter.thy ===== *)
theory Memtable_Iter
  imports Memtable_Versions
begin

text \<open>
  The memtable's internal iterator and its life cycle codes. \<open>mi_all\<close> is the loop every client of the
  \<^verbatim>\<open>InternalIterator\<close> trait runs: while \<^verbatim>\<open>valid\<close>, read \<^verbatim>\<open>key\<close> and \<^verbatim>\<open>value\<close>, then \<^verbatim>\<open>next\<close>.
\<close>

partial_function (option) mi_all :: "bool \<Rightarrow> memtable \<Rightarrow> memtable_iterator \<Rightarrow> entry list comp" where
  "mi_all dbg m it =
     (if mi_valid it then
        (case rbind (mi_key dbg m it) (\<lambda>k. rbind (mi_value dbg m it) (\<lambda>v. Inr (k, v))) of
           Inl f \<Rightarrow> Some (Inl f)
         | Inr e \<Rightarrow>
            (case mi_next m it of
               Inl f \<Rightarrow> Some (Inl f)
             | Inr it' \<Rightarrow> cbind (mi_all dbg m it') (\<lambda>es. ret (e # es))))
      else ret [])"

lemma non_null_simps [simp]: "non_null Null = None" "p \<noteq> Null \<Longrightarrow> non_null p = Some p"
  by (simp_all add: non_null_def)

lemma mi_all_path:
  assumes "path (nxt (mt_nodes m) 0) p xs Null" "\<forall>q \<in> set xs. mt_nodes m q \<noteq> None"
  shows "mi_all dbg m \<lparr>mi_item = i, mi_current = non_null p\<rparr> = ret (entries (mt_nodes m) xs)"
  using assms
proof (induction xs arbitrary: p)
  case Nil
  then show ?case by (subst mi_all.simps) (simp add: mi_valid_def entries_def)
next
  case (Cons x xs)
  then obtain n r where n: "mt_nodes m x = Some n" and r: "p = x" "x \<noteq> Null" "nxt (mt_nodes m) 0 x = Some r"
    "path (nxt (mt_nodes m) 0) r xs Null" by auto
  let ?it = "\<lparr>mi_item = i, mi_current = non_null p\<rparr>"
  have "mi_all dbg m ?it = cbind (mi_all dbg m \<lparr>mi_item = i, mi_current = non_null r\<rparr>)
      (\<lambda>es. ret ((get_key_bytes n, get_value_bytes n) # es))"
    by (subst mi_all.simps)
      (simp add: mi_valid_def mi_key_def mi_value_def mi_next_def node_at_def r n load_next_nxt)
  also have "\<dots> = ret (entries (mt_nodes m) (x # xs))"
    using Cons.IH [OF r(4)] Cons.prems(2) n by (simp add: entries_def node_key_def node_val_def)
  finally show ?case .
qed

text \<open>
  Positioned at the first entry, the iterator visits every entry of the table once, in order, and
  then becomes invalid.
\<close>

theorem memtable_iter_all:
  assumes "mt_rep dbg c m es"
  shows "\<exists>it. mi_seek_to_first m it0 = Inr it \<and> mi_all dbg m it = ret es"
proof -
  obtain ns where wf: "sl_wf (dyn_compare dbg c) (key_valid c) (mt_skiplist m) (mt_nodes m) ns"
    and es: "entries (mt_nodes m) ns = es"
    using assms by (auto simp: mt_rep_def represents_def sl_inv_def)
  obtain p where "load_next (mt_nodes m) (sl_head (mt_skiplist m)) 0 = Inr p" "path (nxt (mt_nodes m) 0) p ns Null"
    using iter_ok [OF wf] by (auto simp: iter_def)
  moreover from this have "mi_all dbg m \<lparr>mi_item = p, mi_current = non_null p\<rparr> = ret es"
    using mi_all_path [of m p ns dbg p] sl_wf_nodes [OF wf] es by blast
  ultimately show ?thesis by (cases it0) (auto simp: mi_seek_to_first_def)
qed

theorem memtable_iter_all_witness:
  "\<exists>m it. mi_seek_to_first m \<lparr>mi_item = Null, mi_current = None\<rparr> = Inr it \<and>
     mi_all True m it = ret (map enc (rev wit_versions))"
proof -
  obtain m where "mt_versions True m (rev wit_versions)" using wit_written by blast
  then have "mt_rep True InternalKeyComparator m (map enc (rev wit_versions))" by (simp add: mt_versions_def)
  from memtable_iter_all [OF this] show ?thesis by blast
qed

text \<open>
  C31: After \<^verbatim>\<open>seek\<close> the iterator visits exactly the entries that are not below the key, in order.
\<close>

theorem memtable_seek_collects:
  assumes "mt_rep dbg c m es" "key_valid c key"
  shows "\<exists>it. mi_seek dbg m it0 key = ret it \<and>
    mi_all dbg m it = ret (filter (\<lambda>e. dyn_compare dbg c (fst e) key \<noteq> Inr Less) es)"
proof -
  let ?cmp = "dyn_compare dbg c" and ?st = "mt_nodes m"
  obtain ns where wf: "sl_wf ?cmp (key_valid c) (mt_skiplist m) ?st ns" and es: "entries ?st ns = es"
    and c: "mt_comparator m = c"
    using assms(1) by (auto simp: mt_rep_def represents_def sl_inv_def)
  let ?xs = "dropWhile (lt ?cmp ?st key) ns"
  have "entries ?st ?xs = entries_from ?cmp key es"
    by (simp add: entries_from_def entries_split flip: es)
  also have "\<dots> = filter (\<lambda>e. ?cmp (fst e) key \<noteq> Inr Less) es"
    by (rule dyn_cmp.entries_from_filter [OF mt.rep_sorted [OF assms(1)] mt.rep_valid [OF assms(1)] assms(2)])
  finally have "mi_all dbg m \<lparr>mi_item = succ_at ?cmp ?st key ns, mi_current = non_null (succ_at ?cmp ?st key ns)\<rparr>
      = ret (filter (\<lambda>e. ?cmp (fst e) key \<noteq> Inr Less) es)"
    using mi_all_path [OF suffix_path [OF wf, of key], of dbg] sl_wf_nodes [OF wf] by (auto dest: set_dropWhileD)
  then show ?thesis
    using dyn_cmp.search_node_ok(1) [OF wf assms(2)] c by (cases it0) (auto simp: mi_seek_def)
qed

theorem memtable_seek_collects_witness:
  "\<exists>m it. mi_seek True m \<lparr>mi_item = Null, mi_current = None\<rparr> (encoded_key [7] 1 Max) = ret it \<and>
     mi_all True m it = ret [(encoded_key [7] 1 Put, [11])]"
proof -
  obtain m where "mt_versions True m (rev wit_versions)" using wit_written by blast
  then have r: "mt_rep True InternalKeyComparator m (map enc (rev wit_versions))" by (simp add: mt_versions_def)
  have "filter (\<lambda>e. internal_compare True (fst e) (encoded_key [7] 1 Max) \<noteq> Inr Less) (map enc (rev wit_versions))
      = [(encoded_key [7] 1 Put, [11])]"
    by (simp add: wit_versions_def enc_def internal_less_encoded op_order)
  with memtable_seek_collects [OF r, of "encoded_key [7] 1 Max" "\<lparr>mi_item = Null, mi_current = None\<rparr>"]
  show ?thesis by auto
qed

text \<open>
  An iterator made by \<^verbatim>\<open>iter\<close> or \<^verbatim>\<open>iter_from\<close> is not positioned: it is invalid, visits nothing and
  stays invalid under \<^verbatim>\<open>next\<close>, whatever key it was made for, until a seek.
\<close>

theorem memtable_iter_from_unpositioned:
  assumes "mt_rep dbg c m es" "key_valid c key"
  shows "\<exists>it. mt_iter_from dbg m key = ret it \<and> \<not> mi_valid it \<and> mi_all dbg m it = ret [] \<and> mi_next m it = Inr it"
proof -
  obtain ns where "sl_wf (dyn_compare dbg c) (key_valid c) (mt_skiplist m) (mt_nodes m) ns" "mt_comparator m = c"
    using assms(1) by (auto simp: mt_rep_def represents_def sl_inv_def)
  then have "mt_iter_from dbg m key =
      ret \<lparr>mi_item = succ_at (dyn_compare dbg c) (mt_nodes m) key ns, mi_current = None\<rparr>"
    using dyn_cmp.search_node_ok(1) [OF _ assms(2)] by (simp add: mt_iter_from_def)
  then show ?thesis by (auto simp: mi_valid_def mi_next_def mi_all.simps)
qed

theorem memtable_iter_from_unpositioned_witness:
  "\<exists>m it. mt_iter_from True m (encoded_key [7] 1 Max) = ret it \<and> \<not> mi_valid it \<and> mi_all True m it = ret [] \<and>
     mi_next m it = Inr it"
proof -
  obtain m where "mt_versions True m (rev wit_versions)" using wit_written by blast
  then have "mt_rep True InternalKeyComparator m (map enc (rev wit_versions))" by (simp add: mt_versions_def)
  from memtable_iter_from_unpositioned [OF this, of "encoded_key [7] 1 Max"] show ?thesis by auto
qed

text \<open>
  The life cycle byte decodes exactly the five codes and panics on every other value; a new
  memtable is active.
\<close>

theorem life_cycle_roundtrip:
  "life_cycle_from_u8 (life_cycle_as_u8 l) = Inr l \<and>
   (life_cycle_from_u8 v = Inl ExplicitPanic \<longleftrightarrow> v \<notin> life_cycle_as_u8 ` UNIV)"
proof -
  have u: "(UNIV :: mem_life_cycle set) = {Active, Freezing, Frozen, Flushing, Flushed}"
    by (auto intro: mem_life_cycle.exhaust)
  have "range life_cycle_as_u8 = {1, 2, 3, 4, 5}" unfolding u by simp
  then show ?thesis by (cases l) (simp_all add: life_cycle_from_u8_def)
qed

end
