(* ===== verification/Key_Buffers.thy ===== *)
theory Key_Buffers
  imports Internal_Key
begin

text \<open>
  The owned key buffers of \<^verbatim>\<open>key/inner_key.rs\<close>, \<^verbatim>\<open>key/lookup_key.rs\<close> and \<^verbatim>\<open>key/iter_key.rs\<close>:
  inline storage with a heap fallback behind a raw pointer. An allocation is a number; a raw pointer
  holds one, and reading through it needs the allocation to be live and long enough. The growth of a
  \<^verbatim>\<open>Vec\<close> beyond what \<^verbatim>\<open>reserve\<close> promises is the parameter \<open>grow\<close>.
\<close>

section \<open>The inner key\<close>

definition ITER_INLINE :: nat where "ITER_INLINE = 39"

record inner_key =
  inl_buf :: bytes
  in_len :: nat
  external :: "nat option"

type_synonym allocs = "nat \<Rightarrow> bytes option"

definition inner_new :: "nat \<Rightarrow> inner_key" where
  "inner_new N = \<lparr>inl_buf = replicate N 0, in_len = 0, external = None\<rparr>"

definition inner_as_slice :: "allocs \<Rightarrow> inner_key \<Rightarrow> bytes res" where
  "inner_as_slice mem k = (case external k of
      Some a \<Rightarrow> (case mem a of
          None \<Rightarrow> Inl InvalidAccess
        | Some bs \<Rightarrow> if in_len k \<le> length bs then Inr (take (in_len k) bs) else Inl InvalidAccess)
    | None \<Rightarrow> if in_len k \<le> length (inl_buf k) then Inr (take (in_len k) (inl_buf k)) else Inl OutOfBounds)"

definition set_inline :: "bool \<Rightarrow> inner_key \<Rightarrow> nat \<Rightarrow> inner_key res" where
  "set_inline dbg k len = rbind (debug_assert dbg (len \<le> length (inl_buf k))) (\<lambda>_.
     Inr (k\<lparr>in_len := len, external := None\<rparr>))"

text \<open>The pointer argument is null or an allocation.\<close>

definition set_external :: "inner_key \<Rightarrow> nat \<Rightarrow> nat option \<Rightarrow> inner_key res" where
  "set_external k len p = (case p of None \<Rightarrow> Inl UnwrapNone
     | Some a \<Rightarrow> Inr (k\<lparr>in_len := len, external := Some a\<rparr>))"

definition encode_inline :: "bool \<Rightarrow> inner_key \<Rightarrow> bytes \<Rightarrow> u64 \<Rightarrow> operation_type \<Rightarrow> inner_key res" where
  "encode_inline dbg k user_key seq_no op =
     (let total = length user_key + 8 in
      rbind (debug_assert dbg (total \<le> length (inl_buf k))) (\<lambda>_.
      rbind (set_inline dbg k total) (\<lambda>k.
        if length (inl_buf k) < total then Inl OutOfBounds
        else rbind (encode_into dbg (take total (inl_buf k)) user_key seq_no op) (\<lambda>d.
          Inr (k\<lparr>inl_buf := d @ drop total (inl_buf k)\<rparr>)))))"

definition encode_inline_from_slice :: "bool \<Rightarrow> inner_key \<Rightarrow> bytes \<Rightarrow> inner_key res" where
  "encode_inline_from_slice dbg k src =
     (let len = length src in
      rbind (debug_assert dbg (len \<le> length (inl_buf k))) (\<lambda>_.
      rbind (set_inline dbg k len) (\<lambda>k.
        if length (inl_buf k) < len then Inl OutOfBounds
        else Inr (k\<lparr>inl_buf := src @ drop len (inl_buf k)\<rparr>))))"

section \<open>Lookup keys\<close>

record lookup_key =
  lk_inner :: inner_key
  lk_buffer :: "bytes option"

text \<open>The boxed buffer of a lookup key is allocation 0.\<close>

definition lookup_key_new :: "nat \<Rightarrow> bool \<Rightarrow> bytes \<Rightarrow> u64 \<Rightarrow> operation_type \<Rightarrow> lookup_key res" where
  "lookup_key_new N dbg user_key seq_no op =
     (let total = length user_key + 8 in
      rbind (debug_assert dbg (total \<le> MAX_KEY_SIZE)) (\<lambda>_.
        if total \<le> N then
          rbind (encode_inline dbg (inner_new N) user_key seq_no op) (\<lambda>k.
            Inr \<lparr>lk_inner = k, lk_buffer = None\<rparr>)
        else
          rbind (encode_trailer dbg seq_no op) (\<lambda>trailer.
            let buffer = user_key @ trailer in
            rbind (set_external (inner_new N) total (Some 0)) (\<lambda>k.
              Inr \<lparr>lk_inner = k, lk_buffer = Some buffer\<rparr>))))"

definition lookup_key_as_ref :: "lookup_key \<Rightarrow> bytes res" where
  "lookup_key_as_ref k = inner_as_slice (\<lambda>a. if a = 0 then lk_buffer k else None) (lk_inner k)"

section \<open>Vectors\<close>

record vec =
  vec_id :: nat
  vec_len :: nat
  vec_mem :: bytes

definition vec_with_capacity :: "nat \<Rightarrow> vec" where
  "vec_with_capacity c = \<lparr>vec_id = 0, vec_len = 0, vec_mem = replicate c 0\<rparr>"

definition vec_capacity :: "vec \<Rightarrow> nat" where
  "vec_capacity v = length (vec_mem v)"

definition vec_clear :: "vec \<Rightarrow> vec" where
  "vec_clear v = v\<lparr>vec_len := 0\<rparr>"

text \<open>
  \<^verbatim>\<open>reserve(additional)\<close>: nothing when the spare capacity is enough, else a new allocation of
  \<open>grow cap (len + additional)\<close> bytes.
\<close>

definition vec_reserve :: "(nat \<Rightarrow> nat \<Rightarrow> nat) \<Rightarrow> vec \<Rightarrow> nat \<Rightarrow> vec" where
  "vec_reserve grow v additional =
     (if additional \<le> vec_capacity v - vec_len v then v
      else v\<lparr>vec_id := Suc (vec_id v),
             vec_mem := vec_mem v @ replicate (grow (vec_capacity v) (vec_len v + additional) - vec_capacity v) 0\<rparr>)"

definition vec_set_len :: "vec \<Rightarrow> nat \<Rightarrow> vec res" where
  "vec_set_len v n = (if n \<le> vec_capacity v then Inr (v\<lparr>vec_len := n\<rparr>) else Inl InvalidAccess)"

section \<open>Iterator keys\<close>

record iter_key =
  it_inner :: inner_key
  it_heap :: vec

definition iter_key_new :: "nat \<Rightarrow> iter_key" where
  "iter_key_new N = \<lparr>it_inner = inner_new N, it_heap = vec_with_capacity INITIAL_KEY_BUFFER_CAP\<rparr>"

text \<open>The heap part shared by both setters: clear, reserve, set the length, point at the buffer.\<close>

definition iter_key_prepare :: "(nat \<Rightarrow> nat \<Rightarrow> nat) \<Rightarrow> iter_key \<Rightarrow> nat \<Rightarrow> iter_key res" where
  "iter_key_prepare grow k need =
     (let heap = vec_clear (it_heap k);
          heap = (if vec_capacity heap < need then vec_reserve grow heap (need - vec_capacity heap) else heap) in
      rbind (vec_set_len heap need) (\<lambda>heap.
      rbind (set_external (it_inner k) need (Some (vec_id heap))) (\<lambda>i.
        Inr \<lparr>it_inner = i, it_heap = heap\<rparr>)))"

definition iter_key_set ::
    "(nat \<Rightarrow> nat \<Rightarrow> nat) \<Rightarrow> nat \<Rightarrow> bool \<Rightarrow> iter_key \<Rightarrow> bytes \<Rightarrow> u64 \<Rightarrow> operation_type \<Rightarrow> iter_key res" where
  "iter_key_set grow N dbg k user_key seq_no op =
     (let total = length user_key + 8 in
      rbind (debug_assert dbg (total \<le> MAX_KEY_SIZE)) (\<lambda>_.
        if total \<le> N then
          rbind (encode_inline dbg (it_inner k) user_key seq_no op) (\<lambda>i. Inr (k\<lparr>it_inner := i\<rparr>))
        else
          rbind (iter_key_prepare grow k total) (\<lambda>k.
          rbind (encode_into dbg (take total (vec_mem (it_heap k))) user_key seq_no op) (\<lambda>d.
            Inr (k\<lparr>it_heap := (it_heap k)\<lparr>vec_mem := d @ drop total (vec_mem (it_heap k))\<rparr>\<rparr>)))))"

definition iter_key_set_from_slice ::
    "(nat \<Rightarrow> nat \<Rightarrow> nat) \<Rightarrow> nat \<Rightarrow> bool \<Rightarrow> iter_key \<Rightarrow> bytes \<Rightarrow> iter_key res" where
  "iter_key_set_from_slice grow N dbg k src =
     (let len = length src in
      if len \<le> N then
        rbind (encode_inline_from_slice dbg (it_inner k) src) (\<lambda>i. Inr (k\<lparr>it_inner := i\<rparr>))
      else
        rbind (iter_key_prepare grow k len) (\<lambda>k.
          Inr (k\<lparr>it_heap := (it_heap k)\<lparr>vec_mem := src @ drop len (vec_mem (it_heap k))\<rparr>\<rparr>)))"

definition iter_key_as_slice :: "iter_key \<Rightarrow> bytes res" where
  "iter_key_as_slice k =
     inner_as_slice (\<lambda>a. if a = vec_id (it_heap k) then Some (vec_mem (it_heap k)) else None) (it_inner k)"

section \<open>Lemmas\<close>

lemma encode_inline_ok:
  assumes "unat s < 2 ^ 56" "length uk + 8 \<le> length (inl_buf k)"
  shows "encode_inline dbg k uk s p = Inr \<lparr>inl_buf = encoded_key uk s p @ drop (length uk + 8) (inl_buf k),
      in_len = length uk + 8, external = None\<rparr>"
  using assms by (cases k) (simp add: encode_inline_def Let_def set_inline_def encode_into_eq)

lemma inline_slice:
  "inner_as_slice mem \<lparr>inl_buf = a @ b, in_len = length a, external = None\<rparr> = Inr a"
  by (simp add: inner_as_slice_def)

definition iter_key_ok :: "nat \<Rightarrow> iter_key \<Rightarrow> bool" where
  "iter_key_ok N k \<longleftrightarrow> length (inl_buf (it_inner k)) = N"

lemma iter_key_prepare_fits:
  assumes "need \<le> vec_capacity (it_heap k)"
  shows "iter_key_prepare grow k need = Inr \<lparr>it_inner = (it_inner k)\<lparr>in_len := need, external := Some (vec_id (it_heap k))\<rparr>,
    it_heap = (it_heap k)\<lparr>vec_len := need\<rparr>\<rparr>"
  using assms
  by (simp add: iter_key_prepare_def Let_def vec_clear_def vec_set_len_def vec_capacity_def set_external_def)

text \<open>
  A lookup key reads back as the encoded internal key, whether it is stored inline or in the boxed
  buffer, for every inline size and every key within the size limit.
\<close>

lemma lookup_key_roundtrip:
  assumes "unat s < 2 ^ 56" "length uk + 8 \<le> MAX_KEY_SIZE"
  shows "\<exists>k. lookup_key_new N dbg uk s p = Inr k \<and> lookup_key_as_ref k = Inr (encoded_key uk s p)"
proof (cases "length uk + 8 \<le> N")
  case True
  have "length (encoded_key uk s p) = length uk + 8" by simp
  with True assms inline_slice [of _ "encoded_key uk s p" "drop (length uk + 8) (replicate N 0)"] show ?thesis
    by (simp add: lookup_key_new_def Let_def encode_inline_ok inner_new_def lookup_key_as_ref_def)
next
  case False
  then show ?thesis
    using assms by (simp add: lookup_key_new_def Let_def encode_trailer_eq set_external_def lookup_key_as_ref_def
        inner_as_slice_def encoded_key_def inner_new_def)
qed

text \<open>
  An iterator key that has been set reads back as the encoded internal key, and can be set again,
  as long as the key fits the inline buffer or the capacity of the heap buffer.
\<close>

theorem iter_key_set_roundtrip:
  assumes "iter_key_ok N k" "unat s < 2 ^ 56" "length uk + 8 \<le> MAX_KEY_SIZE"
    "length uk + 8 \<le> N \<or> length uk + 8 \<le> vec_capacity (it_heap k)"
  shows "\<exists>k'. iter_key_set grow N dbg k uk s p = Inr k' \<and> iter_key_as_slice k' = Inr (encoded_key uk s p) \<and>
    iter_key_ok N k' \<and> vec_capacity (it_heap k') = vec_capacity (it_heap k)"
proof (cases "length uk + 8 \<le> N")
  case True
  have "length (encoded_key uk s p) = length uk + 8" by simp
  with True assms inline_slice [of _ "encoded_key uk s p" "drop (length uk + 8) (inl_buf (it_inner k))"] show ?thesis
    by (simp add: iter_key_set_def Let_def encode_inline_ok iter_key_ok_def iter_key_as_slice_def)
next
  case False
  then have "length uk + 8 \<le> vec_capacity (it_heap k)" using assms(4) by simp
  with False assms show ?thesis
    by (simp add: iter_key_set_def Let_def iter_key_prepare_fits encode_into_eq iter_key_as_slice_def
        inner_as_slice_def iter_key_ok_def vec_capacity_def)
qed

theorem iter_key_set_roundtrip_witness:
  "\<exists>k'. iter_key_set (\<lambda>c r. max (2 * c) r) ITER_INLINE True (iter_key_new ITER_INLINE) (replicate 50 7) 1 Put = Inr k' \<and>
     iter_key_as_slice k' = Inr (encoded_key (replicate 50 7) 1 Put) \<and> iter_key_ok ITER_INLINE k' \<and>
     vec_capacity (it_heap k') = vec_capacity (it_heap (iter_key_new ITER_INLINE))"
  by (rule iter_key_set_roundtrip)
    (simp_all add: iter_key_ok_def iter_key_new_def inner_new_def MAX_KEY_SIZE_def ITER_INLINE_def
      vec_with_capacity_def vec_capacity_def INITIAL_KEY_BUFFER_CAP_def)

text \<open>
  C36: Setting an iterator key longer than the heap buffer but at most twice as long sets the vector's
  length past its capacity: the vector has been cleared, so reserving the difference between the two
  sizes reserves nothing, whatever the growth policy.
\<close>

theorem iter_key_set_overflows:
  assumes "N < length uk + 8" "length uk + 8 \<le> MAX_KEY_SIZE"
    "vec_capacity (it_heap k) < length uk + 8" "length uk + 8 \<le> 2 * vec_capacity (it_heap k)"
  shows "iter_key_set grow N dbg k uk s p = Inl InvalidAccess"
  using assms
  by (simp add: iter_key_set_def Let_def iter_key_prepare_def vec_clear_def vec_reserve_def vec_capacity_def vec_set_len_def)

theorem iter_key_set_overflows_witness:
  "iter_key_set (\<lambda>c r. max (2 * c) r) ITER_INLINE True (iter_key_new ITER_INLINE) (replicate 600 7) 1 Put = Inl InvalidAccess"
  by (rule iter_key_set_overflows)
    (simp_all add: iter_key_new_def MAX_KEY_SIZE_def ITER_INLINE_def vec_with_capacity_def vec_capacity_def
      INITIAL_KEY_BUFFER_CAP_def)

end
