(* ===== verification/Write_Batch.thy ===== *)
theory Write_Batch
  imports Byte_Codec
begin

text \<open>
  The write batch of \<^verbatim>\<open>db/write_batch.rs\<close>: a byte buffer with a 12-byte header (sequence number and
  operation count) followed by the encoded operations. The code only writes batches; \<open>parse_ops\<close> is a
  reader of the documented format, built on the code's own \<^verbatim>\<open>VarInt::decode\<close>, against which the
  writer is verified.
\<close>

section \<open>Operations\<close>

definition SEQ_NO_OFFSET :: nat where "SEQ_NO_OFFSET = 0"
definition BATCH_COUNT_OFFSET :: nat where "BATCH_COUNT_OFFSET = 8"
definition HEADER_SIZE :: nat where "HEADER_SIZE = 12"

definition DEFAULT_BATCH_INIT_SIZE :: nat where "DEFAULT_BATCH_INIT_SIZE = 2 ^ 10"
definition MAX_BATCH_SIZE :: nat where "MAX_BATCH_SIZE = 2 ^ 20"

datatype batch_op_type = BatchPut | BatchDelete | BatchMerge

fun batch_op_display :: "batch_op_type \<Rightarrow> string" where
  "batch_op_display BatchPut = ''Put''"
| "batch_op_display BatchDelete = ''Delete''"
| "batch_op_display BatchMerge = ''Merge''"

fun batch_op_into :: "batch_op_type \<Rightarrow> u8" where
  "batch_op_into BatchPut = 1"
| "batch_op_into BatchDelete = 2"
| "batch_op_into BatchMerge = 3"

record batch =
  b_data :: bytes
  b_max_bytes :: nat

definition batch_new :: batch where
  "batch_new = \<lparr>b_data = replicate HEADER_SIZE 0, b_max_bytes = MAX_BATCH_SIZE\<rparr>"

definition batch_new_with_capacity :: "nat \<Rightarrow> batch res" where
  "batch_new_with_capacity c =
     rbind (assert_that (c \<le> MAX_BATCH_SIZE)) (\<lambda>_.
       Inr \<lparr>b_data = replicate HEADER_SIZE 0, b_max_bytes = MAX_BATCH_SIZE\<rparr>)"

text \<open>\<^verbatim>\<open>VarInt::new(len as u32).as_slice()\<close>\<close>

definition var_len :: "nat \<Rightarrow> bytes res" where
  "var_len n = rbind (var_int_new (word_of_nat n)) (\<lambda>x. Inr (var_int_as_slice x))"

definition batch_count :: "endian \<Rightarrow> batch \<Rightarrow> nat res" where
  "batch_count e b =
     (if length (b_data b) < BATCH_COUNT_OFFSET + 4 then Inl OutOfBounds
      else read_u32_le_unsafe e (b_data b) BATCH_COUNT_OFFSET)"

text \<open>The count is a 32-bit integer: its increment panics or wraps when it overflows.\<close>

definition put_bytes :: "endian \<Rightarrow> bool \<Rightarrow> batch \<Rightarrow> bytes \<Rightarrow> bytes \<Rightarrow> batch res" where
  "put_bytes e dbg b key val =
     rbind (var_len (length key)) (\<lambda>kl.
     rbind (var_len (length val)) (\<lambda>vl.
       let data = b_data b @ [batch_op_into BatchPut] @ le_bytes 4 0 @ kl @ key @ vl @ val in
       if length data < BATCH_COUNT_OFFSET + 4 then Inl OutOfBounds
       else
         rbind (read_u32_le_unsafe e data BATCH_COUNT_OFFSET) (\<lambda>count.
           if dbg \<and> u32_limit \<le> count + 1 then Inl ArithOverflow
           else rbind (write_u32_le_unsafe data BATCH_COUNT_OFFSET ((count + 1) mod u32_limit)) (\<lambda>data.
             Inr (b\<lparr>b_data := data\<rparr>)))))"

definition batch_put :: "endian \<Rightarrow> bool \<Rightarrow> batch \<Rightarrow> bytes \<Rightarrow> bytes \<Rightarrow> batch res" where
  "batch_put e dbg b key val = put_bytes e dbg b key val"

definition batch_size :: "batch \<Rightarrow> nat" where
  "batch_size b = length (b_data b)"

definition batch_is_empty :: "batch \<Rightarrow> bool" where
  "batch_is_empty b \<longleftrightarrow> length (b_data b) = 0"

section \<open>A reader of the documented format\<close>

record batch_op =
  bo_type :: u8
  bo_cf :: nat
  bo_key :: bytes
  bo_val :: bytes

definition parse_bytes :: "bool \<Rightarrow> bytes \<Rightarrow> (bytes \<times> bytes) res" where
  "parse_bytes dbg bs = rbind (var_int_decode dbg bs) (\<lambda>(n, used).
     let r = drop used bs in
     if length r < unat n then Inl OutOfBounds else Inr (take (unat n) r, drop (unat n) r))"

definition parse_op :: "bool \<Rightarrow> bytes \<Rightarrow> (batch_op \<times> bytes) res" where
  "parse_op dbg bs =
     (if length bs < 5 then Inl OutOfBounds
      else rbind (parse_bytes dbg (drop 5 bs)) (\<lambda>(k, r).
           rbind (parse_bytes dbg r) (\<lambda>(v, r').
             Inr (\<lparr>bo_type = hd bs, bo_cf = le_val (take 4 (tl bs)), bo_key = k, bo_val = v\<rparr>, r'))))"

fun parse_ops :: "bool \<Rightarrow> nat \<Rightarrow> bytes \<Rightarrow> (batch_op list \<times> bytes) res" where
  "parse_ops dbg 0 bs = Inr ([], bs)"
| "parse_ops dbg (Suc n) bs =
     rbind (parse_op dbg bs) (\<lambda>(x, r). rbind (parse_ops dbg n r) (\<lambda>(xs, r'). Inr (x # xs, r')))"

definition parse_batch :: "endian \<Rightarrow> bool \<Rightarrow> batch \<Rightarrow> (batch_op list \<times> bytes) res" where
  "parse_batch e dbg b = rbind (batch_count e b) (\<lambda>n. parse_ops dbg n (drop HEADER_SIZE (b_data b)))"

fun put_all :: "endian \<Rightarrow> bool \<Rightarrow> batch \<Rightarrow> (bytes \<times> bytes) list \<Rightarrow> batch res" where
  "put_all e dbg b [] = Inr b"
| "put_all e dbg b ((k, v) # kvs) = rbind (batch_put e dbg b k v) (\<lambda>b'. put_all e dbg b' kvs)"

section \<open>What a put appends\<close>

definition op_bytes :: "bytes \<times> bytes \<Rightarrow> bytes" where
  "op_bytes kv = 1 # le_bytes 4 0 @ leb128 (length (fst kv)) @ fst kv @ leb128 (length (snd kv)) @ snd kv"

definition put_op :: "bytes \<times> bytes \<Rightarrow> batch_op" where
  "put_op kv = \<lparr>bo_type = batch_op_into BatchPut, bo_cf = 0, bo_key = fst kv, bo_val = snd kv\<rparr>"

definition batch_bytes :: "nat \<Rightarrow> bytes \<Rightarrow> bytes" where
  "batch_bytes n ops = replicate 8 0 @ le_bytes 4 n @ ops"

lemma length_batch_bytes: "length (batch_bytes n ops) = 12 + length ops"
  by (simp add: batch_bytes_def)

lemma be_bytes_0: "be_bytes n 0 = replicate n 0"
  by (induction n) simp_all

lemma unat_u32_of_nat: "n < 2 ^ 28 \<Longrightarrow> unat (word_of_nat n :: u32) = n"
  by (simp add: unat_of_nat)

lemma var_len_leb128: "n < 2 ^ 28 \<Longrightarrow> var_len n = Inr (leb128 n)"
  using var_int_new_leb128 [of "word_of_nat n"] by (auto simp: var_len_def unat_u32_of_nat)

lemma read_count: "read_u32_le_unsafe e (batch_bytes n ops) BATCH_COUNT_OFFSET = Inr (n mod u32_limit)"
  by (simp add: read_u32_le_unsafe_def slice_at_def batch_bytes_def BATCH_COUNT_OFFSET_def
      to_le_read_native le_val_le_bytes)

lemma write_count: "write_u32_le_unsafe (batch_bytes n ops) BATCH_COUNT_OFFSET m = Inr (batch_bytes m ops)"
  by (simp add: write_u32_le_unsafe_def copy_into_def batch_bytes_def BATCH_COUNT_OFFSET_def)

lemma put_bytes_ok:
  assumes "length k < 2 ^ 28" "length v < 2 ^ 28" "n + 1 < u32_limit"
  shows "put_bytes e dbg \<lparr>b_data = batch_bytes n ops, b_max_bytes = m\<rparr> k v
    = Inr \<lparr>b_data = batch_bytes (n + 1) (ops @ op_bytes (k, v)), b_max_bytes = m\<rparr>"
proof -
  have d: "batch_bytes n ops @ [batch_op_into BatchPut] @ le_bytes 4 0 @ leb128 (length k) @ k @ leb128 (length v) @ v
      = batch_bytes n (ops @ op_bytes (k, v))"
    by (simp add: batch_bytes_def op_bytes_def)
  have l: "BATCH_COUNT_OFFSET \<le> 8" by (simp add: BATCH_COUNT_OFFSET_def)
  show ?thesis
    using assms l
    by (simp add: put_bytes_def var_len_leb128 d [simplified] length_batch_bytes read_count write_count Let_def)
qed

lemma parse_bytes_ok:
  assumes "length k < 2 ^ 28"
  shows "parse_bytes dbg (leb128 (length k) @ k @ r) = Inr (k, r)"
proof -
  have "var_int_decode dbg (leb128 (length k) @ k @ r) = Inr (word_of_nat (length k), length (leb128 (length k)))"
    using var_int_decode_loop_leb128 [of "length k"] assms by (simp add: var_int_decode_def)
  then show ?thesis using assms by (simp add: parse_bytes_def unat_u32_of_nat)
qed

lemma parse_op_ok:
  assumes "length (fst kv) < 2 ^ 28" "length (snd kv) < 2 ^ 28"
  shows "parse_op dbg (op_bytes kv @ r) = Inr (put_op kv, r)"
proof -
  have "drop 5 (op_bytes kv @ r) = leb128 (length (fst kv)) @ fst kv @ leb128 (length (snd kv)) @ snd kv @ r"
    by (simp add: op_bytes_def)
  moreover have "take 4 (tl (op_bytes kv @ r)) = le_bytes 4 0" "hd (op_bytes kv @ r) = 1" "\<not> length (op_bytes kv @ r) < 5"
    by (simp_all add: op_bytes_def)
  ultimately show ?thesis
    using assms by (simp add: parse_op_def parse_bytes_ok put_op_def le_val_le_bytes)
qed

lemma parse_ops_ok:
  "\<forall>kv \<in> set kvs. length (fst kv) < 2 ^ 28 \<and> length (snd kv) < 2 ^ 28 \<Longrightarrow>
   parse_ops dbg (length kvs) (concat (map op_bytes kvs) @ r) = Inr (map put_op kvs, r)"
  by (induction kvs) (auto simp: parse_op_ok)

lemma put_all_ok:
  assumes "\<forall>kv \<in> set kvs. length (fst kv) < 2 ^ 28 \<and> length (snd kv) < 2 ^ 28" "n + length kvs < u32_limit"
  shows "put_all e dbg \<lparr>b_data = batch_bytes n ops, b_max_bytes = m\<rparr> kvs
    = Inr \<lparr>b_data = batch_bytes (n + length kvs) (ops @ concat (map op_bytes kvs)), b_max_bytes = m\<rparr>"
  using assms
proof (induction kvs arbitrary: n ops)
  case (Cons kv kvs)
  obtain k v where kv: "kv = (k, v)" by fastforce
  have "put_bytes e dbg \<lparr>b_data = batch_bytes n ops, b_max_bytes = m\<rparr> k v
      = Inr \<lparr>b_data = batch_bytes (n + 1) (ops @ op_bytes (k, v)), b_max_bytes = m\<rparr>"
    using Cons.prems kv by (intro put_bytes_ok) auto
  then show ?case using Cons.IH [of "n + 1"] Cons.prems kv by (simp add: batch_put_def)
qed simp

lemma batch_new_bytes: "batch_new = \<lparr>b_data = batch_bytes 0 [], b_max_bytes = MAX_BATCH_SIZE\<rparr>"
proof -
  have "le_bytes 4 0 = replicate 4 0" by (simp add: le_bytes_def be_bytes_0)
  then show ?thesis by (simp add: batch_new_def batch_bytes_def HEADER_SIZE_def flip: replicate_add)
qed

text \<open>
  C30: A batch can be read back: writing any sequence of puts (keys and values below 2^28 bytes, fewer
  than 2^32 operations) into a new batch succeeds, its count is the number of puts, and a reader of
  the documented format recovers exactly the operations, in order, with nothing left over.
\<close>

theorem batch_roundtrip:
  assumes "\<forall>kv \<in> set kvs. length (fst kv) < 2 ^ 28 \<and> length (snd kv) < 2 ^ 28" "length kvs < u32_limit"
  shows "\<exists>b. put_all e dbg batch_new kvs = Inr b \<and> batch_count e b = Inr (length kvs) \<and>
    parse_batch e dbg b = Inr (map put_op kvs, [])"
proof -
  let ?b = "\<lparr>b_data = batch_bytes (length kvs) (concat (map op_bytes kvs)), b_max_bytes = MAX_BATCH_SIZE\<rparr>"
  have "put_all e dbg batch_new kvs = Inr ?b"
    using put_all_ok [OF assms(1), of 0 e dbg "[]" MAX_BATCH_SIZE] assms(2) by (simp add: batch_new_bytes)
  moreover have c: "batch_count e ?b = Inr (length kvs)"
  proof -
    have "\<not> length (b_data ?b) < BATCH_COUNT_OFFSET + 4" by (simp add: batch_bytes_def BATCH_COUNT_OFFSET_def)
    then show ?thesis using assms(2) by (simp add: batch_count_def read_count)
  qed
  moreover have "drop HEADER_SIZE (b_data ?b) = concat (map op_bytes kvs) @ []"
    by (simp add: batch_bytes_def HEADER_SIZE_def)
  ultimately show ?thesis using parse_ops_ok [OF assms(1), of dbg "[]"] by (simp add: parse_batch_def)
qed

theorem batch_roundtrip_witness:
  "\<exists>b. put_all LittleEndian True batch_new [([1, 2], [3]), ([4], [])] = Inr b \<and>
     batch_count LittleEndian b = Inr (length [([1, 2] :: bytes, [3] :: bytes), ([4], [])]) \<and>
     parse_batch LittleEndian True b = Inr (map put_op [([1, 2], [3]), ([4], [])], [])"
  by (rule batch_roundtrip) simp_all

text \<open>
  No batch is empty in the sense of \<^verbatim>\<open>is_empty\<close>, not even one without operations: the buffer always
  holds the header.
\<close>

theorem batch_never_empty:
  assumes "put_all e dbg batch_new kvs = Inr b"
  shows "\<not> batch_is_empty b"
proof -
  have grow: "length (b_data b) \<le> length (b_data b')" if "put_bytes e dbg b k v = Inr b'" for b b' k v
    using that by (auto simp: put_bytes_def Let_def rbind_eq_Inr_iff write_u32_le_unsafe_def
        dest!: length_copy_into split: if_splits)
  have "length (b_data b0) \<le> length (b_data b)" if "put_all e dbg b0 kvs = Inr b" for b0
    using that
  proof (induction kvs arbitrary: b0)
    case (Cons kv kvs)
    obtain k v where kv: "kv = (k, v)" by fastforce
    obtain b1 where b1: "put_bytes e dbg b0 k v = Inr b1" "put_all e dbg b1 kvs = Inr b"
      using Cons.prems kv by (auto simp: rbind_eq_Inr_iff batch_put_def)
    from grow [OF b1(1)] Cons.IH [OF b1(2)] show ?case by simp
  qed simp
  from this [OF assms] show ?thesis
    by (auto simp: batch_is_empty_def batch_new_def HEADER_SIZE_def)
qed

theorem batch_never_empty_witness:
  "\<exists>b. put_all LittleEndian True batch_new [] = Inr b \<and> \<not> batch_is_empty b"
  using batch_never_empty [of LittleEndian True "[]" batch_new] by simp

text \<open>
  A key or a value of 2^28 bytes or more (below 2^32) makes the put panic: its length does not fit
  the variable-length integer.
\<close>

theorem batch_put_long_panics:
  assumes "2 ^ 28 \<le> length k" "length k < u32_limit"
  shows "batch_put e dbg b k v = Inl OutOfBounds"
proof -
  have "unat (word_of_nat (length k) :: u32) = length k" using assms(2) by (simp add: unat_of_nat)
  then have "var_int_new (word_of_nat (length k)) = Inl OutOfBounds"
    using var_int_new_fails [of "word_of_nat (length k)"] assms(1) by simp
  then show ?thesis by (simp add: batch_put_def put_bytes_def var_len_def)
qed

theorem batch_put_long_panics_witness:
  "batch_put LittleEndian True batch_new (replicate (2 ^ 28) 0) [] = Inl OutOfBounds"
  by (rule batch_put_long_panics) (simp_all only: length_replicate, simp_all)

end
