(* ===== verification/Write_Thread.thy ===== *)
theory Write_Thread
  imports Write_Batch
begin

unbundle bit_operations_syntax

text \<open>
  The group-commit queue of \<^verbatim>\<open>db/writer.rs\<close> and \<^verbatim>\<open>db/write_thread.rs\<close>: writers, the intrusive queue
  of pending writers, the linking of a write group, group formation and \<^verbatim>\<open>join\<close>, executed by one
  thread. Writers live in a store indexed by address; a raw pointer is \<open>None\<close> (null) or an address.
  The interleavings of joining threads and of a waiting follower are in theory \<open>Write_Concurrent\<close>.
\<close>

section \<open>Writers\<close>

definition INIT :: u8 where "INIT = push_bit 0 1"
definition LEADER :: u8 where "LEADER = push_bit 1 1"
definition LOCKED_WAITING :: u8 where "LOCKED_WAITING = push_bit 2 1"
definition COMPLETE :: u8 where "COMPLETE = push_bit 3 1"

type_synonym wptr = "nat option"

record writer =
  w_batch :: batch
  w_state :: u8
  link_older :: wptr
  group_next :: wptr
  w_write_group :: wptr
  w_sync :: bool

type_synonym writers = "nat \<Rightarrow> writer option"

definition writer_new :: "batch \<Rightarrow> writer" where
  "writer_new b = \<lparr>w_batch = b, w_state = 0, link_older = None, group_next = None, w_write_group = None, w_sync = True\<rparr>"

definition is_leader :: "writer \<Rightarrow> bool" where
  "is_leader w \<longleftrightarrow> w_state w AND LEADER \<noteq> 0"

definition deref :: "writers \<Rightarrow> wptr \<Rightarrow> writer res" where
  "deref st p = (case p of None \<Rightarrow> Inl InvalidAccess
     | Some a \<Rightarrow> (case st a of None \<Rightarrow> Inl InvalidAccess | Some w \<Rightarrow> Inr w))"

section \<open>The queue\<close>

record write_thread =
  newest_writer :: wptr

record write_group =
  wg_leader :: nat
  wg_last_writer :: wptr
  wg_assigned_seq_no :: u64
  wg_size :: nat
  wg_writers :: nat

definition write_group_new :: "wptr \<Rightarrow> write_group res" where
  "write_group_new leader = (case leader of
      None \<Rightarrow> Inl AssertFailed
    | Some a \<Rightarrow> Inr \<lparr>wg_leader = a, wg_last_writer = None, wg_assigned_seq_no = 0, wg_size = 0, wg_writers = 0\<rparr>)"

definition MAX_BATCH_SIZE_PER_GROUP :: nat where "MAX_BATCH_SIZE_PER_GROUP = 1048"
definition MIN_BATCH_SIZE_PER_GROUP :: nat where "MIN_BATCH_SIZE_PER_GROUP = MAX_BATCH_SIZE_PER_GROUP div 8"
definition WAIT_PAUSE_ITERATIONS :: nat where "WAIT_PAUSE_ITERATIONS = 200"
definition YIELD_PAUSE_ITERATIONS :: nat where "YIELD_PAUSE_ITERATIONS = 64"

definition write_thread_new :: write_thread where
  "write_thread_new = \<lparr>newest_writer = None\<rparr>"

text \<open>
  Linking a writer: the loop stores the value it saw into the writer and swings the head. Executed by
  one thread the compare-and-swap finds the value just loaded.
\<close>

definition link_writer :: "bool \<Rightarrow> write_thread \<Rightarrow> writers \<Rightarrow> wptr \<Rightarrow> (bool \<times> write_thread \<times> writers) res" where
  "link_writer dbg wt st p =
     rbind (if dbg then rbind (deref st p) (\<lambda>w. assert_that (w_state w AND INIT \<noteq> 0)) else Inr ()) (\<lambda>_.
     rbind (debug_assert dbg (p \<noteq> None)) (\<lambda>_.
     rbind (deref st p) (\<lambda>w.
       let cur = newest_writer wt in
       Inr (cur = None, wt\<lparr>newest_writer := p\<rparr>, st(the p \<mapsto> w\<lparr>link_older := cur\<rparr>)))))"

text \<open>
  \<^verbatim>\<open>(*older).group_next.get()\<close> is the address of the cell inside the writer, not the pointer stored in
  it; the address of a field of a live writer is never null.
\<close>

datatype cell_ptr = NullCell | GroupNextCell nat

definition group_next_cell :: "nat \<Rightarrow> cell_ptr" where
  "group_next_cell a = GroupNextCell a"

definition cell_is_null :: "cell_ptr \<Rightarrow> bool" where
  "cell_is_null c \<longleftrightarrow> c = NullCell"

partial_function (option) set_new_links_loop :: "bool \<Rightarrow> writers \<Rightarrow> nat \<Rightarrow> writers comp" where
  "set_new_links_loop dbg st cur =
     (case deref st (Some cur) of
        Inl f \<Rightarrow> Some (Inl f)
      | Inr w \<Rightarrow>
         (case link_older w of
            None \<Rightarrow> ret st
          | Some older \<Rightarrow>
             (case deref st (Some older) of
                Inl f \<Rightarrow> Some (Inl f)
              | Inr o' \<Rightarrow>
                 if \<not> cell_is_null (group_next_cell older) then
                   (case debug_assert dbg (group_next o' = Some cur) of
                      Inl f \<Rightarrow> Some (Inl f)
                    | Inr _ \<Rightarrow> ret st)
                 else set_new_links_loop dbg (st(older \<mapsto> o'\<lparr>group_next := Some cur\<rparr>)) older)))"

definition set_new_links :: "bool \<Rightarrow> writers \<Rightarrow> wptr \<Rightarrow> writers comp" where
  "set_new_links dbg st newest = (case newest of None \<Rightarrow> Some (Inl AssertFailed) | Some a \<Rightarrow> set_new_links_loop dbg st a)"

text \<open>
  Forming a group. The walk over the group reads at most one writer (both ways out of the body leave
  the loop) and then reaches \<^verbatim>\<open>todo!()\<close>.
\<close>

definition group_member_step ::
    "bool \<Rightarrow> writers \<Rightarrow> writer \<Rightarrow> nat \<Rightarrow> nat \<Rightarrow> writers res" where
  "group_member_step dbg st leader_w max_size a =
     rbind (deref st (Some a)) (\<lambda>w0.
     rbind (debug_assert dbg (group_next w0 \<noteq> None)) (\<lambda>_.
       let p = group_next w0 in
       rbind (deref st p) (\<lambda>w.
         if batch_is_empty (w_batch w) \<or> max_size < batch_size (w_batch w) \<or> w_sync w \<noteq> w_sync leader_w then
           (let older = link_older w; newer = group_next w in
            rbind (deref st older) (\<lambda>ow.
              let st = st(the older \<mapsto> ow\<lparr>group_next := newer\<rparr>) in
              if newer = None then Inr st
              else rbind (deref st newer) (\<lambda>nw. Inr (st(the newer \<mapsto> nw\<lparr>link_older := older\<rparr>)))))
         else Inr st)))"

definition group_max_size :: "nat \<Rightarrow> nat" where
  "group_max_size n =
     (if n \<le> MAX_BATCH_SIZE_PER_GROUP then n + MIN_BATCH_SIZE_PER_GROUP else MAX_BATCH_SIZE_PER_GROUP)"

definition enter_batch_group ::
    "bool \<Rightarrow> write_thread \<Rightarrow> writers \<Rightarrow> nat \<Rightarrow> write_group \<Rightarrow> (write_group \<times> writers) comp" where
  "enter_batch_group dbg wt st leader g =
     (case deref st (Some leader) of
        Inl f \<Rightarrow> Some (Inl f)
      | Inr lw \<Rightarrow>
         let max_size = group_max_size (batch_size (w_batch lw));
             g = g\<lparr>wg_size := 1, wg_writers := 1, wg_last_writer := Some leader\<rparr>;
             newest = newest_writer wt in
         cbind (set_new_links dbg st newest) (\<lambda>st.
           case (if Some leader \<noteq> newest then group_member_step dbg st lw max_size leader else Inr st) of
             Inl f \<Rightarrow> Some (Inl f)
           | Inr st \<Rightarrow> Some (Inl TodoPanic)))"

text \<open>
  \<^verbatim>\<open>join\<close>: the first writer continues as leader (the pipeline after that is not written yet), a later
  one waits. \<open>waits\<close> is the outcome of \<^verbatim>\<open>Writer::wait\<close>, which depends on the other threads.
\<close>

datatype join_outcome = JoinedLeader write_group | JoinedFollower

definition join_writer ::
    "bool \<Rightarrow> write_thread \<Rightarrow> writers \<Rightarrow> nat \<Rightarrow> (nat \<Rightarrow> writers \<Rightarrow> writers comp) \<Rightarrow> (join_outcome \<times> write_thread \<times> writers) comp" where
  "join_writer dbg wt st a waits =
     (case link_writer dbg wt st (Some a) of
        Inl f \<Rightarrow> Some (Inl f)
      | Inr (linked, wt', st') \<Rightarrow>
         if linked then
           (case rbind (deref st' (Some a)) (\<lambda>w. rbind (debug_assert dbg (is_leader w)) (\<lambda>_. write_group_new (Some a))) of
              Inl f \<Rightarrow> Some (Inl f)
            | Inr g \<Rightarrow> ret (JoinedLeader g, wt', st'))
         else cbind (waits a st') (\<lambda>st''. ret (JoinedFollower, wt', st'')))"

section \<open>Properties\<close>

lemma cell_not_null [simp]: "\<not> cell_is_null (group_next_cell a)"
  by (simp add: cell_is_null_def group_next_cell_def)

lemma set_new_links_eq:
  assumes "st a = Some w" "\<forall>b. link_older w = Some b \<longrightarrow> (\<exists>v. st b = Some v)"
  shows "set_new_links dbg st (Some a) =
    (if dbg \<and> (\<exists>b v. link_older w = Some b \<and> st b = Some v \<and> group_next v \<noteq> Some a)
     then Some (Inl AssertFailed) else ret st)"
  using assms
  by (auto simp: set_new_links_def set_new_links_loop.simps [of dbg st a] deref_def debug_assert_def split: option.splits)

text \<open>
  \<^verbatim>\<open>set_new_links\<close> never writes a link: on every queue it returns the writers unchanged, except that
  with debug assertions it panics as soon as the newest writer has an older one that does not already
  point back. The test that is meant to find an unset \<^verbatim>\<open>group_next\<close> looks at the address of the cell.
\<close>

theorem set_new_links_sets_nothing:
  assumes "st a = Some w" "\<forall>b. link_older w = Some b \<longrightarrow> (\<exists>v. st b = Some v)"
  shows "set_new_links dbg st (Some a) =
    (if dbg \<and> (\<exists>b v. link_older w = Some b \<and> st b = Some v \<and> group_next v \<noteq> Some a)
     then Some (Inl AssertFailed) else ret st)"
  by (rule set_new_links_eq [OF assms])

definition wit_queue :: writers where
  "wit_queue = [1 \<mapsto> (writer_new batch_new)\<lparr>link_older := Some 0\<rparr>, 0 \<mapsto> writer_new batch_new]"

theorem set_new_links_sets_nothing_witness:
  "set_new_links False wit_queue (Some 1) = ret wit_queue \<and> set_new_links True wit_queue (Some 1) = Some (Inl AssertFailed)"
proof -
  have q: "wit_queue 1 = Some ((writer_new batch_new)\<lparr>link_older := Some 0\<rparr>)"
    "\<forall>b. link_older ((writer_new batch_new)\<lparr>link_older := Some 0\<rparr>) = Some b \<longrightarrow> (\<exists>v. wit_queue b = Some v)"
    by (simp_all add: wit_queue_def)
  have z: "wit_queue 0 = Some (writer_new batch_new)" by (simp add: wit_queue_def)
  have "set_new_links False wit_queue (Some 1) = ret wit_queue"
    using set_new_links_sets_nothing [OF q, of False] by simp
  moreover have "set_new_links True wit_queue (Some 1) = Some (Inl AssertFailed)"
    using set_new_links_sets_nothing [OF q, of True] z by (simp add: writer_new_def)
  ultimately show ?thesis ..
qed

text \<open>
  Forming a batch group never returns a group: with two or more writers the leader's next writer
  is missing (or an assertion fails), and with one the function ends in \<^verbatim>\<open>todo!()\<close>.
\<close>

theorem enter_batch_group_panics:
  assumes "newest_writer wt = Some a" "st a = Some w" "st leader = Some lw"
    "\<forall>b. link_older w = Some b \<longrightarrow> (\<exists>v. st b = Some v)"
  shows "\<exists>f. enter_batch_group dbg wt st leader g = Some (Inl f)"
proof -
  have "set_new_links dbg st (Some a) = ret st \<or> set_new_links dbg st (Some a) = Some (Inl AssertFailed)"
    by (subst (1 2) set_new_links_eq [OF assms(2,4)]) simp
  then show ?thesis
    using assms(1,3) by (auto simp: enter_batch_group_def deref_def Let_def split: sum.splits)
qed

theorem enter_batch_group_panics_witness:
  "\<exists>f. enter_batch_group False \<lparr>newest_writer = Some 1\<rparr> wit_queue 0
     \<lparr>wg_leader = 0, wg_last_writer = None, wg_assigned_seq_no = 0, wg_size = 0, wg_writers = 0\<rparr> = Some (Inl f)"
  by (rule enter_batch_group_panics [where a = 1 and w = "(writer_new batch_new)\<lparr>link_older := Some 0\<rparr>"
        and lw = "writer_new batch_new"]) (simp_all add: wit_queue_def)

text \<open>
  C40: Joining with a writer made by \<^verbatim>\<open>Writer::new\<close>: with debug assertions it panics, because the writer's
  state is 0 and the initial state bit is expected; without them, on an empty queue, it returns at once
  as leader and leaves the writer linked as the newest one.
\<close>

theorem join_new_writer:
  assumes "st a = Some (writer_new b)"
  shows "join_writer True wt st a waits = Some (Inl AssertFailed) \<and>
    (newest_writer wt = None \<longrightarrow>
      (\<exists>g. join_writer False wt st a waits = ret (JoinedLeader g, wt\<lparr>newest_writer := Some a\<rparr>, st)))"
proof -
  have "st(a \<mapsto> (writer_new b)\<lparr>link_older := None\<rparr>) = st"
    using assms by (simp add: fun_upd_idem writer_new_def)
  then show ?thesis
    using assms by (auto simp: join_writer_def link_writer_def deref_def writer_new_def write_group_new_def Let_def)
qed

theorem join_new_writer_witness:
  "join_writer True write_thread_new [0 \<mapsto> writer_new batch_new] 0 (\<lambda>_ st. ret st) = Some (Inl AssertFailed) \<and>
   (\<exists>g. join_writer False write_thread_new [0 \<mapsto> writer_new batch_new] 0 (\<lambda>_ st. ret st)
      = ret (JoinedLeader g, write_thread_new\<lparr>newest_writer := Some 0\<rparr>, [0 \<mapsto> writer_new batch_new]))"
  using join_new_writer [of "[0 \<mapsto> writer_new batch_new]" 0 batch_new write_thread_new "\<lambda>_ st. ret st"]
  by (simp add: write_thread_new_def)

end
