(* ===== verification/Write_Concurrent.thy ===== *)
theory Write_Concurrent
  imports Write_Thread Transition_Systems
begin

unbundle bit_operations_syntax

text \<open>
  Interleavings of the write thread. First, any number of threads that run \<^verbatim>\<open>link_writer\<close> at once: the debug
  assertion on the writer's state byte, each load, each store to the writer's own \<^verbatim>\<open>link_older\<close> and each compare-and-swap is a step, and the
  weak compare-and-swap may fail spuriously. Second, a follower in \<^verbatim>\<open>Writer::wait\<close> against a thread
  that signals it: setting a state bit and unparking are separate steps, and parking may wake without
  a reason, as \<^verbatim>\<open>std::thread::park\<close> documents.
\<close>

section \<open>Joining threads\<close>

datatype link_pc = LinkStart | LinkEntered | LinkLoaded wptr | LinkStored wptr | LinkDone bool | LinkPanic

record link_state =
  ls_newest :: wptr
  ls_older :: "nat \<Rightarrow> wptr"
  ls_bits :: "nat \<Rightarrow> u8"
  ls_pc :: "nat \<Rightarrow> link_pc"

inductive link_step :: "bool \<Rightarrow> link_state \<Rightarrow> link_state \<Rightarrow> bool" for dbg where
  enter: "ls_pc s t = LinkStart \<Longrightarrow> dbg \<longrightarrow> ls_bits s t AND INIT \<noteq> 0 \<Longrightarrow>
    link_step dbg s (s\<lparr>ls_pc := (ls_pc s)(t := LinkEntered)\<rparr>)"
| enter_panic: "ls_pc s t = LinkStart \<Longrightarrow> dbg \<Longrightarrow> ls_bits s t AND INIT = 0 \<Longrightarrow>
    link_step dbg s (s\<lparr>ls_pc := (ls_pc s)(t := LinkPanic)\<rparr>)"
| load: "ls_pc s t = LinkEntered \<Longrightarrow>
    link_step dbg s (s\<lparr>ls_pc := (ls_pc s)(t := LinkLoaded (ls_newest s))\<rparr>)"
| store: "ls_pc s t = LinkLoaded c \<Longrightarrow>
    link_step dbg s (s\<lparr>ls_older := (ls_older s)(t := c), ls_pc := (ls_pc s)(t := LinkStored c)\<rparr>)"
| cas_ok: "ls_pc s t = LinkStored c \<Longrightarrow> ls_newest s = c \<Longrightarrow>
    link_step dbg s (s\<lparr>ls_newest := Some t, ls_pc := (ls_pc s)(t := LinkDone (c = None))\<rparr>)"
| cas_fail: "ls_pc s t = LinkStored c \<Longrightarrow>
    link_step dbg s (s\<lparr>ls_pc := (ls_pc s)(t := LinkLoaded (ls_newest s))\<rparr>)"

text \<open>An empty queue; \<open>B t\<close> is the state byte of the writer of thread \<open>t\<close>.\<close>

definition link_init :: "(nat \<Rightarrow> u8) \<Rightarrow> link_state" where
  "link_init B = \<lparr>ls_newest = None, ls_older = (\<lambda>_. None), ls_bits = B, ls_pc = (\<lambda>_. LinkStart)\<rparr>"

fun chain :: "(nat \<Rightarrow> wptr) \<Rightarrow> wptr \<Rightarrow> nat list \<Rightarrow> bool" where
  "chain older p [] \<longleftrightarrow> p = None"
| "chain older p (x # xs) \<longleftrightarrow> p = Some x \<and> chain older (older x) xs"

definition finished :: "link_state \<Rightarrow> nat set" where
  "finished s = {t. \<exists>b. ls_pc s t = LinkDone b}"

definition link_inv :: "link_state \<Rightarrow> nat list \<Rightarrow> bool" where
  "link_inv s xs \<longleftrightarrow> distinct xs \<and> set xs = finished s \<and> chain (ls_older s) (ls_newest s) xs \<and>
     (\<forall>t \<in> set xs. ls_pc s t = LinkDone (t = last xs)) \<and> (\<forall>t c. ls_pc s t = LinkStored c \<longrightarrow> ls_older s t = c)"

lemma chain_upd: "t \<notin> set xs \<Longrightarrow> chain (older(t := c)) p xs = chain older p xs"
  by (induction xs arbitrary: p) auto

lemma chain_None: "chain older None xs \<longleftrightarrow> xs = []"
  by (cases xs) auto

lemma link_inv_init: "link_inv (link_init B) []"
  by (simp add: link_inv_def link_init_def finished_def)

text \<open>A step of a thread that has not finished and does not finish keeps the chain.\<close>

lemma link_inv_local:
  assumes inv: "link_inv s xs" and t: "t \<notin> finished s" and pc: "\<And>b. pc \<noteq> LinkDone b"
    and c: "\<And>d. pc = LinkStored d \<Longrightarrow> c = d"
  shows "link_inv (s\<lparr>ls_older := (ls_older s)(t := c), ls_pc := (ls_pc s)(t := pc)\<rparr>) xs"
proof -
  have "finished (s\<lparr>ls_older := (ls_older s)(t := c), ls_pc := (ls_pc s)(t := pc)\<rparr>) = finished s"
    using t pc by (auto simp: finished_def)
  moreover have "t \<notin> set xs" using inv t by (simp add: link_inv_def)
  moreover have "\<forall>u \<in> set xs. ((ls_pc s)(t := pc)) u = LinkDone (u = last xs)"
    using inv \<open>t \<notin> set xs\<close> by (simp add: link_inv_def)
  ultimately show ?thesis using inv c by (simp add: link_inv_def chain_upd)
qed

lemma link_inv_step:
  assumes "link_step dbg s s'" "link_inv s xs"
  shows "\<exists>xs'. link_inv s' xs'"
  using assms(1)
proof cases
  case (enter t)
  then have "t \<notin> finished s" by (simp add: finished_def)
  from link_inv_local [OF assms(2) this, of LinkEntered "ls_older s t"] show ?thesis
    unfolding enter(1) by (intro exI [of _ xs]) simp
next
  case (enter_panic t)
  then have "t \<notin> finished s" by (simp add: finished_def)
  from link_inv_local [OF assms(2) this, of LinkPanic "ls_older s t"] show ?thesis
    unfolding enter_panic(1) by (intro exI [of _ xs]) simp
next
  case (load t)
  then have "t \<notin> finished s" by (simp add: finished_def)
  from link_inv_local [OF assms(2) this, of "LinkLoaded (ls_newest s)" "ls_older s t"] show ?thesis
    unfolding load(1) by (intro exI [of _ xs]) simp
next
  case (store t c)
  then have "t \<notin> finished s" by (simp add: finished_def)
  from link_inv_local [OF assms(2) this, of "LinkStored c" c] show ?thesis
    unfolding store(1) by (intro exI [of _ xs]) simp
next
  case (cas_fail t c)
  then have "t \<notin> finished s" by (simp add: finished_def)
  from link_inv_local [OF assms(2) this, of "LinkLoaded (ls_newest s)" "ls_older s t"] show ?thesis
    unfolding cas_fail(1) by (intro exI [of _ xs]) simp
next
  case (cas_ok t c)
  have t: "t \<notin> finished s" using cas_ok(2) by (simp add: finished_def)
  have fin: "finished s' = insert t (finished s)" unfolding cas_ok(1) by (auto simp: finished_def)
  have xs: "distinct xs" "set xs = finished s" "chain (ls_older s) c xs"
    "\<forall>u \<in> set xs. ls_pc s u = LinkDone (u = last xs)" "\<forall>u d. ls_pc s u = LinkStored d \<longrightarrow> ls_older s u = d"
    using assms(2) cas_ok(3) by (simp_all add: link_inv_def)
  have tx: "t \<notin> set xs" using t xs(2) by simp
  have c: "ls_older s t = c" using xs(5) cas_ok(2) by blast
  have e: "c = None \<longleftrightarrow> xs = []" using xs(3) by (cases xs) auto
  have "ls_pc s' u = LinkDone (u = last (t # xs))" if "u \<in> set (t # xs)" for u
  proof (cases "u = t")
    case True
    then show ?thesis using e tx by (auto simp: cas_ok(1))
  next
    case False
    then show ?thesis using that xs(4) by (auto simp: cas_ok(1))
  qed
  moreover have "\<forall>u d. ls_pc s' u = LinkStored d \<longrightarrow> ls_older s' u = d"
    using xs(5) by (simp add: cas_ok(1))
  moreover have "chain (ls_older s') (ls_newest s') (t # xs)" using xs(3) c by (simp add: cas_ok(1))
  ultimately have "link_inv s' (t # xs)"
    unfolding link_inv_def using xs(1,2) tx fin by simp
  then show ?thesis by blast
qed

interpretation link_sys: invariant_system "link_step dbg" "\<lambda>s. \<exists>B. s = link_init B" "\<lambda>s. \<exists>xs. link_inv s xs" for dbg
  by unfold_locales (use link_inv_init link_inv_step in blast)+

text \<open>
  C18: Under every interleaving of joining threads, the writers whose \<^verbatim>\<open>link_writer\<close> has returned form one
  chain from the newest to the oldest through \<^verbatim>\<open>link_older\<close>, each exactly once, and exactly the oldest
  one was told that it is the first (the leader).
\<close>

theorem link_writer_one_leader:
  assumes "(link_step dbg)\<^sup>*\<^sup>* (link_init B) s"
  shows "\<exists>xs. distinct xs \<and> set xs = finished s \<and> chain (ls_older s) (ls_newest s) xs \<and>
    (\<forall>t \<in> set xs. ls_pc s t = LinkDone (t = last xs))"
  using link_sys.reachable_inv [OF assms exI, OF refl] unfolding link_inv_def by blast

theorem link_writer_one_leader_witness:
  "\<exists>s. (link_step True)\<^sup>*\<^sup>* (link_init (\<lambda>_. INIT)) s \<and> ls_pc s 3 = LinkDone True \<and>
     (\<exists>xs. distinct xs \<and> set xs = finished s \<and> chain (ls_older s) (ls_newest s) xs \<and>
       (\<forall>t \<in> set xs. ls_pc s t = LinkDone (t = last xs)))"
proof -
  define s0 where "s0 = link_init (\<lambda>_. INIT)"
  define s1 where "s1 = s0\<lparr>ls_pc := (ls_pc s0)(3 := LinkEntered)\<rparr>"
  define s2 where "s2 = s1\<lparr>ls_pc := (ls_pc s1)(3 := LinkLoaded None)\<rparr>"
  define s3 where "s3 = s2\<lparr>ls_older := (ls_older s2)(3 := None), ls_pc := (ls_pc s2)(3 := LinkStored None)\<rparr>"
  define s4 where "s4 = s3\<lparr>ls_newest := Some 3, ls_pc := (ls_pc s3)(3 := LinkDone True)\<rparr>"
  have "link_step True s0 s1"
    unfolding s1_def by (rule link_step.enter) (simp_all add: s0_def link_init_def INIT_def)
  moreover have "link_step True s1 s2" using link_step.load [of s1 3] by (simp add: s2_def s1_def s0_def link_init_def)
  moreover have "link_step True s2 s3" unfolding s3_def by (rule link_step.store) (simp add: s2_def)
  moreover have "link_step True s3 s4"
    using link_step.cas_ok [of s3 3 None] by (simp add: s4_def s3_def s2_def s1_def s0_def link_init_def)
  ultimately have r: "(link_step True)\<^sup>*\<^sup>* s0 s4" by (meson converse_rtranclp_into_rtranclp rtranclp.rtrancl_refl)
  from link_writer_one_leader [OF this [unfolded s0_def]] r show ?thesis
    by (intro exI [of _ s4]) (simp add: s4_def s0_def)
qed

section \<open>A waiting follower\<close>

datatype wait_pc = WaitEntry | Spin nat | Yield nat | SetWaiting | Check | Parked | Returned | WaitPanic

record wait_state =
  ws_pc :: wait_pc
  ws_bits :: u8
  ws_token :: bool
  ws_signalled :: bool

text \<open>The spin loop has its own literal bound.\<close>

definition WAIT_SPINS :: nat where "WAIT_SPINS = 200"

definition done_bits :: u8 where "done_bits = COMPLETE OR LEADER"

text \<open>The steps of the waiting thread.\<close>

inductive wait_step :: "bool \<Rightarrow> wait_state \<Rightarrow> wait_state \<Rightarrow> bool" for dbg where
  entry: "ws_pc s = WaitEntry \<Longrightarrow> dbg \<longrightarrow> ws_bits s AND INIT \<noteq> 0 \<Longrightarrow> wait_step dbg s (s\<lparr>ws_pc := Spin 0\<rparr>)"
| entry_panic: "ws_pc s = WaitEntry \<Longrightarrow> dbg \<Longrightarrow> ws_bits s AND INIT = 0 \<Longrightarrow> wait_step dbg s (s\<lparr>ws_pc := WaitPanic\<rparr>)"
| spin_done: "ws_pc s = Spin k \<Longrightarrow> k < WAIT_SPINS \<Longrightarrow> ws_bits s AND COMPLETE \<noteq> 0 \<Longrightarrow>
    wait_step dbg s (s\<lparr>ws_pc := Returned\<rparr>)"
| spin_next: "ws_pc s = Spin k \<Longrightarrow> k < WAIT_SPINS \<Longrightarrow> ws_bits s AND COMPLETE = 0 \<Longrightarrow>
    wait_step dbg s (s\<lparr>ws_pc := Spin (Suc k)\<rparr>)"
| spin_end: "ws_pc s = Spin k \<Longrightarrow> WAIT_SPINS \<le> k \<Longrightarrow> wait_step dbg s (s\<lparr>ws_pc := Yield 0\<rparr>)"
| yield_done: "ws_pc s = Yield k \<Longrightarrow> k < YIELD_PAUSE_ITERATIONS \<Longrightarrow> ws_bits s AND COMPLETE \<noteq> 0 \<Longrightarrow>
    wait_step dbg s (s\<lparr>ws_pc := Returned\<rparr>)"
| yield_next: "ws_pc s = Yield k \<Longrightarrow> k < YIELD_PAUSE_ITERATIONS \<Longrightarrow> ws_bits s AND COMPLETE = 0 \<Longrightarrow>
    wait_step dbg s (s\<lparr>ws_pc := Yield (Suc k)\<rparr>)"
| yield_end: "ws_pc s = Yield k \<Longrightarrow> YIELD_PAUSE_ITERATIONS \<le> k \<Longrightarrow> wait_step dbg s (s\<lparr>ws_pc := SetWaiting\<rparr>)"
| set_waiting: "ws_pc s = SetWaiting \<Longrightarrow>
    wait_step dbg s (s\<lparr>ws_pc := Check, ws_bits := ws_bits s OR LOCKED_WAITING\<rparr>)"
| check_done: "ws_pc s = Check \<Longrightarrow> ws_bits s AND done_bits \<noteq> 0 \<Longrightarrow> wait_step dbg s (s\<lparr>ws_pc := Returned\<rparr>)"
| check_park: "ws_pc s = Check \<Longrightarrow> ws_bits s AND done_bits = 0 \<Longrightarrow> wait_step dbg s (s\<lparr>ws_pc := Parked\<rparr>)"
| wake: "ws_pc s = Parked \<Longrightarrow> ws_token s \<Longrightarrow> wait_step dbg s (s\<lparr>ws_pc := Check, ws_token := False\<rparr>)"

text \<open>
  The steps of everybody else: a signal sets state bits, an unpark makes the token available, and a
  parked thread may wake spuriously. \<open>ws_signalled\<close> records that an unpark followed the setting of a
  bit the waiter looks for.
\<close>

inductive env_step :: "wait_state \<Rightarrow> wait_state \<Rightarrow> bool" where
  signal: "env_step s (s\<lparr>ws_bits := ws_bits s OR b\<rparr>)"
| unpark: "env_step s (s\<lparr>ws_token := True, ws_signalled := ws_signalled s \<or> ws_bits s AND done_bits \<noteq> 0\<rparr>)"
| spurious: "ws_pc s = Parked \<Longrightarrow> env_step s (s\<lparr>ws_pc := Check\<rparr>)"

definition wait_sys :: "bool \<Rightarrow> wait_state \<Rightarrow> wait_state \<Rightarrow> bool" where
  "wait_sys dbg s s' \<longleftrightarrow> wait_step dbg s s' \<or> env_step s s'"

definition wait_init :: "u8 \<Rightarrow> wait_state" where
  "wait_init b = \<lparr>ws_pc = WaitEntry, ws_bits = b, ws_token = False, ws_signalled = False\<rparr>"

lemma or_and_zero: "(a OR b) AND c = 0 \<Longrightarrow> a AND c = (0 :: u8)"
  by (metis and.left_idem and_zero_eq bit.conj_disj_distrib2 or_eq_0_iff)

lemma done_bits_COMPLETE: "w AND COMPLETE \<noteq> 0 \<Longrightarrow> w AND done_bits \<noteq> 0"
  unfolding done_bits_def by (metis bit.conj_disj_distrib or_eq_0_iff)

definition wait_inv :: "wait_state \<Rightarrow> bool" where
  "wait_inv s \<longleftrightarrow> (ws_signalled s \<longrightarrow> ws_bits s AND done_bits \<noteq> 0) \<and>
     (ws_signalled s \<and> ws_pc s = Parked \<longrightarrow> ws_token s) \<and>
     (ws_pc s = Returned \<longrightarrow> ws_bits s AND done_bits \<noteq> 0)"

lemma wait_inv_step: "wait_step dbg s s' \<Longrightarrow> wait_inv s \<Longrightarrow> wait_inv s'"
  by (induction rule: wait_step.induct) (auto simp: wait_inv_def done_bits_COMPLETE dest: or_and_zero)

lemma wait_inv_env: "env_step s s' \<Longrightarrow> wait_inv s \<Longrightarrow> wait_inv s'"
  by (induction rule: env_step.induct) (auto simp: wait_inv_def dest: or_and_zero)

interpretation wait_sys: invariant_system "wait_sys dbg" "\<lambda>s. \<exists>b. s = wait_init b" wait_inv for dbg
proof unfold_locales
  show "wait_inv s" if "\<exists>b. s = wait_init b" for s using that by (auto simp: wait_inv_def wait_init_def)
  show "wait_inv s'" if "wait_inv s" "wait_sys dbg s s'" for s s'
    using that wait_inv_step wait_inv_env by (auto simp: wait_sys_def)
qed

lemma wait_inv_reachable: "(wait_sys dbg)\<^sup>*\<^sup>* (wait_init b) s \<Longrightarrow> wait_inv s"
  using wait_sys.reachable_inv by blast

text \<open>The work left to a waiter that has been signalled.\<close>

fun wait_rank :: "wait_pc \<Rightarrow> nat" where
  "wait_rank WaitEntry = WAIT_SPINS + YIELD_PAUSE_ITERATIONS + 6"
| "wait_rank (Spin k) = (WAIT_SPINS - k) + YIELD_PAUSE_ITERATIONS + 5"
| "wait_rank (Yield k) = (YIELD_PAUSE_ITERATIONS - k) + 4"
| "wait_rank SetWaiting = 3"
| "wait_rank Parked = 2"
| "wait_rank Check = 1"
| "wait_rank Returned = 0"
| "wait_rank WaitPanic = 0"

lemma wait_rank_step:
  "wait_step dbg s s' \<Longrightarrow> ws_bits s AND done_bits \<noteq> 0 \<Longrightarrow> wait_rank (ws_pc s') < wait_rank (ws_pc s)"
  by (induction rule: wait_step.induct) auto

lemma wait_rank_env: "env_step s s' \<Longrightarrow> wait_rank (ws_pc s') \<le> wait_rank (ws_pc s)"
  by (induction rule: env_step.induct) auto

lemma wait_enabled:
  assumes "wait_inv s" "ws_signalled s" "ws_pc s \<noteq> Returned" "ws_pc s \<noteq> WaitPanic"
  shows "\<exists>s'. wait_step dbg s s'"
proof (cases "ws_pc s")
  case WaitEntry
  then show ?thesis using entry [of s dbg] entry_panic [of s dbg] by blast
next
  case (Spin k)
  then show ?thesis using spin_done [of s k dbg] spin_next [of s k dbg] spin_end [of s k dbg] by (meson not_le)
next
  case (Yield k)
  then show ?thesis using yield_done [of s k dbg] yield_next [of s k dbg] yield_end [of s k dbg] by (meson not_le)
next
  case SetWaiting
  then show ?thesis using set_waiting by blast
next
  case Check
  then show ?thesis using check_done check_park by blast
next
  case Parked
  then show ?thesis using wake assms(1,2) by (auto simp: wait_inv_def)
qed (use assms in auto)

text \<open>
  C20: No wakeup is lost: in every reachable state in which the waiter has been unparked after its
  \<^verbatim>\<open>COMPLETE\<close> or \<^verbatim>\<open>LEADER\<close> bit was set, the waiter has a step to take until it has returned, every step it
  takes reduces a rank that no other thread increases, and so it returns after at most that many steps.
\<close>

theorem wait_no_lost_wakeup:
  assumes "(wait_sys dbg)\<^sup>*\<^sup>* (wait_init b) s" "ws_signalled s"
  shows "(ws_pc s \<noteq> Returned \<and> ws_pc s \<noteq> WaitPanic \<longrightarrow> (\<exists>s'. wait_step dbg s s')) \<and>
    (\<forall>s'. wait_step dbg s s' \<longrightarrow> wait_rank (ws_pc s') < wait_rank (ws_pc s)) \<and>
    (\<forall>s'. env_step s s' \<longrightarrow> wait_rank (ws_pc s') \<le> wait_rank (ws_pc s) \<and> ws_signalled s')"
proof -
  have inv: "wait_inv s" by (rule wait_inv_reachable [OF assms(1)])
  have "ws_signalled s'" if "env_step s s'" for s'
    using that assms(2) by (induction rule: env_step.induct) auto
  then show ?thesis
    using wait_enabled [OF inv assms(2)] wait_rank_step [of dbg s] wait_rank_env [of s] inv assms(2)
    by (auto simp: wait_inv_def)
qed

lemma wait_reach_parked:
  "\<exists>s. (wait_sys False)\<^sup>*\<^sup>* (wait_init INIT) s \<and> ws_pc s = Parked \<and> ws_bits s AND done_bits = 0 \<and> \<not> ws_signalled s"
proof -
  let ?s = "\<lambda>pc bits. \<lparr>ws_pc = pc, ws_bits = bits, ws_token = False, ws_signalled = False\<rparr>"
  have z: "INIT AND COMPLETE = 0" "INIT AND done_bits = 0" "(INIT OR LOCKED_WAITING) AND done_bits = 0"
    by (simp_all add: INIT_def COMPLETE_def LEADER_def LOCKED_WAITING_def done_bits_def)
  have step: "(wait_sys False)\<^sup>*\<^sup>* x z" if "(wait_sys False)\<^sup>*\<^sup>* x y" "wait_step False y z" for x y z
    using that by (meson rtranclp.rtrancl_into_rtrancl wait_sys_def)
  have spin: "(wait_sys False)\<^sup>*\<^sup>* (wait_init INIT) (?s (Spin k) INIT)" if "k \<le> WAIT_SPINS" for k
    using that
  proof (induction k)
    case 0
    show ?case using step [OF rtranclp.rtrancl_refl, of "wait_init INIT"] entry [of "wait_init INIT" False]
      by (simp add: wait_init_def)
  next
    case (Suc k)
    then show ?case using step [of _ "?s (Spin k) INIT"] spin_next [of "?s (Spin k) INIT" k False] z by simp
  qed
  have yield: "(wait_sys False)\<^sup>*\<^sup>* (wait_init INIT) (?s (Yield k) INIT)" if "k \<le> YIELD_PAUSE_ITERATIONS" for k
    using that
  proof (induction k)
    case 0
    show ?case using step [OF spin [of WAIT_SPINS]]
        spin_end [of "?s (Spin WAIT_SPINS) INIT" WAIT_SPINS False] by simp
  next
    case (Suc k)
    then show ?case using step [of _ "?s (Yield k) INIT"] yield_next [of "?s (Yield k) INIT" k False] z by simp
  qed
  have "(wait_sys False)\<^sup>*\<^sup>* (wait_init INIT) (?s SetWaiting INIT)"
    using step [OF yield [of YIELD_PAUSE_ITERATIONS]]
      yield_end [of "?s (Yield YIELD_PAUSE_ITERATIONS) INIT" YIELD_PAUSE_ITERATIONS False] by simp
  then have "(wait_sys False)\<^sup>*\<^sup>* (wait_init INIT) (?s Check (INIT OR LOCKED_WAITING))"
    using step set_waiting [of "?s SetWaiting INIT" False] by fastforce
  then have "(wait_sys False)\<^sup>*\<^sup>* (wait_init INIT) (?s Parked (INIT OR LOCKED_WAITING))"
    using step check_park [of "?s Check (INIT OR LOCKED_WAITING)" False] z by fastforce
  then show ?thesis using z by (intro exI [of _ "?s Parked (INIT OR LOCKED_WAITING)"]) simp
qed

theorem wait_no_lost_wakeup_witness:
  "\<exists>s. ws_signalled s \<and> ws_pc s = Parked \<and> (\<exists>s'. wait_step False s s')"
proof -
  obtain s where s: "(wait_sys False)\<^sup>*\<^sup>* (wait_init INIT) s" "ws_pc s = Parked" using wait_reach_parked by blast
  let ?s1 = "s\<lparr>ws_bits := ws_bits s OR COMPLETE\<rparr>"
  let ?s2 = "?s1\<lparr>ws_token := True, ws_signalled := ws_signalled ?s1 \<or> ws_bits ?s1 AND done_bits \<noteq> 0\<rparr>"
  have "wait_sys False s ?s1" "wait_sys False ?s1 ?s2"
    using signal [of s COMPLETE] unpark [of ?s1] by (simp_all only: wait_sys_def simp_thms)
  then have r: "(wait_sys False)\<^sup>*\<^sup>* (wait_init INIT) ?s2" using s(1) by (meson rtranclp.rtrancl_into_rtrancl)
  have "COMPLETE AND done_bits \<noteq> 0" by (simp add: done_bits_def COMPLETE_def LEADER_def)
  then have "(ws_bits s OR COMPLETE) AND done_bits \<noteq> 0"
    by (metis or.commute or_and_zero)
  then have "ws_signalled ?s2" by simp
  from wait_no_lost_wakeup [OF r this] s(2) \<open>ws_signalled ?s2\<close> show ?thesis
    by (intro exI [of _ ?s2]) simp
qed

text \<open>
  A waiter returns only when it may: in every reachable state in which \<^verbatim>\<open>wait\<close> has returned, the
  \<^verbatim>\<open>COMPLETE\<close> or the \<^verbatim>\<open>LEADER\<close> bit of its state is set.
\<close>

theorem wait_returns_only_when_signalled:
  assumes "(wait_sys dbg)\<^sup>*\<^sup>* (wait_init b) s" "ws_pc s = Returned"
  shows "ws_bits s AND (COMPLETE OR LEADER) \<noteq> 0"
  using wait_inv_reachable [OF assms(1)] assms(2) by (simp add: wait_inv_def done_bits_def)

theorem wait_returns_only_when_signalled_witness:
  "\<exists>s :: wait_state. ws_pc s = Returned \<and> ws_bits s AND (COMPLETE OR LEADER) \<noteq> 0"
proof -
  let ?b = "INIT OR COMPLETE"
  let ?s1 = "(wait_init ?b)\<lparr>ws_pc := Spin 0\<rparr>"
  let ?s2 = "?s1\<lparr>ws_pc := Returned\<rparr>"
  have "wait_step True (wait_init ?b) ?s1"
    by (rule entry) (simp_all add: wait_init_def INIT_def COMPLETE_def)
  moreover have "wait_step True ?s1 ?s2"
    by (rule spin_done [of _ 0]) (simp_all add: wait_init_def INIT_def COMPLETE_def WAIT_SPINS_def)
  ultimately have "(wait_sys True)\<^sup>*\<^sup>* (wait_init ?b) ?s2"
    by (meson rtranclp.rtrancl_into_rtrancl rtranclp.rtrancl_refl wait_sys_def)
  from wait_returns_only_when_signalled [OF this] show ?thesis by (intro exI [of _ ?s2]) simp
qed

end
