(* ===== verification/Team_Rank.thy ===== *)
theory Team_Rank
  imports "HOL-Library.Product_Lexorder" "HOL-Library.Multiset_Order"
begin

text \<open>
  The rank of a team of threads, for the proofs that finitely many threads finish together. Its first component
  counts what the team still has to win: something shared and a share of every thread. Its second component is
  the multiset of the threads' own ranks. A step wins something, or it lowers the rank of its thread and no other
  thread notices.
\<close>

definition team_measure :: "nat set \<Rightarrow> nat \<Rightarrow> (nat \<Rightarrow> nat) \<Rightarrow> (nat \<Rightarrow> 'r :: wellorder) \<Rightarrow> nat \<times> 'r multiset" where
  "team_measure T c w r = (c + (\<Sum>t\<in>T. w t), image_mset r (mset_set T))"

lemma team_measure_less:
  assumes T: "finite T" "t \<in> T" and oth: "\<And>u. u \<noteq> t \<Longrightarrow> w' u = w u"
    and c: "c' + w' t < c + w t \<or> c' + w' t = c + w t \<and> (\<forall>u. u \<noteq> t \<longrightarrow> r' u = r u) \<and> r' t < r t"
  shows "team_measure T c' w' r' < team_measure T c w r"
proof -
  have "(\<Sum>u\<in>T - {t}. w' u) = (\<Sum>u\<in>T - {t}. w u)" using oth by (intro sum.cong) auto
  then have s: "(\<Sum>u\<in>T. w' u) = w' t + (\<Sum>u\<in>T - {t}. w u)" "(\<Sum>u\<in>T. w u) = w t + (\<Sum>u\<in>T - {t}. w u)"
    using sum.remove [OF T, of w'] sum.remove [OF T, of w] by simp_all
  show ?thesis using c
  proof
    assume r: "c' + w' t = c + w t \<and> (\<forall>u. u \<noteq> t \<longrightarrow> r' u = r u) \<and> r' t < r t"
    have m: "image_mset f (mset_set T) = add_mset (f t) (image_mset f (mset_set (T - {t})))" for f :: "nat \<Rightarrow> 'r"
      using T by (simp add: mset_set.remove)
    have "image_mset r' (mset_set (T - {t})) = image_mset r (mset_set (T - {t}))"
      using r T(1) by (intro image_mset_cong) auto
    then have "image_mset r' (mset_set T) < image_mset r (mset_set T)"
      using r m [of r'] m [of r] by (simp add: add_mset_lt_left_lt)
    then show ?thesis using s r by (simp add: team_measure_def)
  qed (use s in \<open>simp add: team_measure_def\<close>)
qed

end
