(* ===== verification/Write_Progress.thy ===== *)
theory Write_Progress
  imports Write_Concurrent Team_Rank
begin

unbundle bit_operations_syntax

text \<open>
  Joining under contention ends. Finitely many threads run \<^verbatim>\<open>link_writer\<close> on one write thread. A successful
  compare-and-swap makes every other thread's swap fail once, but it also takes one thread out of the race; a
  thread that loses loads the newest writer again and then wins unless somebody else does. A weak
  compare-and-swap that fails although the newest writer is the expected one is excluded here. In a debug build a
  thread whose writer has no \<^verbatim>\<open>INIT\<close> bit panics on entry and never joins.
\<close>

definition link_spurious :: "link_state \<Rightarrow> link_state \<Rightarrow> bool" where
  "link_spurious s s' \<longleftrightarrow> (\<exists>t c. ls_pc s t = LinkStored c \<and> ls_newest s = c \<and> ls_pc s' t = LinkLoaded c)"

definition team_link :: "bool \<Rightarrow> nat set \<Rightarrow> link_state \<Rightarrow> link_state \<Rightarrow> bool" where
  "team_link dbg T s s' \<longleftrightarrow> link_step dbg s s' \<and> (\<forall>u. u \<notin> T \<longrightarrow> ls_pc s' u = ls_pc s u) \<and> \<not> link_spurious s s'"

section \<open>Every step lowers the rank\<close>

fun link_wins :: "link_pc \<Rightarrow> nat" where
  "link_wins (LinkDone b) = 0"
| "link_wins LinkPanic = 0"
| "link_wins _ = 1"

text \<open>Steps to the next attempt that succeeds if nobody interferes, given the newest writer.\<close>

fun link_rank :: "wptr \<Rightarrow> link_pc \<Rightarrow> nat" where
  "link_rank p LinkStart = 3"
| "link_rank p LinkEntered = 2"
| "link_rank p (LinkLoaded c) = (if c = p then 1 else 3)"
| "link_rank p (LinkStored c) = (if c = p then 0 else 2)"
| "link_rank p (LinkDone b) = 0"
| "link_rank p LinkPanic = 0"

definition team_link_rank :: "nat set \<Rightarrow> link_state \<Rightarrow> nat \<times> nat multiset" where
  "team_link_rank T s = team_measure T 0 (\<lambda>t. link_wins (ls_pc s t)) (\<lambda>t. link_rank (ls_newest s) (ls_pc s t))"

definition link_lowers :: "nat \<Rightarrow> link_state \<Rightarrow> link_state \<Rightarrow> bool" where
  "link_lowers t s s' \<longleftrightarrow> ls_pc s' t \<noteq> ls_pc s t \<and> (\<forall>u. u \<noteq> t \<longrightarrow> ls_pc s' u = ls_pc s u) \<and>
    (link_wins (ls_pc s' t) < link_wins (ls_pc s t) \<or> link_wins (ls_pc s' t) = link_wins (ls_pc s t) \<and>
      ls_newest s' = ls_newest s \<and> link_rank (ls_newest s') (ls_pc s' t) < link_rank (ls_newest s) (ls_pc s t))"

lemma link_step_lowers:
  assumes "link_step dbg s s'" "\<not> link_spurious s s'"
  shows "\<exists>t. link_lowers t s s'"
  using assms(1)
proof cases
  case (cas_fail t c)
  then have "ls_newest s \<noteq> c" using assms(2) by (auto simp: link_spurious_def)
  with cas_fail show ?thesis by (intro exI [of _ t]) (auto simp: link_lowers_def)
qed (rule exI, auto simp: link_lowers_def)+

lemma team_link_lowers:
  assumes "team_link dbg T s s'" "finite T"
  shows "team_link_rank T s' < team_link_rank T s"
proof -
  obtain t where t: "link_lowers t s s'" using link_step_lowers [of dbg s s'] assms(1) by (auto simp: team_link_def)
  then have "ls_pc s' t \<noteq> ls_pc s t" unfolding link_lowers_def by (rule conjunct1)
  then have m: "t \<in> T" using assms(1) unfolding team_link_def by blast
  show ?thesis unfolding team_link_rank_def
  proof (rule team_measure_less [OF assms(2) m])
    show "link_wins (ls_pc s' u) = link_wins (ls_pc s u)" if "u \<noteq> t" for u using t that by (simp add: link_lowers_def)
  qed (use t in \<open>auto simp: link_lowers_def\<close>)
qed

section \<open>A thread that has not joined can step\<close>

lemma joiner_enabled:
  assumes "t \<in> T" "t \<notin> finished s" "ls_pc s t \<noteq> LinkPanic"
  shows "\<exists>y. team_link dbg T s y"
proof -
  have go: ?thesis if "link_step dbg s y" "\<And>u. u \<noteq> t \<Longrightarrow> ls_pc y u = ls_pc s u"
    "\<And>c. ls_pc s t = LinkStored c \<Longrightarrow> ls_newest s = c \<Longrightarrow> ls_pc y t \<noteq> LinkLoaded c" for y
    using that assms(1) unfolding team_link_def link_spurious_def by (metis link_pc.distinct(19))
  show ?thesis
  proof (cases "ls_pc s t")
    case LinkStart
    show ?thesis
    proof (cases "dbg \<longrightarrow> ls_bits s t AND INIT \<noteq> 0")
      case True
      show ?thesis by (rule go [OF enter [OF LinkStart True]]) (auto simp: LinkStart)
    next
      case False
      then show ?thesis by (intro go [OF enter_panic [OF LinkStart]]) (auto simp: LinkStart)
    qed
  next
    case LinkEntered
    show ?thesis by (rule go [OF load [OF LinkEntered]]) (auto simp: LinkEntered)
  next
    case (LinkLoaded c)
    show ?thesis by (rule go [OF store [OF LinkLoaded]]) (auto simp: LinkLoaded)
  next
    case (LinkStored c)
    show ?thesis
    proof (cases "ls_newest s = c")
      case True
      show ?thesis by (rule go [OF cas_ok [OF LinkStored True]]) (auto simp: LinkStored)
    next
      case False
      show ?thesis by (rule go [OF cas_fail [OF LinkStored]]) (use False in \<open>auto simp: LinkStored\<close>)
    qed
  qed (use assms(2,3) in \<open>auto simp: finished_def\<close>)
qed

text \<open>The assertion panics exactly for the writers that lack the bit.\<close>

fun entry_ok :: "bool \<Rightarrow> u8 \<Rightarrow> link_pc \<Rightarrow> bool" where
  "entry_ok dbg b LinkStart = True"
| "entry_ok dbg b LinkPanic = (dbg \<and> b AND INIT = 0)"
| "entry_ok dbg b _ = (dbg \<longrightarrow> b AND INIT \<noteq> 0)"

definition entry_inv :: "bool \<Rightarrow> (nat \<Rightarrow> u8) \<Rightarrow> link_state \<Rightarrow> bool" where
  "entry_inv dbg B s \<longleftrightarrow> ls_bits s = B \<and> (\<forall>t. entry_ok dbg (B t) (ls_pc s t))"

lemma entry_inv_step:
  assumes "link_step dbg s s'" "entry_inv dbg B s"
  shows "entry_inv dbg B s'"
proof -
  have ok: "entry_ok dbg (B t) (ls_pc s t)" for t using assms(2) by (simp add: entry_inv_def)
  show ?thesis using assms(1)
  proof cases
  case (enter t)
  then show ?thesis using ok [of t] assms(2) by (auto simp: entry_inv_def)
next
  case (enter_panic t)
  then show ?thesis using ok [of t] assms(2) by (auto simp: entry_inv_def)
next
  case (load t)
  then show ?thesis using ok [of t] assms(2) by (auto simp: entry_inv_def)
next
  case (store t c)
  then show ?thesis using ok [of t] assms(2) by (auto simp: entry_inv_def)
next
  case (cas_ok t c)
  then show ?thesis using ok [of t] assms(2) by (auto simp: entry_inv_def)
next
  case (cas_fail t c)
  then show ?thesis using ok [of t] assms(2) by (auto simp: entry_inv_def)
  qed
qed

definition team_link_inv :: "bool \<Rightarrow> (nat \<Rightarrow> u8) \<Rightarrow> nat set \<Rightarrow> link_state \<Rightarrow> bool" where
  "team_link_inv dbg B T s \<longleftrightarrow> finite T \<and> (\<exists>xs. link_inv s xs) \<and> finished s \<subseteq> T \<and> entry_inv dbg B s"

interpretation team_link_sys: terminating_system "team_link dbg T" "\<lambda>s. finite T \<and> s = link_init B" "team_link_inv dbg B T"
    "team_link_rank T" for dbg B T
proof unfold_locales
  show "team_link_inv dbg B T s" if "finite T \<and> s = link_init B" for s
    using that link_inv_init by (auto simp: team_link_inv_def finished_def link_init_def entry_inv_def)
  show "team_link_inv dbg B T s'" if "team_link_inv dbg B T s" "team_link dbg T s s'" for s s'
  proof -
    have st: "link_step dbg s s'" "\<And>u. u \<notin> T \<Longrightarrow> ls_pc s' u = ls_pc s u" using that(2) by (auto simp: team_link_def)
    have "finished s' \<subseteq> T" using that(1) st(2) unfolding team_link_inv_def finished_def by fastforce
    then show ?thesis using that(1) link_inv_step [OF st(1)] entry_inv_step [OF st(1)] unfolding team_link_inv_def by blast
  qed
  show "team_link_rank T s' < team_link_rank T s" if "team_link_inv dbg B T s" "team_link dbg T s s'" for s s'
    using that team_link_lowers unfolding team_link_inv_def by blast
qed

text \<open>
  C19: Joining finishes with one leader. Let finitely many threads call \<^verbatim>\<open>link_writer\<close>, in any interleaving in which no
  weak compare-and-swap fails although the newest writer is the expected one: every sequence of their steps is
  finite. When no further step can be taken, the threads whose writer passes the entry assertion have returned:
  all of them in a release build, and in a debug build those whose writer has the \<^verbatim>\<open>INIT\<close> bit. Their writers are
  linked in one chain through \<^verbatim>\<open>link_older\<close>, each exactly once, and exactly the oldest one was told to lead. Every
  other thread has panicked on the assertion; with writers fresh from \<^verbatim>\<open>Writer::new\<close>, whose state is 0, that is
  every thread of a debug build.
\<close>

theorem link_writers_finish:
  assumes "finite T"
  shows "(\<forall>f. f 0 = link_init B \<longrightarrow> (\<exists>i. \<not> team_link dbg T (f i) (f (Suc i)))) \<and>
    (\<forall>s. (team_link dbg T)\<^sup>*\<^sup>* (link_init B) s \<longrightarrow> (\<forall>y. \<not> team_link dbg T s y) \<longrightarrow>
      (\<exists>xs. distinct xs \<and> set xs = {t \<in> T. dbg \<longrightarrow> B t AND INIT \<noteq> 0} \<and> chain (ls_older s) (ls_newest s) xs \<and>
        (\<forall>t \<in> set xs. ls_pc s t = LinkDone (t = last xs)) \<and>
        (\<forall>t \<in> T - set xs. ls_pc s t = LinkPanic)))"
proof (intro conjI allI impI)
  have i: "team_link_inv dbg B T (link_init B)" using team_link_sys.start_inv assms by blast
  show "\<exists>i. \<not> team_link dbg T (f i) (f (Suc i))" if "f 0 = link_init B" for f
    using team_link_sys.no_infinite_run [of dbg B T f] i that by simp
  fix s assume r: "(team_link dbg T)\<^sup>*\<^sup>* (link_init B) s" and e: "\<forall>y. \<not> team_link dbg T s y"
  have j: "team_link_inv dbg B T s" by (rule team_link_sys.inv_steps [OF r i])
  then obtain xs where xs: "link_inv s xs" and sub: "finished s \<subseteq> T" and ei: "entry_inv dbg B s" unfolding team_link_inv_def by blast
  have all: "t \<in> finished s \<or> ls_pc s t = LinkPanic" if "t \<in> T" for t using joiner_enabled that e by blast
  have d: "t \<in> finished s \<longleftrightarrow> t \<in> T \<and> (dbg \<longrightarrow> B t AND INIT \<noteq> 0)" for t
  proof -
    have "entry_ok dbg (B t) (ls_pc s t)" using ei by (simp add: entry_inv_def)
    then show ?thesis using all [of t] sub by (cases "ls_pc s t") (auto simp: finished_def)
  qed
  then have "finished s = {t \<in> T. dbg \<longrightarrow> B t AND INIT \<noteq> 0}" by blast
  with xs all show "\<exists>xs. distinct xs \<and> set xs = {t \<in> T. dbg \<longrightarrow> B t AND INIT \<noteq> 0} \<and> chain (ls_older s) (ls_newest s) xs \<and>
      (\<forall>t \<in> set xs. ls_pc s t = LinkDone (t = last xs)) \<and> (\<forall>t \<in> T - set xs. ls_pc s t = LinkPanic)"
    unfolding link_inv_def by (intro exI [of _ xs]) auto
qed

text \<open>A debug build in which writers 4 and 5 have the bit and writer 6 comes from \<^verbatim>\<open>Writer::new\<close>.\<close>

definition wit_bits :: "nat \<Rightarrow> u8" where
  "wit_bits t = (if t = 6 then w_state (writer_new batch_new) else INIT)"

theorem link_writers_finish_witness:
  "\<exists>s xs. (team_link True {4, 5, 6})\<^sup>*\<^sup>* (link_init wit_bits) s \<and> distinct xs \<and> set xs = {4, 5} \<and>
     chain (ls_older s) (ls_newest s) xs \<and> ls_pc s (last xs) = LinkDone True \<and> ls_pc s 6 = LinkPanic"
proof -
  let ?T = "{4, 5, 6} :: nat set"
  have f: "finite ?T" by simp
  then have "team_link_inv True wit_bits ?T (link_init wit_bits)" using team_link_sys.start_inv by blast
  from team_link_sys.runs_to_end [OF this] obtain s where s: "(team_link True ?T)\<^sup>*\<^sup>* (link_init wit_bits) s"
    "\<forall>y. \<not> team_link True ?T s y" by blast
  have b: "{t \<in> ?T. True \<longrightarrow> wit_bits t AND INIT \<noteq> 0} = {4, 5}"
    by (auto simp: wit_bits_def writer_new_def INIT_def)
  from conjunct2 [OF link_writers_finish [OF f, where dbg = True and B = wit_bits], rule_format, OF s(1) s(2) [rule_format], unfolded b]
  obtain xs where xs: "distinct xs" "set xs = {4, 5}" "chain (ls_older s) (ls_newest s) xs"
    "\<forall>t \<in> set xs. ls_pc s t = LinkDone (t = last xs)" "\<forall>t \<in> ?T - set xs. ls_pc s t = LinkPanic" by (elim exE conjE) (rule that)
  have "last xs \<in> set xs" using xs(2) by (intro last_in_set) auto
  then have l: "ls_pc s (last xs) = LinkDone True" using xs(4) by simp
  have p: "ls_pc s 6 = LinkPanic" using xs(2,5) by simp
  show ?thesis by (intro exI [of _ s] exI [of _ xs] conjI s(1) xs(1,2,3) l p)
qed

end
