(* ===== verification/Arena_Concurrent.thy ===== *)
theory Arena_Concurrent
  imports Arena Transition_Systems
begin

text \<open>
  The arena under concurrent allocation. Every thread runs \<^verbatim>\<open>alloc_raw\<close> for a layout of its own; each
  atomic access (loading the current chunk, loading the bump offset, the weak compare-and-swap, the
  byte count) and each step of \<^verbatim>\<open>try_new_chunk\<close> under its lock is a step of the system, so a chunk can
  be replaced, filled or bumped between any two of them. The shared state is the arena record of
  theory \<open>Arena\<close>.
\<close>

section \<open>Steps\<close>

datatype alloc_pc =
    CStart
  | CChunk nat
  | CBump nat nat
  | CChecked nat nat nat nat
  | CCased nat nat
  | CDone nat nat
  | CWantLock
  | CLocked
  | CRecheck nat
  | CGrow
  | CPublish
  | CFailed

record alloc_state =
  cs_arena :: arena
  cs_lock :: "nat option"
  cs_pc :: "nat \<Rightarrow> alloc_pc"

definition goto_pc :: "alloc_state \<Rightarrow> nat \<Rightarrow> alloc_pc \<Rightarrow> alloc_state" where
  "goto_pc s t pc = s\<lparr>cs_pc := (cs_pc s)(t := pc)\<rparr>"

inductive alloc_step :: "(nat \<Rightarrow> layout) \<Rightarrow> alloc_state \<Rightarrow> alloc_state \<Rightarrow> bool" for L where
  get_chunk: "cs_pc s t = CStart \<Longrightarrow>
    alloc_step L s (goto_pc s t (CChunk (current_chunk (cs_arena s))))"
| load_bump: "cs_pc s t = CChunk c \<Longrightarrow>
    alloc_step L s (goto_pc s t (CBump c (bump (chunks (cs_arena s) ! c))))"
| check_ok: "cs_pc s t = CBump c b \<Longrightarrow> alignment_check (cs_arena s) b (L t) = Inr (Inr (off, nx)) \<Longrightarrow>
    alloc_step L s (goto_pc s t (CChecked c b off nx))"
| check_fail: "cs_pc s t = CBump c b \<Longrightarrow> alignment_check (cs_arena s) b (L t) = Inr (Inl e) \<Longrightarrow>
    alloc_step L s (goto_pc s t CWantLock)"
| cas_ok: "cs_pc s t = CChecked c b off nx \<Longrightarrow> bump (chunks (cs_arena s) ! c) = b \<Longrightarrow>
    alloc_step L s (goto_pc (s\<lparr>cs_arena := set_bump (cs_arena s) c nx\<rparr>) t (CCased c off))"
| cas_fail: "cs_pc s t = CChecked c b off nx \<Longrightarrow> alloc_step L s (goto_pc s t CStart)"
| account: "cs_pc s t = CCased c off \<Longrightarrow>
    alloc_step L s (goto_pc (s\<lparr>cs_arena := add_memory_used (cs_arena s) (lay_size (L t))\<rparr>) t (CDone c off))"
| lock: "cs_pc s t = CWantLock \<Longrightarrow> cs_lock s = None \<Longrightarrow>
    alloc_step L s (goto_pc (s\<lparr>cs_lock := Some t\<rparr>) t CLocked)"
| reload: "cs_pc s t = CLocked \<Longrightarrow>
    alloc_step L s (goto_pc s t (CRecheck (bump (Arena.get_chunk (cs_arena s)))))"
| recheck_ok: "cs_pc s t = CRecheck b \<Longrightarrow> alignment_check (cs_arena s) b (L t) = Inr (Inr r) \<Longrightarrow>
    alloc_step L s (goto_pc (s\<lparr>cs_lock := None\<rparr>) t CStart)"
| recheck_full: "cs_pc s t = CRecheck b \<Longrightarrow> alignment_check (cs_arena s) b (L t) = Inr (Inl e) \<Longrightarrow>
    cap (policy (cs_arena s)) < allocated_bytes (cs_arena s) + block_size (policy (cs_arena s)) \<Longrightarrow>
    alloc_step L s (goto_pc (s\<lparr>cs_lock := None\<rparr>) t CFailed)"
| recheck_grow: "cs_pc s t = CRecheck b \<Longrightarrow> alignment_check (cs_arena s) b (L t) = Inr (Inl e) \<Longrightarrow>
    \<not> cap (policy (cs_arena s)) < allocated_bytes (cs_arena s) + block_size (policy (cs_arena s)) \<Longrightarrow>
    alloc_step L s (goto_pc (s\<lparr>cs_arena := (cs_arena s)\<lparr>allocated_bytes :=
      allocated_bytes (cs_arena s) + block_size (policy (cs_arena s))\<rparr>\<rparr>) t CGrow)"
| push: "cs_pc s t = CGrow \<Longrightarrow>
    alloc_step L s (goto_pc (s\<lparr>cs_arena := (cs_arena s)\<lparr>chunks :=
      chunks (cs_arena s) @ [chunk_new (block_size (policy (cs_arena s)))]\<rparr>\<rparr>) t CPublish)"
| publish: "cs_pc s t = CPublish \<Longrightarrow>
    alloc_step L s (goto_pc (s\<lparr>cs_arena := (cs_arena s)\<lparr>current_chunk := length (chunks (cs_arena s)) - 1\<rparr>,
      cs_lock := None\<rparr>) t CStart)"

definition alloc_init :: "arena \<Rightarrow> alloc_state" where
  "alloc_init a = \<lparr>cs_arena = a, cs_lock = None, cs_pc = (\<lambda>_. CStart)\<rparr>"

section \<open>Invariant\<close>

definition shape :: "arena \<Rightarrow> bool" where
  "shape a \<longleftrightarrow> policy_ok (policy a) \<and> current_chunk a < length (chunks a) \<and>
     (\<forall>c \<in> set (chunks a). mem_len c = block_size (policy a) \<and> bump c \<le> block_size (policy a))"

definition extends :: "arena \<Rightarrow> arena \<Rightarrow> bool" where
  "extends a a' \<longleftrightarrow> policy a' = policy a \<and> length (chunks a) \<le> length (chunks a') \<and>
     (\<forall>c < length (chunks a). bump (chunks a ! c) \<le> bump (chunks a' ! c))"

text \<open>What a thread knows at each point.\<close>

fun pc_ok :: "arena \<Rightarrow> layout \<Rightarrow> alloc_pc \<Rightarrow> bool" where
  "pc_ok a l (CChunk c) = (c < length (chunks a))"
| "pc_ok a l (CBump c b) = (c < length (chunks a) \<and> b \<le> block_size (policy a))"
| "pc_ok a l (CChecked c b off nx) = (c < length (chunks a) \<and> b \<le> off \<and> nx = off + lay_size l \<and>
     nx \<le> block_size (policy a) \<and> lay_align l dvd off)"
| "pc_ok a l (CCased c off) = (c < length (chunks a) \<and> off + lay_size l \<le> bump (chunks a ! c) \<and> lay_align l dvd off)"
| "pc_ok a l (CRecheck b) = (b \<le> block_size (policy a))"
| "pc_ok a l (CDone c off) = (c < length (chunks a) \<and> off + lay_size l \<le> bump (chunks a ! c) \<and> lay_align l dvd off)"
| "pc_ok a l _ = True"

text \<open>The region a thread has won, from its successful compare-and-swap on.\<close>

fun won :: "layout \<Rightarrow> alloc_pc \<Rightarrow> region option" where
  "won l (CCased c off) = Some (Ptr c off, lay_size l)"
| "won l (CDone c off) = Some (Ptr c off, lay_size l)"
| "won l _ = None"

fun holds_lock :: "alloc_pc \<Rightarrow> bool" where
  "holds_lock CLocked = True"
| "holds_lock (CRecheck b) = True"
| "holds_lock CGrow = True"
| "holds_lock CPublish = True"
| "holds_lock _ = False"

definition pending :: "alloc_state \<Rightarrow> nat" where
  "pending s = (case cs_lock s of None \<Rightarrow> 0 | Some t \<Rightarrow> if cs_pc s t = CGrow then 1 else 0)"

definition disjoint_won :: "(nat \<Rightarrow> layout) \<Rightarrow> alloc_state \<Rightarrow> bool" where
  "disjoint_won L s \<longleftrightarrow> (\<forall>t u r q. t \<noteq> u \<longrightarrow> won (L t) (cs_pc s t) = Some r \<longrightarrow> won (L u) (cs_pc s u) = Some q \<longrightarrow>
     \<not> overlap r q)"

definition conc_inv :: "(nat \<Rightarrow> layout) \<Rightarrow> alloc_state \<Rightarrow> bool" where
  "conc_inv L s \<longleftrightarrow> shape (cs_arena s) \<and> (\<forall>t. pc_ok (cs_arena s) (L t) (cs_pc s t)) \<and>
     (\<forall>t. holds_lock (cs_pc s t) \<longleftrightarrow> cs_lock s = Some t) \<and>
     allocated_bytes (cs_arena s) = (length (chunks (cs_arena s)) + pending s) * block_size (policy (cs_arena s)) \<and>
     allocated_bytes (cs_arena s) \<le> cap (policy (cs_arena s)) \<and>
     disjoint_won L s"

lemma extends_refl [simp]: "extends a a"
  by (simp add: extends_def)

lemma pc_ok_extends: "pc_ok a l pc \<Longrightarrow> extends a a' \<Longrightarrow> pc_ok a' l pc"
  by (cases pc) (auto simp: extends_def intro: order_trans less_le_trans)

lemma alignment_check_at:
  assumes "shape a" "layout_ok l" "b \<le> block_size (policy a)" "alignment_check a b l = Inr (Inr (off, nx))"
  shows "b \<le> off" "nx = off + lay_size l" "nx \<le> block_size (policy a)" "lay_align l dvd off"
proof -
  obtain k where k: "k \<le> 62" "lay_align l = 2 ^ k" using assms(2) by (auto simp: layout_ok_def)
  have m: "mem_len (Arena.get_chunk a) = block_size (policy a)"
    using assms(1) by (auto simp: shape_def Arena.get_chunk_def)
  have b: "b < isize_limit" using assms(1,3) by (auto simp: shape_def policy_ok_def)
  have eq: "off = round_up_mask (b + (2 ^ k - 1)) (2 ^ k)" "nx = off + lay_size l" "nx \<le> block_size (policy a)"
    using assms(4) m k by (auto simp: alignment_check_def rbind_eq_Inr_iff add_usize_def Let_def split: if_splits)
  show "b \<le> off" "lay_align l dvd off" using round_up_props [OF b k(1)] eq(1) k(2) by simp_all
  show "nx = off + lay_size l" "nx \<le> block_size (policy a)" using eq by simp_all
qed

lemma overlap_sym: "overlap r q = overlap q r"
  by (cases "(r, q)" rule: overlap.cases) auto

section \<open>Preservation\<close>

lemma goto_simps [simp]:
  "cs_arena (goto_pc s t pc) = cs_arena s" "cs_lock (goto_pc s t pc) = cs_lock s"
  "cs_pc (goto_pc s t pc) = (cs_pc s)(t := pc)"
  by (simp_all add: goto_pc_def)

lemma disjoint_wonD:
  "disjoint_won L s \<Longrightarrow> t \<noteq> u \<Longrightarrow> won (L t) (cs_pc s t) = Some r \<Longrightarrow> won (L u) (cs_pc s u) = Some q \<Longrightarrow> \<not> overlap r q"
  unfolding disjoint_won_def by blast

text \<open>A step of thread \<open>t\<close> that extends the arena keeps what the other threads know.\<close>

lemma conc_inv_frame:
  assumes inv: "conc_inv L s" and a: "extends (cs_arena s) a'" "shape a'" and pc: "pc_ok a' (L t) pc'"
    and lk: "holds_lock pc' \<longleftrightarrow> l' = Some t" "\<forall>u. u \<noteq> t \<longrightarrow> (l' = Some u \<longleftrightarrow> cs_lock s = Some u)"
    and al: "allocated_bytes a' = (length (chunks a') + pending (goto_pc (s\<lparr>cs_arena := a', cs_lock := l'\<rparr>) t pc'))
        * block_size (policy a')" "allocated_bytes a' \<le> cap (policy a')"
    and w: "\<And>u r q. u \<noteq> t \<Longrightarrow> won (L t) pc' = Some r \<Longrightarrow> won (L u) (cs_pc s u) = Some q \<Longrightarrow> \<not> overlap r q"
  shows "conc_inv L (goto_pc (s\<lparr>cs_arena := a', cs_lock := l'\<rparr>) t pc')"
proof -
  let ?s = "goto_pc (s\<lparr>cs_arena := a', cs_lock := l'\<rparr>) t pc'"
  have "pc_ok (cs_arena ?s) (L u) (cs_pc ?s u)" for u
    using inv pc pc_ok_extends [OF _ a(1)] by (simp add: conc_inv_def)
  moreover have "holds_lock (cs_pc ?s u) \<longleftrightarrow> cs_lock ?s = Some u" for u
    using inv lk by (cases "u = t") (auto simp: conc_inv_def)
  moreover have "\<not> overlap r q"
    if "u \<noteq> v" "won (L u) (cs_pc ?s u) = Some r" "won (L v) (cs_pc ?s v) = Some q" for u v r q
  proof -
    consider "u = t" | "v = t" | "u \<noteq> t" "v \<noteq> t" by blast
    then show ?thesis
    proof cases
      case 1
      then show ?thesis using that w [of v r q] by simp
    next
      case 2
      then show ?thesis using that w [of u q r] overlap_sym [of r q] by simp
    next
      case 3
      have "disjoint_won L s" using inv by (simp add: conc_inv_def)
      from disjoint_wonD [OF this that(1), of r q] 3 that(2,3) show ?thesis by simp
    qed
  qed
  then have "disjoint_won L ?s" unfolding disjoint_won_def by blast
  ultimately show ?thesis using a(2) al unfolding conc_inv_def by simp
qed

text \<open>A step that changes neither the arena nor the lock.\<close>

lemma pending_move:
  assumes "cs_pc s t \<noteq> CGrow" "pc' \<noteq> CGrow"
  shows "pending (goto_pc s t pc') = pending s"
  using assms by (auto simp: pending_def split: option.splits)

lemma conc_inv_local:
  assumes inv: "conc_inv L s" and pc: "pc_ok (cs_arena s) (L t) pc'" "won (L t) pc' = None"
    and lk: "holds_lock pc' \<longleftrightarrow> holds_lock (cs_pc s t)" "cs_pc s t \<noteq> CGrow" "pc' \<noteq> CGrow"
  shows "conc_inv L (goto_pc s t pc')"
proof -
  have s: "s\<lparr>cs_arena := cs_arena s, cs_lock := cs_lock s\<rparr> = s" by simp
  have "conc_inv L (goto_pc (s\<lparr>cs_arena := cs_arena s, cs_lock := cs_lock s\<rparr>) t pc')"
    by (rule conc_inv_frame [OF inv]) (use inv pc lk pending_move [OF lk(2,3)] in \<open>simp_all add: conc_inv_def s\<close>)
  then show ?thesis by (simp only: s)
qed

lemma won_below:
  assumes "conc_inv L s" "won (L u) (cs_pc s u) = Some q"
  shows "\<exists>c off. q = (Ptr c off, lay_size (L u)) \<and> c < length (chunks (cs_arena s)) \<and>
    off + lay_size (L u) \<le> bump (chunks (cs_arena s) ! c)"
proof -
  have "pc_ok (cs_arena s) (L u) (cs_pc s u)" using assms(1) by (simp add: conc_inv_def)
  then show ?thesis using assms(2) by (cases "cs_pc s u") auto
qed

lemma shape_set_bump:
  assumes "shape a" "c < length (chunks a)" "bump (chunks a ! c) \<le> nx" "nx \<le> block_size (policy a)"
  shows "shape (set_bump a c nx)" "extends a (set_bump a c nx)" "bump (chunks (set_bump a c nx) ! c) = nx"
    "allocated_bytes (set_bump a c nx) = allocated_bytes a" "policy (set_bump a c nx) = policy a"
    "length (chunks (set_bump a c nx)) = length (chunks a)"
proof -
  show "shape (set_bump a c nx)"
    using assms set_update_subset_insert [of "chunks a" c "(chunks a ! c)\<lparr>bump := nx\<rparr>"]
    by (fastforce simp: shape_def set_bump_def)
  show "extends a (set_bump a c nx)"
    using assms by (auto simp: extends_def set_bump_def nth_list_update)
qed (use assms in \<open>simp_all add: set_bump_def\<close>)

lemma lock_owner: "conc_inv L s \<Longrightarrow> holds_lock (cs_pc s t) \<Longrightarrow> cs_lock s = Some t"
  by (simp add: conc_inv_def)

lemma not_owner: "conc_inv L s \<Longrightarrow> \<not> holds_lock (cs_pc s t) \<Longrightarrow> cs_lock s \<noteq> Some t"
  by (simp add: conc_inv_def)

lemma conc_inv_cas:
  assumes inv: "conc_inv L s" and t: "cs_pc s t = CChecked c b off nx" and b: "bump (chunks (cs_arena s) ! c) = b"
  shows "conc_inv L (goto_pc (s\<lparr>cs_arena := set_bump (cs_arena s) c nx\<rparr>) t (CCased c off))"
proof -
  let ?a = "set_bump (cs_arena s) c nx"
  have "pc_ok (cs_arena s) (L t) (cs_pc s t)" using inv by (simp add: conc_inv_def)
  then have k: "c < length (chunks (cs_arena s))" "b \<le> off" "nx = off + lay_size (L t)"
    "nx \<le> block_size (policy (cs_arena s))" "lay_align (L t) dvd off" by (simp_all add: t)
  have sh: "shape (cs_arena s)" using inv by (simp add: conc_inv_def)
  have le: "bump (chunks (cs_arena s) ! c) \<le> nx" using b k by simp
  note sb = shape_set_bump [OF sh k(1) le k(4)]
  have nt: "cs_lock s \<noteq> Some t" using not_owner [OF inv, of t] t by simp
  have s: "s\<lparr>cs_arena := ?a, cs_lock := cs_lock s\<rparr> = s\<lparr>cs_arena := ?a\<rparr>" by simp
  have p: "pending (goto_pc (s\<lparr>cs_arena := ?a\<rparr>) t (CCased c off)) = pending s"
    using nt by (auto simp: pending_def split: option.splits)
  have "conc_inv L (goto_pc (s\<lparr>cs_arena := ?a, cs_lock := cs_lock s\<rparr>) t (CCased c off))"
  proof (rule conc_inv_frame [OF inv sb(2,1)])
    fix u r q
    assume u: "u \<noteq> t" "won (L t) (CCased c off) = Some r" "won (L u) (cs_pc s u) = Some q"
    obtain c' off' where q: "q = (Ptr c' off', lay_size (L u))" "off' + lay_size (L u) \<le> bump (chunks (cs_arena s) ! c')"
      using won_below [OF inv u(3)] by blast
    show "\<not> overlap r q" using u(2) q b k(2) by auto
  qed (use inv k sb nt p in \<open>simp_all add: conc_inv_def s\<close>)
  then show ?thesis by (simp only: s)
qed

lemma conc_inv_account:
  assumes inv: "conc_inv L s" and t: "cs_pc s t = CCased c off"
  shows "conc_inv L (goto_pc (s\<lparr>cs_arena := add_memory_used (cs_arena s) n\<rparr>) t (CDone c off))"
proof -
  let ?a = "add_memory_used (cs_arena s) n"
  have "pc_ok (cs_arena s) (L t) (cs_pc s t)" using inv by (simp add: conc_inv_def)
  then have k: "pc_ok ?a (L t) (CDone c off)" by (simp add: t add_memory_used_def)
  have a: "shape ?a" "extends (cs_arena s) ?a" "allocated_bytes ?a = allocated_bytes (cs_arena s)"
    "policy ?a = policy (cs_arena s)" "chunks ?a = chunks (cs_arena s)"
    using inv by (simp_all add: conc_inv_def shape_def extends_def add_memory_used_def)
  have nt: "cs_lock s \<noteq> Some t" using not_owner [OF inv, of t] t by simp
  have s: "s\<lparr>cs_arena := ?a, cs_lock := cs_lock s\<rparr> = s\<lparr>cs_arena := ?a\<rparr>" by simp
  have p: "pending (goto_pc (s\<lparr>cs_arena := ?a\<rparr>) t (CDone c off)) = pending s"
    using nt by (auto simp: pending_def split: option.splits)
  have "conc_inv L (goto_pc (s\<lparr>cs_arena := ?a, cs_lock := cs_lock s\<rparr>) t (CDone c off))"
  proof (rule conc_inv_frame [OF inv a(2,1) k])
    fix u r q
    assume u: "u \<noteq> t" "won (L t) (CDone c off) = Some r" "won (L u) (cs_pc s u) = Some q"
    have "disjoint_won L s" using inv by (simp add: conc_inv_def)
    from disjoint_wonD [OF this u(1), of q r] u t show "\<not> overlap r q" by (auto simp: overlap_sym)
  qed (use inv a nt p in \<open>simp_all add: conc_inv_def s\<close>)
  then show ?thesis by (simp only: s)
qed

text \<open>The steps of \<^verbatim>\<open>try_new_chunk\<close>: taking and dropping the lock, growing and publishing.\<close>

lemma conc_inv_lock:
  assumes inv: "conc_inv L s" and t: "cs_pc s t = CWantLock" and free: "cs_lock s = None"
  shows "conc_inv L (goto_pc (s\<lparr>cs_lock := Some t\<rparr>) t CLocked)"
proof -
  have s: "s\<lparr>cs_arena := cs_arena s, cs_lock := Some t\<rparr> = s\<lparr>cs_lock := Some t\<rparr>" by simp
  have "conc_inv L (goto_pc (s\<lparr>cs_arena := cs_arena s, cs_lock := Some t\<rparr>) t CLocked)"
    by (rule conc_inv_frame [OF inv]) (use inv free in \<open>simp_all add: conc_inv_def s pending_def\<close>)
  then show ?thesis by (simp only: s)
qed

lemma conc_inv_unlock:
  assumes inv: "conc_inv L s" and t: "cs_pc s t = CRecheck b" and pc: "pc = CStart \<or> pc = CFailed"
  shows "conc_inv L (goto_pc (s\<lparr>cs_lock := None\<rparr>) t pc)"
proof -
  have lk: "cs_lock s = Some t" using lock_owner [OF inv, of t] t by simp
  have s: "s\<lparr>cs_arena := cs_arena s, cs_lock := None\<rparr> = s\<lparr>cs_lock := None\<rparr>" by simp
  have "conc_inv L (goto_pc (s\<lparr>cs_arena := cs_arena s, cs_lock := None\<rparr>) t pc)"
    by (rule conc_inv_frame [OF inv]) (use inv lk t pc in \<open>auto simp: conc_inv_def s pending_def\<close>)
  then show ?thesis by (simp only: s)
qed

lemma conc_inv_grow:
  assumes inv: "conc_inv L s" and t: "cs_pc s t = CRecheck b"
    and room: "\<not> cap (policy (cs_arena s)) < allocated_bytes (cs_arena s) + block_size (policy (cs_arena s))"
  shows "conc_inv L (goto_pc (s\<lparr>cs_arena := (cs_arena s)\<lparr>allocated_bytes :=
      allocated_bytes (cs_arena s) + block_size (policy (cs_arena s))\<rparr>\<rparr>) t CGrow)"
proof -
  let ?a = "(cs_arena s)\<lparr>allocated_bytes := allocated_bytes (cs_arena s) + block_size (policy (cs_arena s))\<rparr>"
  have lk: "cs_lock s = Some t" using lock_owner [OF inv, of t] t by simp
  have s: "s\<lparr>cs_arena := ?a, cs_lock := Some t\<rparr> = s\<lparr>cs_arena := ?a\<rparr>" using lk by (cases s) simp
  have p: "pending s = 0" "pending (goto_pc (s\<lparr>cs_arena := ?a, cs_lock := Some t\<rparr>) t CGrow) = 1"
    using lk t by (simp_all add: pending_def)
  have "conc_inv L (goto_pc (s\<lparr>cs_arena := ?a, cs_lock := Some t\<rparr>) t CGrow)"
    by (rule conc_inv_frame [OF inv])
      (use inv lk room p in \<open>simp_all add: conc_inv_def shape_def extends_def\<close>)
  then show ?thesis by (simp only: s)
qed

lemma conc_inv_push:
  assumes inv: "conc_inv L s" and t: "cs_pc s t = CGrow"
  shows "conc_inv L (goto_pc (s\<lparr>cs_arena := (cs_arena s)\<lparr>chunks :=
      chunks (cs_arena s) @ [chunk_new (block_size (policy (cs_arena s)))]\<rparr>\<rparr>) t CPublish)"
proof -
  let ?a = "(cs_arena s)\<lparr>chunks := chunks (cs_arena s) @ [chunk_new (block_size (policy (cs_arena s)))]\<rparr>"
  have lk: "cs_lock s = Some t" using lock_owner [OF inv, of t] t by simp
  have s: "s\<lparr>cs_arena := ?a, cs_lock := Some t\<rparr> = s\<lparr>cs_arena := ?a\<rparr>" using lk by (cases s) simp
  have p: "pending s = 1" "pending (goto_pc (s\<lparr>cs_arena := ?a, cs_lock := Some t\<rparr>) t CPublish) = 0"
    using lk t by (simp_all add: pending_def)
  have e: "extends (cs_arena s) ?a" "shape ?a"
    using inv by (auto simp: extends_def shape_def conc_inv_def nth_append chunk_new_def)
  have "conc_inv L (goto_pc (s\<lparr>cs_arena := ?a, cs_lock := Some t\<rparr>) t CPublish)"
    by (rule conc_inv_frame [OF inv e]) (use inv lk p in \<open>simp_all add: conc_inv_def\<close>)
  then show ?thesis by (simp only: s)
qed

lemma conc_inv_publish:
  assumes inv: "conc_inv L s" and t: "cs_pc s t = CPublish"
  shows "conc_inv L (goto_pc (s\<lparr>cs_arena := (cs_arena s)\<lparr>current_chunk := length (chunks (cs_arena s)) - 1\<rparr>,
      cs_lock := None\<rparr>) t CStart)"
proof -
  have lk: "cs_lock s = Some t" using lock_owner [OF inv, of t] t by simp
  show ?thesis
    by (rule conc_inv_frame [OF inv])
      (use inv lk t in \<open>auto simp: conc_inv_def shape_def extends_def pending_def\<close>)
qed

lemma conc_inv_step:
  assumes "alloc_step L s s'" "conc_inv L s" "\<forall>t. layout_ok (L t)"
  shows "conc_inv L s'"
  using assms(1)
proof cases
  case (get_chunk t)
  have "current_chunk (cs_arena s) < length (chunks (cs_arena s))"
    using assms(2) by (simp add: conc_inv_def shape_def)
  then show ?thesis unfolding get_chunk(1) using get_chunk(2) by (intro conc_inv_local [OF assms(2)]) simp_all
next
  case (load_bump t c)
  then have "pc_ok (cs_arena s) (L t) (CChunk c)" using assms(2) by (metis conc_inv_def)
  moreover from this have "bump (chunks (cs_arena s) ! c) \<le> block_size (policy (cs_arena s))"
    using assms(2) by (simp add: conc_inv_def shape_def)
  ultimately show ?thesis unfolding load_bump(1) using load_bump(2) by (intro conc_inv_local [OF assms(2)]) simp_all
next
  case (check_ok t c b off nx)
  then have k: "pc_ok (cs_arena s) (L t) (CBump c b)" using assms(2) by (metis conc_inv_def)
  have sh: "shape (cs_arena s)" using assms(2) by (simp add: conc_inv_def)
  note al = alignment_check_at [OF sh assms(3) [rule_format] _ check_ok(3)]
  show ?thesis unfolding check_ok(1) using check_ok(2) k al by (intro conc_inv_local [OF assms(2)]) simp_all
next
  case (check_fail t c b e)
  show ?thesis unfolding check_fail(1) using check_fail(2) by (intro conc_inv_local [OF assms(2)]) simp_all
next
  case (cas_ok t c b off nx)
  then show ?thesis using conc_inv_cas [OF assms(2)] by simp
next
  case (cas_fail t c b off nx)
  show ?thesis unfolding cas_fail(1) using cas_fail(2) by (intro conc_inv_local [OF assms(2)]) simp_all
next
  case (account t c off)
  then show ?thesis using conc_inv_account [OF assms(2)] by simp
next
  case (lock t)
  then show ?thesis using conc_inv_lock [OF assms(2)] by simp
next
  case (reload t)
  have "bump (Arena.get_chunk (cs_arena s)) \<le> block_size (policy (cs_arena s))"
    using assms(2) by (simp add: conc_inv_def shape_def Arena.get_chunk_def)
  then show ?thesis unfolding reload(1) using reload(2) by (intro conc_inv_local [OF assms(2)]) simp_all
next
  case (recheck_ok t b r)
  then show ?thesis using conc_inv_unlock [OF assms(2)] by simp
next
  case (recheck_full t b e)
  then show ?thesis using conc_inv_unlock [OF assms(2)] by simp
next
  case (recheck_grow t b e)
  then show ?thesis using conc_inv_grow [OF assms(2)] by simp
next
  case (push t)
  then show ?thesis using conc_inv_push [OF assms(2)] by simp
next
  case (publish t)
  then show ?thesis using conc_inv_publish [OF assms(2)] by simp
qed

lemma conc_inv_init:
  assumes "arena_inv a"
  shows "conc_inv L (alloc_init a)"
proof -
  have "shape a" using assms arena_inv_chunk(1) [OF assms] by (auto simp: arena_inv_def shape_def)
  then show ?thesis using assms
    by (simp add: conc_inv_def alloc_init_def disjoint_won_def pending_def arena_inv_def)
qed

interpretation alloc_sys: invariant_system "alloc_step L" "\<lambda>s. \<exists>a. arena_inv a \<and> s = alloc_init a"
    "\<lambda>s. (\<forall>t. layout_ok (L t)) \<longrightarrow> conc_inv L s" for L
  by unfold_locales (use conc_inv_init conc_inv_step in blast)+

text \<open>
  C15: Under every interleaving of threads that allocate from one arena, the regions two threads have been
  given never overlap, each is aligned and lies inside its chunk below the chunk's bump offset, and the
  chunks together never exceed the arena's capacity.
\<close>

theorem arena_concurrent_safe:
  assumes "(alloc_step L)\<^sup>*\<^sup>* (alloc_init a) s" "arena_inv a" "\<forall>t. layout_ok (L t)"
    "t \<noteq> u" "cs_pc s t = CDone c off" "cs_pc s u = CDone c' off'"
  shows "\<not> overlap (Ptr c off, lay_size (L t)) (Ptr c' off', lay_size (L u)) \<and>
    c < length (chunks (cs_arena s)) \<and> off + lay_size (L t) \<le> bump (chunks (cs_arena s) ! c) \<and>
    bump (chunks (cs_arena s) ! c) \<le> block_size (policy (cs_arena s)) \<and> lay_align (L t) dvd off \<and>
    length (chunks (cs_arena s)) * block_size (policy (cs_arena s)) \<le> cap (policy (cs_arena s))"
proof -
  have inv: "conc_inv L s" using alloc_sys.reachable_inv [OF assms(1)] assms(2,3) by blast
  then have d: "disjoint_won L s" and k: "pc_ok (cs_arena s) (L t) (cs_pc s t)" and sh: "shape (cs_arena s)"
    and al: "(length (chunks (cs_arena s)) + pending s) * block_size (policy (cs_arena s)) \<le> cap (policy (cs_arena s))"
    by (simp_all add: conc_inv_def)
  have "length (chunks (cs_arena s)) * block_size (policy (cs_arena s)) \<le> cap (policy (cs_arena s))"
    using al by (simp add: add_mult_distrib)
  moreover have "\<not> overlap (Ptr c off, lay_size (L t)) (Ptr c' off', lay_size (L u))"
    by (rule disjoint_wonD [OF d assms(4)]) (simp_all add: assms(5,6))
  ultimately show ?thesis using k sh assms(5) by (simp add: shape_def del: overlap.simps)
qed

text \<open>Runs of one thread from a free lock: up to the compare-and-swap, and from it to the return.\<close>

abbreviation run_state :: "arena \<Rightarrow> (nat \<Rightarrow> alloc_pc) \<Rightarrow> alloc_state" where
  "run_state a f \<equiv> \<lparr>cs_arena = a, cs_lock = None, cs_pc = f\<rparr>"

lemma run_to_cas:
  assumes "f t = CStart" "alignment_check a (bump (Arena.get_chunk a)) (L t) = Inr (Inr (off, nx))"
  shows "(alloc_step L)\<^sup>*\<^sup>* (run_state a f)
    (run_state a (f(t := CChecked (current_chunk a) (bump (Arena.get_chunk a)) off nx)))"
proof -
  have 1: "alloc_step L (run_state a f) (run_state a (f(t := CChunk (current_chunk a))))"
    using alloc_step.get_chunk [of "run_state a f" t L] assms(1) by (simp add: goto_pc_def)
  have 2: "alloc_step L (run_state a (f(t := CChunk (current_chunk a))))
      (run_state a (f(t := CBump (current_chunk a) (bump (Arena.get_chunk a)))))"
    using alloc_step.load_bump [of "run_state a (f(t := CChunk (current_chunk a)))" t "current_chunk a" L]
    by (simp add: goto_pc_def Arena.get_chunk_def)
  have 3: "alloc_step L (run_state a (f(t := CBump (current_chunk a) (bump (Arena.get_chunk a)))))
      (run_state a (f(t := CChecked (current_chunk a) (bump (Arena.get_chunk a)) off nx)))"
    using alloc_step.check_ok [of "run_state a (f(t := CBump (current_chunk a) (bump (Arena.get_chunk a))))" t
        "current_chunk a" "bump (Arena.get_chunk a)" L off nx] assms(2)
    by (simp add: goto_pc_def)
  show ?thesis using 1 2 3 by (meson converse_rtranclp_into_rtranclp r_into_rtranclp)
qed

lemma run_from_cas:
  assumes "f t = CChecked c b off nx" "bump (chunks a ! c) = b"
  shows "(alloc_step L)\<^sup>*\<^sup>* (run_state a f)
    (run_state (add_memory_used (set_bump a c nx) (lay_size (L t))) (f(t := CDone c off)))"
proof -
  have 1: "alloc_step L (run_state a f) (run_state (set_bump a c nx) (f(t := CCased c off)))"
    using alloc_step.cas_ok [of "run_state a f" t c b off nx L] assms by (simp add: goto_pc_def)
  have 2: "alloc_step L (run_state (set_bump a c nx) (f(t := CCased c off)))
      (run_state (add_memory_used (set_bump a c nx) (lay_size (L t))) (f(t := CDone c off)))"
    using alloc_step.account [of "run_state (set_bump a c nx) (f(t := CCased c off))" t c off L]
    by (simp add: goto_pc_def)
  show ?thesis using 1 2 by (meson converse_rtranclp_into_rtranclp r_into_rtranclp)
qed

lemma run_retry:
  assumes "f t = CChecked c b off nx"
  shows "(alloc_step L)\<^sup>*\<^sup>* (run_state a f) (run_state a (f(t := CStart)))"
  using alloc_step.cas_fail [of "run_state a f" t c b off nx L] assms by (auto simp: goto_pc_def)

text \<open>
  Two threads race for the same bump offset: both read 0, thread 0 wins the compare-and-swap, thread 1
  fails it, reads again and is given the next eight bytes.
\<close>

abbreviation race_arena :: "nat \<Rightarrow> nat \<Rightarrow> arena" where
  "race_arena b m \<equiv> \<lparr>current_chunk = 0, chunks = [\<lparr>mem_len = 16, bump = b\<rparr>], allocated_bytes = 16, memory_used = m,
     ar_allocator = System, policy = \<lparr>block_size = 16, cap = 16\<rparr>\<rparr>"

abbreviation lay8 :: "nat \<Rightarrow> layout" where
  "lay8 \<equiv> \<lambda>_. \<lparr>lay_size = 8, lay_align = 8\<rparr>"

lemma race_check:
  "alignment_check (race_arena 0 m) 0 \<lparr>lay_size = 8, lay_align = 8\<rparr> = Inr (Inr (0, 8))"
  "alignment_check (race_arena 8 m) 8 \<lparr>lay_size = 8, lay_align = 8\<rparr> = Inr (Inr (8, 16))"
  by (simp_all add: alignment_check_def add_usize_def Arena.get_chunk_def round_up_mask_def Let_def)

lemma alloc_race:
  "(alloc_step lay8)\<^sup>*\<^sup>* (alloc_init (race_arena 0 0))
     (run_state (race_arena 16 16) ((\<lambda>_. CStart)(0 := CDone 0 0, 1 := CDone 0 8)))"
proof -
  let ?r = "(alloc_step lay8)\<^sup>*\<^sup>*" and ?f = "\<lambda>_ :: nat. CStart"
  note simps = Arena.get_chunk_def race_check set_bump_def add_memory_used_def
  have a: "?r (alloc_init (race_arena 0 0)) (run_state (race_arena 0 0) (?f(0 := CChecked 0 0 0 8)))"
    using run_to_cas [of ?f 0 "race_arena 0 0" lay8 0 8] by (simp add: simps alloc_init_def)
  have b: "?r (run_state (race_arena 0 0) (?f(0 := CChecked 0 0 0 8)))
      (run_state (race_arena 0 0) (?f(0 := CChecked 0 0 0 8, 1 := CChecked 0 0 0 8)))"
    using run_to_cas [of "?f(0 := CChecked 0 0 0 8)" 1 "race_arena 0 0" lay8 0 8] by (simp add: simps)
  have c: "?r (run_state (race_arena 0 0) (?f(0 := CChecked 0 0 0 8, 1 := CChecked 0 0 0 8)))
      (run_state (race_arena 8 8) (?f(0 := CDone 0 0, 1 := CChecked 0 0 0 8)))"
    using run_from_cas [of "?f(0 := CChecked 0 0 0 8, 1 := CChecked 0 0 0 8)" 0 0 0 0 8 "race_arena 0 0" lay8]
    by (simp add: simps fun_upd_twist [of "Suc 0" 0])
  have d: "?r (run_state (race_arena 8 8) (?f(0 := CDone 0 0, 1 := CChecked 0 0 0 8)))
      (run_state (race_arena 8 8) (?f(0 := CDone 0 0, 1 := CStart)))"
    using run_retry [of "?f(0 := CDone 0 0, 1 := CChecked 0 0 0 8)" 1 0 0 0 8 lay8 "race_arena 8 8"] by simp
  have e: "?r (run_state (race_arena 8 8) (?f(0 := CDone 0 0, 1 := CStart)))
      (run_state (race_arena 8 8) (?f(0 := CDone 0 0, 1 := CChecked 0 8 8 16)))"
    using run_to_cas [of "?f(0 := CDone 0 0, 1 := CStart)" 1 "race_arena 8 8" lay8 8 16] by (simp add: simps)
  have f: "?r (run_state (race_arena 8 8) (?f(0 := CDone 0 0, 1 := CChecked 0 8 8 16)))
      (run_state (race_arena 16 16) (?f(0 := CDone 0 0, 1 := CDone 0 8)))"
    using run_from_cas [of "?f(0 := CDone 0 0, 1 := CChecked 0 8 8 16)" 1 0 8 8 16 "race_arena 8 8" lay8]
    by (simp add: simps)
  show ?thesis using a b c d e f by (meson rtranclp_trans)
qed

theorem arena_concurrent_safe_witness:
  "\<not> overlap (Ptr 0 0, 8) (Ptr 0 8, 8) \<and> (0 :: nat) < 1 \<and> (0 :: nat) + 8 \<le> 16 \<and> (8 :: nat) dvd 0"
proof -
  have "arena_inv (race_arena 0 0)" by (auto simp: arena_inv_def policy_ok_def)
  from arena_concurrent_safe [OF alloc_race this, of 0 1 0 0 0 8] layout_8_8 show ?thesis by simp
qed

end
