(* ===== verification/Arena_Progress.thy ===== *)
theory Arena_Progress
  imports Arena_Concurrent Team_Rank
begin

text \<open>
  Allocation finishes under contention. When finitely many threads allocate from one arena and no weak
  compare-and-swap fails without cause, all of them return or panic because the arena is full: a thread repeats
  its loop only because another one has won a region or a chunk was added, and both happen finitely often. The
  lock of \<^verbatim>\<open>try_new_chunk\<close> is always given back.
\<close>

section \<open>Rank\<close>

definition fits_at :: "arena \<Rightarrow> nat \<Rightarrow> layout \<Rightarrow> bool" where
  "fits_at a b l \<longleftrightarrow> (\<exists>r. alignment_check a b l = Inr (Inr r))"

text \<open>What a thread has read still holds, so that it will not have to start again.\<close>

fun up_to_date :: "arena \<Rightarrow> layout \<Rightarrow> alloc_pc \<Rightarrow> bool" where
  "up_to_date a l (CChunk c) = (c = current_chunk a)"
| "up_to_date a l (CBump c b) = (c = current_chunk a \<and> b = bump (Arena.get_chunk a))"
| "up_to_date a l (CChecked c b off nx) = (bump (chunks a ! c) = b)"
| "up_to_date a l CWantLock = (\<not> fits_at a (bump (Arena.get_chunk a)) l)"
| "up_to_date a l CLocked = (\<not> fits_at a (bump (Arena.get_chunk a)) l)"
| "up_to_date a l (CRecheck b) = (\<not> fits_at a b l)"
| "up_to_date a l _ = True"

fun alloc_pos :: "alloc_pc \<Rightarrow> nat" where
  "alloc_pos CStart = 8"
| "alloc_pos (CChunk c) = 7"
| "alloc_pos (CBump c b) = 6"
| "alloc_pos (CChecked c b off nx) = 5"
| "alloc_pos CWantLock = 4"
| "alloc_pos CLocked = 3"
| "alloc_pos (CRecheck b) = 2"
| "alloc_pos (CCased c off) = 1"
| "alloc_pos _ = 0"

definition alloc_rank :: "(nat \<Rightarrow> layout) \<Rightarrow> alloc_state \<Rightarrow> nat \<Rightarrow> nat \<times> nat" where
  "alloc_rank L s t = (if up_to_date (cs_arena s) (L t) (cs_pc s t) then 0 else 1, alloc_pos (cs_pc s t))"

text \<open>A region to win, and the chunk a thread is about to add.\<close>

fun alloc_wins :: "alloc_pc \<Rightarrow> nat" where
  "alloc_wins (CCased c off) = 0"
| "alloc_wins (CDone c off) = 0"
| "alloc_wins CGrow = 3"
| "alloc_wins CPublish = 2"
| "alloc_wins _ = 1"

definition growth_left :: "arena \<Rightarrow> nat" where
  "growth_left a = 3 * (cap (policy a) - allocated_bytes a)"

text \<open>A weak compare-and-swap that fails although the offset is the one expected.\<close>

definition spurious :: "alloc_state \<Rightarrow> alloc_state \<Rightarrow> bool" where
  "spurious s s' \<longleftrightarrow> (\<exists>t c b off nx. cs_pc s t = CChecked c b off nx \<and> bump (chunks (cs_arena s) ! c) = b \<and> cs_pc s' t = CStart)"

definition team_alloc :: "(nat \<Rightarrow> layout) \<Rightarrow> nat set \<Rightarrow> alloc_state \<Rightarrow> alloc_state \<Rightarrow> bool" where
  "team_alloc L T s s' \<longleftrightarrow> alloc_step L s s' \<and> (\<forall>u. u \<notin> T \<longrightarrow> cs_pc s' u = cs_pc s u) \<and> \<not> spurious s s'"

section \<open>Every step lowers the rank\<close>

definition alloc_lowers :: "(nat \<Rightarrow> layout) \<Rightarrow> nat \<Rightarrow> alloc_state \<Rightarrow> alloc_state \<Rightarrow> bool" where
  "alloc_lowers L t s s' \<longleftrightarrow> cs_pc s' t \<noteq> cs_pc s t \<and> (\<forall>u. u \<noteq> t \<longrightarrow> cs_pc s' u = cs_pc s u) \<and>
     (growth_left (cs_arena s') + alloc_wins (cs_pc s' t) < growth_left (cs_arena s) + alloc_wins (cs_pc s t) \<or>
      growth_left (cs_arena s') + alloc_wins (cs_pc s' t) = growth_left (cs_arena s) + alloc_wins (cs_pc s t) \<and>
      (\<forall>u. u \<noteq> t \<longrightarrow> alloc_rank L s' u = alloc_rank L s u) \<and> alloc_rank L s' t < alloc_rank L s t)"

text \<open>A step that leaves the arena as it is; the byte count is read by no one.\<close>

lemma lowers_local:
  assumes "cs_pc s' = cs_pc s" "cs_arena s' = cs_arena s" "alloc_wins pc = alloc_wins (cs_pc s t)" "pc \<noteq> cs_pc s t"
    "up_to_date (cs_arena s) (L t) (cs_pc s t) \<longrightarrow> up_to_date (cs_arena s) (L t) pc \<and> alloc_pos pc < alloc_pos (cs_pc s t)"
    "up_to_date (cs_arena s) (L t) pc \<or> alloc_pos pc < alloc_pos (cs_pc s t)"
  shows "\<exists>u. alloc_lowers L u s (goto_pc s' t pc)"
  using assms by (intro exI [of _ t]) (auto simp: alloc_lowers_def alloc_rank_def)

text \<open>A step that grows the arena or wins a region.\<close>

lemma lowers_global:
  assumes "cs_pc s' = cs_pc s" "pc \<noteq> cs_pc s t"
    "growth_left (cs_arena s') + alloc_wins pc < growth_left (cs_arena s) + alloc_wins (cs_pc s t)"
  shows "\<exists>u. alloc_lowers L u s (goto_pc s' t pc)"
  using assms by (intro exI [of _ t]) (auto simp: alloc_lowers_def)

lemma up_to_date_account: "up_to_date (add_memory_used a n) l pc = up_to_date a l pc"
proof -
  have g: "Arena.get_chunk (add_memory_used a n) = Arena.get_chunk a" "current_chunk (add_memory_used a n) = current_chunk a"
    "chunks (add_memory_used a n) = chunks a" by (simp_all add: Arena.get_chunk_def add_memory_used_def)
  have "alignment_check (add_memory_used a n) b l = alignment_check a b l" for b unfolding alignment_check_def g ..
  then show ?thesis by (cases pc) (simp_all add: fits_at_def g)
qed

lemma step_lowers:
  assumes "alloc_step L s s'" "\<not> spurious s s'" "conc_inv L s"
  shows "\<exists>t. alloc_lowers L t s s'"
  using assms(1)
proof cases
  case (cas_fail t c b off nx)
  then have "bump (chunks (cs_arena s) ! c) \<noteq> b" using assms(2) unfolding spurious_def by fastforce
  then show ?thesis unfolding cas_fail(1) by (intro lowers_local) (auto simp: cas_fail(2))
next
  case (account t c off)
  have "growth_left (cs_arena s') = growth_left (cs_arena s)"
    unfolding account(1) by (simp add: growth_left_def add_memory_used_def)
  then have "alloc_lowers L t s s'" using account by (auto simp: alloc_lowers_def alloc_rank_def up_to_date_account)
  then show ?thesis by blast
next
  case (recheck_grow t b e)
  have "0 < block_size (policy (cs_arena s))" using assms(3) by (simp add: conc_inv_def shape_def policy_ok_def)
  then show ?thesis unfolding recheck_grow(1) using recheck_grow(2-) by (intro lowers_global) (auto simp: growth_left_def)
qed (simp only:, ((rule lowers_local; force simp: Arena.get_chunk_def fits_at_def) |
  (rule lowers_global; force simp: growth_left_def set_bump_def)))+

definition team_alloc_rank :: "(nat \<Rightarrow> layout) \<Rightarrow> nat set \<Rightarrow> alloc_state \<Rightarrow> nat \<times> (nat \<times> nat) multiset" where
  "team_alloc_rank L T s = team_measure T (growth_left (cs_arena s)) (\<lambda>t. alloc_wins (cs_pc s t)) (alloc_rank L s)"

lemma team_alloc_lowers:
  assumes "team_alloc L T s s'" "conc_inv L s" "finite T"
  shows "team_alloc_rank L T s' < team_alloc_rank L T s"
proof -
  obtain t where t: "alloc_lowers L t s s'" using step_lowers assms(1,2) unfolding team_alloc_def by blast
  then have "t \<in> T" using assms(1) unfolding team_alloc_def alloc_lowers_def by blast
  then show ?thesis unfolding team_alloc_rank_def
    by (rule team_measure_less [OF assms(3)]) (use t in \<open>auto simp: alloc_lowers_def\<close>)
qed

section \<open>No deadlock\<close>

definition alloc_returned :: "alloc_pc \<Rightarrow> bool" where
  "alloc_returned pc \<longleftrightarrow> (\<exists>c off. pc = CDone c off) \<or> pc = CFailed"

lemma check_defined:
  assumes "shape a" "layout_ok l" "b \<le> block_size (policy a)"
  shows "\<exists>r. alignment_check a b l = Inr r"
proof -
  obtain k where k: "k \<le> 62" "lay_align l = 2 ^ k" using assms(2) by (auto simp: layout_ok_def)
  have "(2 :: nat) ^ k \<le> 2 ^ 62" using k(1) by (intro power_increasing) simp_all
  moreover have "b < 2 ^ 60" using assms(1,3) by (auto simp: shape_def policy_ok_def)
  ultimately have "b + (lay_align l - 1) < usize_limit" using k(2) by simp
  then show ?thesis by (simp add: alignment_check_def add_usize_def Let_def)
qed

definition thread_steps :: "(nat \<Rightarrow> layout) \<Rightarrow> nat \<Rightarrow> alloc_state \<Rightarrow> bool" where
  "thread_steps L t s \<longleftrightarrow> (\<exists>s'. alloc_step L s s' \<and> (\<forall>u. u \<noteq> t \<longrightarrow> cs_pc s' u = cs_pc s u) \<and> \<not> spurious s s')"

lemma thread_stepsI:
  assumes "alloc_step L s s'" "\<And>u. u \<noteq> t \<Longrightarrow> cs_pc s' u = cs_pc s u"
    "\<And>c b off nx. cs_pc s t = CChecked c b off nx \<Longrightarrow> bump (chunks (cs_arena s) ! c) = b \<Longrightarrow> cs_pc s' t \<noteq> CStart"
  shows "thread_steps L t s"
  using assms unfolding thread_steps_def spurious_def by (metis alloc_pc.distinct(5))

text \<open>Both alignment checks have an outcome, and each outcome a step.\<close>

lemma check_steps:
  assumes "cs_pc s t = CBump c b" "alignment_check (cs_arena s) b (L t) = Inr r"
  shows "thread_steps L t s"
proof (cases r)
  case (Inl e)
  show ?thesis by (rule thread_stepsI [OF check_fail [OF assms(1), of L e]]) (use assms Inl in auto)
next
  case (Inr x)
  show ?thesis by (rule thread_stepsI [OF check_ok [OF assms(1), of L "fst x" "snd x"]]) (use assms Inr in auto)
qed

lemma recheck_steps:
  assumes "cs_pc s t = CRecheck b" "alignment_check (cs_arena s) b (L t) = Inr r"
  shows "thread_steps L t s"
proof (cases r)
  case (Inl e)
  show ?thesis
  proof (cases "cap (policy (cs_arena s)) < allocated_bytes (cs_arena s) + block_size (policy (cs_arena s))")
    case True
    show ?thesis by (rule thread_stepsI [OF recheck_full [OF assms(1), of L e]]) (use assms Inl True in auto)
  next
    case False
    show ?thesis by (rule thread_stepsI [OF recheck_grow [OF assms(1), of L e]]) (use assms Inl False in auto)
  qed
next
  case (Inr x)
  show ?thesis by (rule thread_stepsI [OF recheck_ok [OF assms(1), of L x]]) (use assms Inr in auto)
qed

lemma cas_steps:
  assumes "cs_pc s t = CChecked c b off nx"
  shows "thread_steps L t s"
proof (cases "bump (chunks (cs_arena s) ! c) = b")
  case True
  show ?thesis by (rule thread_stepsI [OF cas_ok [OF assms True]]) (use assms in auto)
next
  case False
  show ?thesis by (rule thread_stepsI [OF cas_fail [OF assms]]) (use assms False in auto)
qed

text \<open>A thread has a step unless it has returned or waits for the lock.\<close>

lemma thread_enabled:
  assumes inv: "conc_inv L s" and lay: "\<forall>t. layout_ok (L t)"
    and nr: "\<not> alloc_returned (cs_pc s t)" and w: "cs_pc s t = CWantLock \<longrightarrow> cs_lock s = None"
  shows "thread_steps L t s"
proof -
  have sh: "shape (cs_arena s)" and pc: "pc_ok (cs_arena s) (L t) (cs_pc s t)" using inv by (simp_all add: conc_inv_def)
  have ck: "\<exists>r. alignment_check (cs_arena s) b (L t) = Inr r" if "b \<le> block_size (policy (cs_arena s))" for b
    by (rule check_defined [OF sh lay [rule_format] that])
  show ?thesis
  proof (cases "cs_pc s t")
    case CStart
    show ?thesis by (rule thread_stepsI [OF alloc_step.get_chunk [OF CStart]]) (auto simp: CStart)
  next
    case (CChunk c)
    show ?thesis by (rule thread_stepsI [OF load_bump [OF CChunk]]) (auto simp: CChunk)
  next
    case (CCased c off)
    show ?thesis by (rule thread_stepsI [OF account [OF CCased]]) (auto simp: CCased)
  next
    case CWantLock
    show ?thesis by (rule thread_stepsI [OF lock [OF CWantLock]]) (use w CWantLock in auto)
  next
    case CLocked
    show ?thesis by (rule thread_stepsI [OF reload [OF CLocked]]) (auto simp: CLocked)
  next
    case CGrow
    show ?thesis by (rule thread_stepsI [OF push [OF CGrow]]) (auto simp: CGrow)
  next
    case CPublish
    show ?thesis by (rule thread_stepsI [OF publish [OF CPublish]]) (auto simp: CPublish)
  qed (use nr pc ck check_steps recheck_steps cas_steps in \<open>fastforce simp: alloc_returned_def\<close>)+
qed

section \<open>All threads finish\<close>

definition team_alloc_inv :: "(nat \<Rightarrow> layout) \<Rightarrow> nat set \<Rightarrow> alloc_state \<Rightarrow> bool" where
  "team_alloc_inv L T s \<longleftrightarrow> finite T \<and> (\<forall>t. layout_ok (L t)) \<and> conc_inv L s \<and> (\<forall>u. u \<notin> T \<longrightarrow> cs_pc s u = CStart)"

lemma team_enabled:
  assumes inv: "team_alloc_inv L T s" and t: "t \<in> T" "\<not> alloc_returned (cs_pc s t)"
  shows "\<exists>s'. team_alloc L T s s'"
proof -
  have c: "conc_inv L s" "\<forall>t. layout_ok (L t)" "\<And>u. u \<notin> T \<Longrightarrow> cs_pc s u = CStart" using inv by (auto simp: team_alloc_inv_def)
  have lk: "holds_lock (cs_pc s u) \<longleftrightarrow> cs_lock s = Some u" for u using c(1) by (simp add: conc_inv_def)
  have go: "\<exists>s'. team_alloc L T s s'" if "u \<in> T" "\<not> alloc_returned (cs_pc s u)" "cs_pc s u = CWantLock \<longrightarrow> cs_lock s = None" for u
    using thread_enabled [OF c(1,2) that(2,3)] that(1) unfolding team_alloc_def thread_steps_def by metis
  show ?thesis
  proof (cases "cs_lock s")
    case (Some v)
    then have h: "holds_lock (cs_pc s v)" using lk by simp
    then have "v \<in> T" using c(3) by fastforce
    then show ?thesis using h by (intro go [of v]) (auto simp: alloc_returned_def)
  qed (use go t in blast)
qed

interpretation team_alloc_sys: terminating_system "team_alloc L T"
    "\<lambda>s. finite T \<and> (\<forall>t. layout_ok (L t)) \<and> (\<exists>a. arena_inv a \<and> s = alloc_init a)"
    "team_alloc_inv L T" "team_alloc_rank L T" for L T
proof unfold_locales
  show "team_alloc_inv L T s" if "finite T \<and> (\<forall>t. layout_ok (L t)) \<and> (\<exists>a. arena_inv a \<and> s = alloc_init a)" for s
    using that conc_inv_init by (auto simp: team_alloc_inv_def alloc_init_def)
  show "team_alloc_inv L T s'" if "team_alloc_inv L T s" "team_alloc L T s s'" for s s'
    using that conc_inv_step unfolding team_alloc_inv_def team_alloc_def by metis
  show "team_alloc_rank L T s' < team_alloc_rank L T s" if "team_alloc_inv L T s" "team_alloc L T s s'" for s s'
    using that team_alloc_lowers unfolding team_alloc_inv_def by blast
qed

text \<open>
  C16: Allocation under contention finishes. Let finitely many threads allocate from one arena, with any layouts and in
  any interleaving in which no weak compare-and-swap fails although the bump offset is the expected one: every
  sequence of their steps is finite, and as long as one of them has neither returned nor panicked because the
  arena is full some step can be taken. No thread waits forever for the lock of \<^verbatim>\<open>try_new_chunk\<close>.
\<close>

theorem arena_alloc_finishes:
  assumes "arena_inv a" "\<forall>t. layout_ok (L t)" "finite T"
  shows "(\<forall>f. f 0 = alloc_init a \<longrightarrow> (\<exists>i. \<not> team_alloc L T (f i) (f (Suc i)))) \<and>
    (\<forall>s. (team_alloc L T)\<^sup>*\<^sup>* (alloc_init a) s \<longrightarrow> (\<forall>t \<in> T. alloc_returned (cs_pc s t)) \<or> (\<exists>y. team_alloc L T s y))"
proof -
  have i: "team_alloc_inv L T (alloc_init a)" using team_alloc_sys.start_inv assms by blast
  have "\<exists>i. \<not> team_alloc L T (f i) (f (Suc i))" if "f 0 = alloc_init a" for f
    using team_alloc_sys.no_infinite_run [of L T f] i that by simp
  moreover have "(\<forall>t \<in> T. alloc_returned (cs_pc s t)) \<or> (\<exists>y. team_alloc L T s y)"
    if "(team_alloc L T)\<^sup>*\<^sup>* (alloc_init a) s" for s
    using team_enabled [OF team_alloc_sys.inv_steps [OF that i]] by blast
  ultimately show ?thesis by blast
qed

theorem arena_alloc_finishes_witness:
  "\<exists>s. (team_alloc lay8 {0, 1})\<^sup>*\<^sup>* (alloc_init (race_arena 0 0)) s \<and> alloc_returned (cs_pc s 0) \<and> alloc_returned (cs_pc s 1)"
proof -
  let ?T = "{0, 1} :: nat set"
  have i: "arena_inv (race_arena 0 0)" by (auto simp: arena_inv_def policy_ok_def)
  have l: "\<forall>t. layout_ok (lay8 t)" using layout_8_8 by simp
  have "team_alloc_inv lay8 ?T (alloc_init (race_arena 0 0))"
    using team_alloc_sys.start_inv [of ?T lay8 "alloc_init (race_arena 0 0)"] i l by blast
  from team_alloc_sys.runs_to_end [OF this] obtain s where s: "(team_alloc lay8 ?T)\<^sup>*\<^sup>* (alloc_init (race_arena 0 0)) s"
    "\<forall>y. \<not> team_alloc lay8 ?T s y" by blast
  have "finite ?T" by simp
  from conjunct2 [OF arena_alloc_finishes [OF i l this], rule_format, OF s(1)] s(2)
  have "\<forall>t \<in> ?T. alloc_returned (cs_pc s t)" by blast
  then show ?thesis using s(1) by (intro exI [of _ s]) simp
qed

end
