(* ===== verification/Hazard.thy ===== *)
theory Hazard
  imports VDB_Prelude
begin

text \<open>
  Hazard pointers of \<^verbatim>\<open>crates/mem/src/hazard\<close>: the records of a domain, their acquisition from the
  list of available records or by allocation, their release, and the protection of an object
  pointer, executed by one thread. The available list's head carries a lock bit in its address; here
  it is a pointer and a bit. A record's address is a number; allocation takes the next unused one.
  What other threads do to the source of a protected pointer is the parameter \<open>obs\<close>: the values of
  the successive loads. The interleavings of acquisitions are in theory \<open>Hazard_Concurrent\<close>.
\<close>

section \<open>Records and domains\<close>

type_synonym rptr = "nat option"
type_synonym optr = "nat option"

record hzd_rec =
  r_ptr :: optr
  r_next :: rptr
  r_available :: rptr

record domain =
  d_head :: rptr
  d_avail :: rptr
  d_lock :: bool
  d_count :: nat
  d_recs :: "nat \<Rightarrow> hzd_rec option"
  d_fresh :: nat

definition domain_new :: domain where
  "domain_new = \<lparr>d_head = None, d_avail = None, d_lock = False, d_count = 0, d_recs = Map.empty, d_fresh = 0\<rparr>"

definition rec_at :: "domain \<Rightarrow> nat \<Rightarrow> hzd_rec res" where
  "rec_at d r = (case d_recs d r of None \<Rightarrow> Inl InvalidAccess | Some x \<Rightarrow> Inr x)"

definition set_available :: "domain \<Rightarrow> nat \<Rightarrow> rptr \<Rightarrow> domain res" where
  "set_available d r a = rbind (rec_at d r) (\<lambda>x. Inr (d\<lparr>d_recs := (d_recs d)(r \<mapsto> x\<lparr>r_available := a\<rparr>)\<rparr>))"

definition set_ptr :: "domain \<Rightarrow> nat \<Rightarrow> optr \<Rightarrow> domain res" where
  "set_ptr d r p = rbind (rec_at d r) (\<lambda>x. Inr (d\<lparr>d_recs := (d_recs d)(r \<mapsto> x\<lparr>r_ptr := p\<rparr>)\<rparr>))"

section \<open>Acquisition\<close>

text \<open>A new record is pushed on the list of all records and counted.\<close>

definition acquire_new_rec :: "domain \<Rightarrow> nat \<times> domain" where
  "acquire_new_rec d =
     (let r = d_fresh d; x = \<lparr>r_ptr = None, r_next = d_head d, r_available = None\<rparr> in
      (r, d\<lparr>d_recs := (d_recs d)(r \<mapsto> x), d_head := Some r, d_count := (d_count d + 1) mod usize_limit,
            d_fresh := Suc r\<rparr>))"

text \<open>The walk along the available list: \<open>k\<close> more records may be taken; gives the last one, what follows it and the number.\<close>

fun avail_walk :: "domain \<Rightarrow> nat \<Rightarrow> nat \<Rightarrow> nat \<Rightarrow> (nat \<times> rptr \<times> nat) res" where
  "avail_walk d 0 tail n = rbind (rec_at d tail) (\<lambda>x. Inr (tail, r_available x, n))"
| "avail_walk d (Suc k) tail n =
     rbind (rec_at d tail) (\<lambda>x. case r_available x of
         None \<Rightarrow> Inr (tail, None, n)
       | Some nx \<Rightarrow> avail_walk d k nx (n + 1))"

definition try_acquire_available_locked :: "bool \<Rightarrow> domain \<Rightarrow> nat \<Rightarrow> nat \<Rightarrow> (nat \<times> nat \<times> domain) res" where
  "try_acquire_available_locked dbg d N stolen_head =
     rbind (debug_assert dbg (1 \<le> N)) (\<lambda>_.
     rbind (avail_walk d (N - 1) stolen_head 1) (\<lambda>(tail, nx, n).
       let d = d\<lparr>d_avail := nx, d_lock := False\<rparr> in
       rbind (set_available d tail None) (\<lambda>d. Inr (stolen_head, n, d))))"

text \<open>The lock bit is set by a fetch-or; while somebody else holds it the loop goes round.\<close>

partial_function (option) try_acquire_available :: "bool \<Rightarrow> domain \<Rightarrow> nat \<Rightarrow> (rptr \<times> nat \<times> domain) comp" where
  "try_acquire_available dbg d N =
     (if dbg \<and> N < 1 then Some (Inl AssertFailed)
      else if d_avail d = None \<and> \<not> d_lock d then ret (None, 0, d)
      else let locked = d_lock d; d' = d\<lparr>d_lock := True\<rparr> in
        if \<not> locked then
          (case d_avail d of
             None \<Rightarrow> Some (Inl InvalidAccess)
           | Some a \<Rightarrow>
              (case rbind (try_acquire_available_locked dbg d' N a) (\<lambda>(p, n, d'').
                  rbind (debug_assert dbg (1 \<le> n)) (\<lambda>_. rbind (debug_assert dbg (n \<le> N)) (\<lambda>_.
                    Inr (Some p, n, d'')))) of
                 Inl f \<Rightarrow> Some (Inl f)
               | Inr r \<Rightarrow> Some (Inr r)))
        else try_acquire_available dbg d' N)"

text \<open>The array of \<open>N\<close> records: first along the acquired list, then new ones, linked behind it.\<close>

fun fill_records :: "nat \<Rightarrow> rptr \<Rightarrow> rptr \<Rightarrow> domain \<Rightarrow> (nat list \<times> domain) res" where
  "fill_records 0 head tail d = Inr ([], d)"
| "fill_records (Suc k) head tail d =
     (case head of
        Some h \<Rightarrow> rbind (rec_at d h) (\<lambda>x.
          rbind (fill_records k (r_available x) (Some h) d) (\<lambda>(rs, d'). Inr (h # rs, d')))
      | None \<Rightarrow>
         (let (r, d') = acquire_new_rec d in
          rbind (case tail of None \<Rightarrow> Inr d' | Some t \<Rightarrow> set_available d' t (Some r)) (\<lambda>d''.
          rbind (fill_records k None (Some r) d'') (\<lambda>(rs, d3). Inr (r # rs, d3)))))"

definition acquire_many :: "bool \<Rightarrow> domain \<Rightarrow> nat \<Rightarrow> (nat list \<times> domain) comp" where
  "acquire_many dbg d N =
     (case debug_assert dbg (1 \<le> N) of Inl f \<Rightarrow> Some (Inl f)
      | Inr _ \<Rightarrow> cbind (try_acquire_available dbg d N) (\<lambda>(head, n, d').
          Some (rbind (assert_that (n \<le> N)) (\<lambda>_. fill_records N head None d'))))"

definition acquire :: "bool \<Rightarrow> domain \<Rightarrow> (nat \<times> domain) comp" where
  "acquire dbg d = cbind (acquire_many dbg d 1) (\<lambda>(rs, d'). ret (rs ! 0, d'))"

section \<open>Release\<close>

partial_function (option) push_available_loop :: "domain \<Rightarrow> nat \<Rightarrow> nat \<Rightarrow> domain comp" where
  "push_available_loop d head tail =
     (if \<not> d_lock d then
        (case set_available d tail (d_avail d) of
           Inl f \<Rightarrow> Some (Inl f)
         | Inr d' \<Rightarrow> ret (d'\<lparr>d_avail := Some head\<rparr>))
      else push_available_loop d head tail)"

definition push_available :: "bool \<Rightarrow> domain \<Rightarrow> nat \<Rightarrow> nat \<Rightarrow> domain comp" where
  "push_available dbg d head tail =
     (case rbind (rec_at d tail) (\<lambda>x. debug_assert dbg (r_available x = None)) of
        Inl f \<Rightarrow> Some (Inl f)
      | Inr _ \<Rightarrow> push_available_loop d head tail)"

definition release :: "bool \<Rightarrow> domain \<Rightarrow> nat \<Rightarrow> domain comp" where
  "release dbg d r =
     (case rbind (rec_at d r) (\<lambda>x. assert_that (r_available x = None)) of
        Inl f \<Rightarrow> Some (Inl f)
      | Inr _ \<Rightarrow> push_available dbg d r r)"

definition release_many :: "bool \<Rightarrow> domain \<Rightarrow> nat list \<Rightarrow> domain comp" where
  "release_many dbg d rs =
     (case rs of [] \<Rightarrow> Some (Inl OutOfBounds)
      | r # _ \<Rightarrow>
        (case rbind (rec_at d (last rs)) (\<lambda>x. assert_that (r_available x = None)) of
           Inl f \<Rightarrow> Some (Inl f)
         | Inr _ \<Rightarrow> push_available dbg d r (last rs)))"

definition retire_ptr :: "domain \<Rightarrow> optr \<Rightarrow> nat \<times> domain" where
  "retire_ptr d p = (0, d)"

section \<open>Protection\<close>

definition try_protect_ptr :: "domain \<Rightarrow> nat \<Rightarrow> optr \<Rightarrow> optr \<Rightarrow> ((optr + optr) \<times> domain) res" where
  "try_protect_ptr d r p recheck =
     rbind (set_ptr d r p) (\<lambda>d1.
       if p \<noteq> recheck then rbind (set_ptr d1 r None) (\<lambda>d2. Inr (Inl recheck, d2))
       else Inr (Inr p, d1))"

text \<open>\<open>obs i\<close> is the value of the \<open>i\<close>-th load of the source; the result carries the number of loads made.\<close>

partial_function (option) protect_loop ::
    "domain \<Rightarrow> nat \<Rightarrow> (nat \<Rightarrow> optr) \<Rightarrow> nat \<Rightarrow> optr \<Rightarrow> (optr \<times> nat \<times> domain) comp" where
  "protect_loop d r obs i p =
     (case try_protect_ptr d r p (obs i) of
        Inl f \<Rightarrow> Some (Inl f)
      | Inr (res, d') \<Rightarrow>
         (case res of
            Inr q \<Rightarrow> ret (q, Suc i, d')
          | Inl p2 \<Rightarrow> protect_loop d' r obs (Suc i) p2))"

definition protect_ptr :: "domain \<Rightarrow> nat \<Rightarrow> (nat \<Rightarrow> optr) \<Rightarrow> (optr \<times> nat \<times> domain) comp" where
  "protect_ptr d r obs = protect_loop d r obs 1 (obs 0)"

text \<open>The handles: a hazard pointer holds one record, an array of them holds \<open>N\<close>.\<close>

definition new_in_domain :: "bool \<Rightarrow> domain \<Rightarrow> (nat \<times> domain) comp" where
  "new_in_domain dbg d = acquire dbg d"

definition many_in_domain :: "bool \<Rightarrow> domain \<Rightarrow> nat \<Rightarrow> (nat list \<times> domain) comp" where
  "many_in_domain dbg d N = acquire_many dbg d N"

text \<open>\<^verbatim>\<open>protect_all\<close> takes the handles and the sources pairwise.\<close>

fun protect_all :: "domain \<Rightarrow> nat list \<Rightarrow> (nat \<Rightarrow> optr) list \<Rightarrow> (optr list \<times> domain) comp" where
  "protect_all d (r # rs) (obs # os) =
     cbind (protect_ptr d r obs) (\<lambda>(q, n, d').
     cbind (protect_all d' rs os) (\<lambda>(qs, d''). ret (q # qs, d'')))"
| "protect_all d _ _ = ret ([], d)"

definition reset_protection :: "domain \<Rightarrow> nat \<Rightarrow> domain res" where
  "reset_protection d r = set_ptr d r None"

text \<open>Dropping a single hazard pointer resets it and then reaches \<^verbatim>\<open>todo!()\<close>.\<close>

definition hzd_ptr_drop :: "domain \<Rightarrow> nat \<Rightarrow> domain res" where
  "hzd_ptr_drop d r = rbind (reset_protection d r) (\<lambda>_. Inl TodoPanic)"

fun reset_all :: "domain \<Rightarrow> nat list \<Rightarrow> domain res" where
  "reset_all d [] = Inr d"
| "reset_all d (r # rs) = rbind (reset_protection d r) (\<lambda>d'. reset_all d' rs)"

definition hzd_array_drop :: "bool \<Rightarrow> domain \<Rightarrow> nat list \<Rightarrow> domain comp" where
  "hzd_array_drop dbg d rs =
     (case reset_all d rs of Inl f \<Rightarrow> Some (Inl f)
      | Inr d' \<Rightarrow> if rs = [] then Some (Inl OutOfBounds) else release_many dbg d' rs)"

section \<open>Invariant\<close>

fun avail_chain :: "(nat \<Rightarrow> hzd_rec option) \<Rightarrow> rptr \<Rightarrow> nat list \<Rightarrow> rptr \<Rightarrow> bool" where
  "avail_chain st p [] q \<longleftrightarrow> p = q"
| "avail_chain st p (r # rs) q \<longleftrightarrow> p = Some r \<and> (\<exists>x. st r = Some x \<and> avail_chain st (r_available x) rs q)"

definition dom_inv :: "domain \<Rightarrow> nat list \<Rightarrow> bool" where
  "dom_inv d xs \<longleftrightarrow> \<not> d_lock d \<and> avail_chain (d_recs d) (d_avail d) xs None \<and> distinct xs \<and>
     (\<forall>r. d_fresh d \<le> r \<longrightarrow> d_recs d r = None)"

lemma avail_chain_append: "avail_chain st p (xs @ ys) q \<longleftrightarrow> (\<exists>m. avail_chain st p xs m \<and> avail_chain st m ys q)"
  by (induction xs arbitrary: p) auto

lemma avail_chain_upd: "r \<notin> set xs \<Longrightarrow> avail_chain (st(r \<mapsto> x)) p xs q = avail_chain st p xs q"
  by (induction xs arbitrary: p) auto

lemma avail_chain_dom: "avail_chain st p xs q \<Longrightarrow> r \<in> set xs \<Longrightarrow> st r \<noteq> None"
  by (induction xs arbitrary: p) auto

lemma avail_chain_last:
  assumes "avail_chain st p (xs @ [t]) q"
  shows "\<exists>x. st t = Some x \<and> r_available x = q"
  using assms by (auto simp: avail_chain_append)

text \<open>The walk takes the first \<open>k + 1\<close> records, or all of them.\<close>

lemma avail_walk_ok:
  assumes "avail_chain (d_recs d) (Some a) (a # xs) None"
  shows "\<exists>m. avail_walk d k a n = Inr (last (a # take k xs), m, n + length (take k xs)) \<and>
    avail_chain (d_recs d) m (drop k xs) None"
  using assms
proof (induction k arbitrary: a xs n)
  case 0
  then show ?case by (auto simp: rec_at_def)
next
  case (Suc k)
  then obtain x where x: "d_recs d a = Some x" "avail_chain (d_recs d) (r_available x) xs None" by auto
  show ?case
  proof (cases xs)
    case Nil
    then show ?thesis using x by (simp add: rec_at_def)
  next
    case (Cons b ys)
    with x have "r_available x = Some b" "avail_chain (d_recs d) (Some b) (b # ys) None" by auto
    with Suc.IH [of b ys "n + 1"] Cons x show ?thesis by (simp add: rec_at_def)
  qed
qed

section \<open>Acquisition is exclusive\<close>

lemma avail_chain_cong: "(\<And>r. r \<in> set xs \<Longrightarrow> st' r = st r) \<Longrightarrow> avail_chain st' p xs q = avail_chain st p xs q"
  by (induction xs arbitrary: p) auto

lemma dom_inv_less:
  assumes "dom_inv d xs" "r \<in> set xs"
  shows "r < d_fresh d"
proof (rule ccontr)
  assume "\<not> r < d_fresh d"
  then have "d_recs d r = None" using assms(1) by (simp add: dom_inv_def)
  moreover have "d_recs d r \<noteq> None"
    using avail_chain_dom [OF _ assms(2)] assms(1) unfolding dom_inv_def by blast
  ultimately show False by simp
qed

lemma try_acquire_ok:
  assumes inv: "dom_inv d xs" and N: "1 \<le> N"
  shows "\<exists>p d'. try_acquire_available dbg d N = ret (p, length (take N xs), d') \<and>
    avail_chain (d_recs d') p (take N xs) None \<and> dom_inv d' (drop N xs) \<and>
    d_fresh d' = d_fresh d \<and> dom (d_recs d') = dom (d_recs d)"
proof (cases xs)
  case Nil
  then have "d_avail d = None" "\<not> d_lock d" using inv by (simp_all add: dom_inv_def)
  then show ?thesis using inv Nil N by (subst try_acquire_available.simps) simp
next
  case (Cons a ys)
  let ?t = "last (a # take (N - 1) ys)"
  have nl: "\<not> d_lock d" and av: "d_avail d = Some a" and ch: "avail_chain (d_recs d) (Some a) (a # ys) None"
    and dist: "distinct (a # ys)" and fr: "\<forall>r. d_fresh d \<le> r \<longrightarrow> d_recs d r = None"
    using inv Cons by (auto simp: dom_inv_def)
  have tk: "take N xs = a # take (N - 1) ys" "drop N xs = drop (N - 1) ys" using Cons N by (cases N; simp)+
  obtain m where m: "avail_walk (d\<lparr>d_lock := True\<rparr>) (N - 1) a 1 = Inr (?t, m, 1 + length (take (N - 1) ys))"
    "avail_chain (d_recs d) m (drop (N - 1) ys) None"
    using avail_walk_ok [of "d\<lparr>d_lock := True\<rparr>" a ys "N - 1" 1] ch by auto
  obtain bl where bl: "a # take (N - 1) ys = bl @ [?t]" by (metis append_butlast_last_id list.discI)
  have split: "a # ys = bl @ [?t] @ drop (N - 1) ys"
    using bl by (metis append_take_drop_id append_Cons append_assoc)
  obtain x where x: "d_recs d ?t = Some x" "avail_chain (d_recs d) (Some a) bl (Some ?t)"
    using ch unfolding split by (auto simp: avail_chain_append)
  let ?d = "d\<lparr>d_avail := m, d_lock := False, d_recs := (d_recs d)(?t \<mapsto> x\<lparr>r_available := None\<rparr>)\<rparr>"
  have "?t \<notin> set bl" "?t \<notin> set (drop (N - 1) ys)" "distinct (drop (N - 1) ys)"
    using dist unfolding split by auto
  then have c1: "avail_chain (d_recs ?d) (Some a) (bl @ [?t]) None"
    and c2: "avail_chain (d_recs ?d) m (drop (N - 1) ys) None"
    using x m(2) by (auto simp: avail_chain_append avail_chain_upd simp del: last.simps)
  have "?t < d_fresh d" using x(1) fr by (metis not_le option.distinct(1))
  then have f': "\<forall>r. d_fresh ?d \<le> r \<longrightarrow> d_recs ?d r = None" using fr by (simp del: last.simps)
  have "dom_inv ?d (drop N xs)"
    unfolding dom_inv_def tk(2) using c2 f' \<open>distinct (drop (N - 1) ys)\<close> by (simp del: last.simps)
  moreover have "try_acquire_available dbg d N = ret (Some a, length (take N xs), ?d)"
  proof -
    have n: "1 + length (take (N - 1) ys) = length (take N xs)" by (simp only: tk(1) list.size add.commute)
    have "set_available (d\<lparr>d_lock := True, d_avail := m, d_lock := False\<rparr>) ?t None = Inr ?d"
      unfolding set_available_def rec_at_def using x(1) by (simp del: last.simps)
    then have lk: "try_acquire_available_locked dbg (d\<lparr>d_lock := True\<rparr>) N a = Inr (a, length (take N xs), ?d)"
      unfolding try_acquire_available_locked_def m(1) n using N by (simp del: last.simps length_take)
    have "length (take N xs) \<le> N" "1 \<le> length (take N xs)" using N by (simp_all add: Cons)
    then have da: "debug_assert dbg (length (take N xs) \<le> N) = Inr ()" "debug_assert dbg (1 \<le> length (take N xs)) = Inr ()"
      by (simp_all only: debug_assert_simps)
    have N1: "(N < 1) = False" using N by simp
    show ?thesis
      by (subst try_acquire_available.simps)
        (simp only: nl av lk da N1 Let_def rbind_simps prod.case option.case sum.case simp_thms if_False if_True
          option.distinct not_False_eq_True ret_def)
  qed
  moreover have "avail_chain (d_recs ?d) (Some a) (take N xs) None" using c1 unfolding tk(1) bl [symmetric] .
  moreover have "dom (d_recs ?d) = dom (d_recs d)" using x(1) by (auto simp del: last.simps)
  ultimately show ?thesis by (intro exI [of _ "Some a"] exI [of _ ?d]) simp
qed

text \<open>Walking the acquired records, then appending new ones behind the last of them.\<close>

lemma fill_acquired:
  assumes "avail_chain (d_recs d) head zs None"
  shows "fill_records (length zs + k) head tail d =
    rbind (fill_records k None (if zs = [] then tail else Some (last zs)) d) (\<lambda>(rs, d'). Inr (zs @ rs, d'))"
  using assms
proof (induction zs arbitrary: head tail)
  case Nil
  then show ?case by (cases "fill_records k None tail d") auto
next
  case (Cons z zs)
  then obtain x where x: "head = Some z" "d_recs d z = Some x" "avail_chain (d_recs d) (r_available x) zs None" by auto
  from Cons.IH [OF x(3), of "Some z"] x(1,2) show ?case
    by (cases "fill_records k None (if zs = [] then Some z else Some (last zs)) d") (auto simp: rec_at_def)
qed

definition fresh_ok :: "domain \<Rightarrow> bool" where
  "fresh_ok d \<longleftrightarrow> (\<forall>r. d_fresh d \<le> r \<longrightarrow> d_recs d r = None)"

lemma fill_new:
  assumes "fresh_ok d" "d_recs d t = Some x" "r_available x = None"
  shows "\<exists>d'. fill_records k None (Some t) d = Inr ([d_fresh d..<d_fresh d + k], d') \<and>
    avail_chain (d_recs d') (Some t) (t # [d_fresh d..<d_fresh d + k]) None \<and>
    (\<forall>r. r < d_fresh d \<and> r \<noteq> t \<longrightarrow> d_recs d' r = d_recs d r) \<and>
    d_avail d' = d_avail d \<and> d_lock d' = d_lock d \<and> fresh_ok d' \<and> d_fresh d' = d_fresh d + k"
  using assms
proof (induction k arbitrary: d t x)
  case (Suc k)
  let ?r = "d_fresh d"
  define d1 where "d1 = snd (acquire_new_rec d)"
  have tr: "t < ?r" using Suc.prems(1,2) by (metis fresh_ok_def not_le option.distinct(1))
  let ?d2 = "d1\<lparr>d_recs := (d_recs d1)(t \<mapsto> x\<lparr>r_available := Some ?r\<rparr>)\<rparr>"
  have a: "acquire_new_rec d = (?r, d1)" "set_available d1 t (Some ?r) = Inr ?d2"
    using Suc.prems(2) tr by (simp_all add: d1_def acquire_new_rec_def Let_def set_available_def rec_at_def)
  have r: "d_recs ?d2 ?r = Some \<lparr>r_ptr = None, r_next = d_head d, r_available = None\<rparr>" "d_fresh ?d2 = Suc ?r"
    "d_avail ?d2 = d_avail d" "d_lock ?d2 = d_lock d"
    "\<forall>q. q < ?r \<and> q \<noteq> t \<longrightarrow> d_recs ?d2 q = d_recs d q" "d_recs ?d2 t = Some (x\<lparr>r_available := Some ?r\<rparr>)"
    using tr by (simp_all add: d1_def acquire_new_rec_def Let_def)
  have "fresh_ok ?d2" using Suc.prems(1) tr by (simp add: fresh_ok_def d1_def acquire_new_rec_def Let_def)
  from Suc.IH [OF this r(1)] obtain d' where d': "fill_records k None (Some ?r) ?d2 = Inr ([Suc ?r..<Suc ?r + k], d')"
    "avail_chain (d_recs d') (Some ?r) (?r # [Suc ?r..<Suc ?r + k]) None"
    "\<forall>q. q < Suc ?r \<and> q \<noteq> ?r \<longrightarrow> d_recs d' q = d_recs ?d2 q"
    "d_avail d' = d_avail ?d2" "d_lock d' = d_lock ?d2" "fresh_ok d'" "d_fresh d' = Suc ?r + k"
    using r(2) by auto
  have up: "?r # [Suc ?r..<Suc ?r + k] = [?r..<?r + Suc k]" by (simp add: upt_conv_Cons)
  have "d_recs d' t = Some (x\<lparr>r_available := Some ?r\<rparr>)" using d'(3) r(6) tr by simp
  then have "avail_chain (d_recs d') (Some t) (t # [?r..<?r + Suc k]) None" using d'(2) up
    by (simp only: avail_chain.simps) simp
  moreover have "fill_records (Suc k) None (Some t) d = Inr ([?r..<?r + Suc k], d')"
    using a d'(1) up by (simp add: Let_def del: upt_Suc)
  ultimately show ?case using d'(3-7) r by (intro exI [of _ d']) auto
qed (use assms in auto)

lemma acquire_new_rec_props:
  assumes "fresh_ok d"
  shows "\<exists>d1. acquire_new_rec d = (d_fresh d, d1) \<and> fresh_ok d1 \<and> d_fresh d1 = Suc (d_fresh d) \<and>
    (\<exists>x. d_recs d1 (d_fresh d) = Some x \<and> r_available x = None) \<and>
    (\<forall>r. r < d_fresh d \<longrightarrow> d_recs d1 r = d_recs d r) \<and> d_avail d1 = d_avail d \<and> d_lock d1 = d_lock d"
  using assms by (simp add: acquire_new_rec_def Let_def fresh_ok_def)

text \<open>The \<open>k\<close> missing records are new ones, linked behind the acquired list \<open>zs\<close>.\<close>

lemma fill_records_ok:
  assumes f: "fresh_ok d" and ch: "avail_chain (d_recs d) head zs None" and dz: "distinct zs" and k: "1 \<le> length zs + k"
  shows "\<exists>d'. fill_records (length zs + k) head None d = Inr (zs @ [d_fresh d..<d_fresh d + k], d') \<and>
    avail_chain (d_recs d') (Some (hd (zs @ [d_fresh d..<d_fresh d + k]))) (zs @ [d_fresh d..<d_fresh d + k]) None \<and>
    (\<forall>r. r < d_fresh d \<and> r \<notin> set zs \<longrightarrow> d_recs d' r = d_recs d r) \<and>
    d_avail d' = d_avail d \<and> d_lock d' = d_lock d \<and> fresh_ok d'"
proof (cases "zs = []")
  case True
  then obtain k' where k': "k = Suc k'" using k by (cases k) auto
  obtain d1 x where d1: "acquire_new_rec d = (d_fresh d, d1)" "fresh_ok d1" "d_fresh d1 = Suc (d_fresh d)"
    "d_recs d1 (d_fresh d) = Some x" "r_available x = None"
    "\<forall>r. r < d_fresh d \<longrightarrow> d_recs d1 r = d_recs d r" "d_avail d1 = d_avail d" "d_lock d1 = d_lock d"
    using acquire_new_rec_props [OF f] by blast
  have up: "[d_fresh d..<d_fresh d + k] = d_fresh d # [Suc (d_fresh d)..<Suc (d_fresh d) + k']"
    by (simp add: k' upt_conv_Cons)
  obtain d' where "fill_records k' None (Some (d_fresh d)) d1 = Inr ([Suc (d_fresh d)..<Suc (d_fresh d) + k'], d')"
    "avail_chain (d_recs d') (Some (d_fresh d)) (d_fresh d # [Suc (d_fresh d)..<Suc (d_fresh d) + k']) None"
    "\<forall>r. r < Suc (d_fresh d) \<and> r \<noteq> d_fresh d \<longrightarrow> d_recs d' r = d_recs d1 r"
    "d_avail d' = d_avail d1" "d_lock d' = d_lock d1" "fresh_ok d'"
    using fill_new [OF d1(2,4,5), of k'] unfolding d1(3) by blast
  then show ?thesis using True ch d1 unfolding up by (intro exI [of _ d']) (simp add: k' Let_def)
next
  case False
  then obtain bl t where zs: "zs = bl @ [t]" by (metis append_butlast_last_id)
  obtain x where x: "d_recs d t = Some x" "r_available x = None" and cb: "avail_chain (d_recs d) head bl (Some t)"
    using ch by (auto simp: zs avail_chain_append)
  obtain d' where d': "fill_records k None (Some t) d = Inr ([d_fresh d..<d_fresh d + k], d')"
    "avail_chain (d_recs d') (Some t) (t # [d_fresh d..<d_fresh d + k]) None"
    "\<forall>r. r < d_fresh d \<and> r \<noteq> t \<longrightarrow> d_recs d' r = d_recs d r"
    "d_avail d' = d_avail d" "d_lock d' = d_lock d" "fresh_ok d'"
    using fill_new [OF f x] by blast
  have "d_recs d' r = d_recs d r" if "r \<in> set bl" for r
  proof -
    have "d_recs d r \<noteq> None" using avail_chain_dom [OF cb that] .
    then have "r < d_fresh d" using f by (metis fresh_ok_def not_le)
    moreover have "r \<noteq> t" using that dz by (auto simp: zs)
    ultimately show ?thesis using d'(3) by blast
  qed
  then have "avail_chain (d_recs d') head bl (Some t)" using cb avail_chain_cong [of bl "d_recs d'" "d_recs d"] by blast
  then have "avail_chain (d_recs d') head (zs @ [d_fresh d..<d_fresh d + k]) None"
    using d'(2) unfolding zs append_assoc by (subst avail_chain_append) auto
  moreover have "head = Some (hd zs)" using ch False by (cases zs) auto
  moreover have "last zs = t" "t \<in> set zs" by (simp_all add: zs)
  ultimately show ?thesis
    using fill_acquired [OF ch, of k None] d' False by (intro exI [of _ d']) (auto simp: hd_append2)
qed

lemma acquire_many_ok:
  assumes inv: "dom_inv d xs" and N: "1 \<le> N"
  defines "rs \<equiv> take N xs @ [d_fresh d..<d_fresh d + (N - length xs)]"
  shows "\<exists>d'. acquire_many dbg d N = ret (rs, d') \<and> dom_inv d' (drop N xs) \<and>
    avail_chain (d_recs d') (Some (hd rs)) rs None \<and> dom (d_recs d) \<subseteq> dom (d_recs d')"
proof -
  obtain p d1 where d1: "try_acquire_available dbg d N = ret (p, length (take N xs), d1)"
    "avail_chain (d_recs d1) p (take N xs) None" "dom_inv d1 (drop N xs)" "d_fresh d1 = d_fresh d"
    "dom (d_recs d1) = dom (d_recs d)"
    using try_acquire_ok [OF inv N] by blast
  have dist: "distinct xs" using inv by (simp add: dom_inv_def)
  have len: "length (take N xs) + (N - length xs) = N" by simp
  have f1: "fresh_ok d1" using d1(3) by (simp add: dom_inv_def fresh_ok_def)
  from fill_records_ok [OF f1 d1(2), of "N - length xs"] obtain d' where d':
    "fill_records N p None d1 = Inr (rs, d')" "avail_chain (d_recs d') (Some (hd rs)) rs None"
    "\<forall>r. r < d_fresh d1 \<and> r \<notin> set (take N xs) \<longrightarrow> d_recs d' r = d_recs d1 r"
    "d_avail d' = d_avail d1" "d_lock d' = d_lock d1" "fresh_ok d'"
    unfolding len rs_def d1(4) using dist N by auto
  have "d_recs d' r = d_recs d1 r" if "r \<in> set (drop N xs)" for r
  proof -
    have "r < d_fresh d1" using dom_inv_less [OF d1(3) that] .
    moreover have "r \<notin> set (take N xs)"
      using dist that by (metis append_take_drop_id disjoint_iff distinct_append)
    ultimately show ?thesis using d'(3) by blast
  qed
  then have "avail_chain (d_recs d') (d_avail d1) (drop N xs) None"
    using d1(3) avail_chain_cong [of "drop N xs" "d_recs d'" "d_recs d1"] by (simp add: dom_inv_def)
  then have "dom_inv d' (drop N xs)"
    using d1(3) d'(4-6) by (simp add: dom_inv_def fresh_ok_def)
  moreover have "acquire_many dbg d N = ret (rs, d')"
    using d1(1) d'(1) N by (simp add: acquire_many_def ret_def)
  moreover have "r \<in> dom (d_recs d')" if r: "r \<in> dom (d_recs d)" for r
  proof (cases "r \<in> set (take N xs)")
    case True
    then show ?thesis using avail_chain_dom [OF d'(2), of r] by (auto simp: rs_def)
  next
    case False
    have "r < d_fresh d" using inv r by (metis domIff dom_inv_def not_le)
    then show ?thesis using False d'(3) d1(4,5) r by (metis domIff)
  qed
  ultimately show ?thesis using d'(2) by blast
qed

lemma release_many_ok:
  assumes inv: "dom_inv d xs" and rs: "rs \<noteq> []" and ch: "avail_chain (d_recs d) (Some (hd rs)) rs None"
    and dist: "distinct (rs @ xs)"
  shows "\<exists>d'. release_many dbg d rs = ret d' \<and> dom_inv d' (rs @ xs)"
proof -
  obtain bl t where bl: "rs = bl @ [t]" using rs by (metis append_butlast_last_id)
  obtain x where x: "d_recs d t = Some x" "r_available x = None"
    and cb: "avail_chain (d_recs d) (Some (hd rs)) bl (Some t)"
    using ch by (auto simp: bl avail_chain_append)
  let ?d = "d\<lparr>d_recs := (d_recs d)(t \<mapsto> x\<lparr>r_available := d_avail d\<rparr>), d_avail := Some (hd rs)\<rparr>"
  have nl: "\<not> d_lock d" using inv by (simp add: dom_inv_def)
  have "push_available_loop d (hd rs) t = ret ?d"
    using nl x by (subst push_available_loop.simps) (simp add: set_available_def rec_at_def)
  moreover obtain a list where al: "rs = a # list" using rs by (cases rs) auto
  moreover from this have "last (a # list) = t" using bl by (metis last_snoc)
  ultimately have "release_many dbg d rs = ret ?d"
    using x by (simp add: release_many_def push_available_def rec_at_def del: last.simps)
  moreover have "avail_chain (d_recs ?d) (Some (hd rs)) (bl @ t # xs) None"
    using cb inv dist x by (auto simp: bl avail_chain_append avail_chain_upd dom_inv_def)
  moreover have "\<forall>r. d_fresh d \<le> r \<longrightarrow> d_recs ?d r = None"
    using inv x(1) by (auto simp: dom_inv_def)
  ultimately show ?thesis using nl dist by (intro exI [of _ ?d]) (simp add: dom_inv_def bl)
qed

text \<open>
  C24: Acquiring \<open>N\<close> records from a domain, alone, returns \<open>N\<close> different records, none of which anybody else
  owns or which stays available: the first available ones are reused and only the missing ones are
  allocated.
\<close>

theorem hazard_acquire_exclusive:
  assumes "dom_inv d xs" "1 \<le> N" "owned \<subseteq> dom (d_recs d)" "owned \<inter> set xs = {}"
  shows "\<exists>rs d'. acquire_many dbg d N = ret (rs, d') \<and> length rs = N \<and> distinct rs \<and>
    set rs \<inter> owned = {} \<and> set rs \<inter> set (drop N xs) = {} \<and> dom_inv d' (drop N xs) \<and>
    take (length xs) rs = take N xs"
proof -
  let ?rs = "take N xs @ [d_fresh d..<d_fresh d + (N - length xs)]"
  obtain d' where d': "acquire_many dbg d N = ret (?rs, d')" "dom_inv d' (drop N xs)"
    using acquire_many_ok [OF assms(1,2)] by blast
  have dist: "distinct xs" using assms(1) by (simp add: dom_inv_def)
  have less: "r < d_fresh d" if "r \<in> set xs" for r using dom_inv_less [OF assms(1) that] .
  have own: "r < d_fresh d" if "r \<in> owned" for r
    using assms(1,3) that by (metis domIff dom_inv_def not_le subsetD)
  have "distinct ?rs" using dist by (auto dest!: in_set_takeD less)
  moreover have "set ?rs \<inter> owned = {}" using assms(4) own by (fastforce dest: in_set_takeD)
  moreover have "set ?rs \<inter> set (drop N xs) = {}"
    using dist set_take_disj_set_drop_if_distinct [of xs N N] by (auto dest: less in_set_dropD)
  moreover have "length ?rs = N \<and> take (length xs) ?rs = take N xs" by (cases "N \<le> length xs") simp_all
  ultimately show ?thesis using d' by blast
qed

lemma domain_new_inv: "dom_inv domain_new []"
  by (simp add: dom_inv_def domain_new_def)

theorem hazard_acquire_exclusive_witness:
  "\<exists>rs d'. acquire_many True domain_new 2 = ret (rs, d') \<and> length rs = 2 \<and> distinct rs \<and>
    set rs \<inter> {} = {} \<and> set rs \<inter> set (drop 2 []) = {} \<and> dom_inv d' (drop 2 []) \<and>
    take (length ([] :: nat list)) rs = take 2 []"
  by (rule hazard_acquire_exclusive [OF domain_new_inv]) simp_all

text \<open>
  Releasing what was acquired makes exactly those records available again, ahead of the ones that
  stayed available; no record is lost and the next acquisition gets the same records.
\<close>

theorem hazard_release_roundtrip:
  assumes "dom_inv d xs" "1 \<le> N"
  shows "\<exists>rs d1 d2. acquire_many dbg d N = ret (rs, d1) \<and> release_many dbg d1 rs = ret d2 \<and>
    dom_inv d2 (rs @ drop N xs) \<and> (\<exists>d3. acquire_many dbg d2 N = ret (rs, d3))"
proof -
  let ?rs = "take N xs @ [d_fresh d..<d_fresh d + (N - length xs)]"
  obtain d1 where d1: "acquire_many dbg d N = ret (?rs, d1)" "dom_inv d1 (drop N xs)"
    "avail_chain (d_recs d1) (Some (hd ?rs)) ?rs None"
    using acquire_many_ok [OF assms] by blast
  have dist: "distinct xs" using assms(1) by (simp add: dom_inv_def)
  have less: "r < d_fresh d" if "r \<in> set xs" for r using dom_inv_less [OF assms(1) that] .
  have "distinct (?rs @ drop N xs)"
    using dist set_take_disj_set_drop_if_distinct [of xs N N]
    by (auto dest!: less dest: in_set_takeD in_set_dropD)
  moreover have len: "length ?rs = N" by simp
  then have "?rs \<noteq> []" using assms(2) by (metis list.size(3) not_one_le_zero)
  ultimately obtain d2 where d2: "release_many dbg d1 ?rs = ret d2" "dom_inv d2 (?rs @ drop N xs)"
    using release_many_ok [OF d1(2) _ d1(3)] by blast
  have "take N (?rs @ drop N xs) @ [d_fresh d2..<d_fresh d2 + (N - length (?rs @ drop N xs))] = ?rs"
    using len by simp
  then have "\<exists>d3. acquire_many dbg d2 N = ret (?rs, d3)"
    using acquire_many_ok [OF d2(2) assms(2), of dbg] by (simp only:) blast
  with d1(1) d2 show ?thesis by blast
qed

theorem hazard_release_roundtrip_witness:
  "\<exists>rs d1 d2. acquire_many True domain_new 2 = ret (rs, d1) \<and> release_many True d1 rs = ret d2 \<and>
    dom_inv d2 (rs @ drop 2 []) \<and> (\<exists>d3. acquire_many True d2 2 = ret (rs, d3))"
  by (rule hazard_release_roundtrip [OF domain_new_inv]) simp

section \<open>Protection is validated\<close>

lemma protect_loop_hit:
  "d_recs d r = Some x \<Longrightarrow> protect_loop d r obs i (obs i)
     = ret (obs i, Suc i, d\<lparr>d_recs := (d_recs d)(r \<mapsto> x\<lparr>r_ptr := obs i\<rparr>)\<rparr>)"
  by (subst protect_loop.simps) (simp add: try_protect_ptr_def set_ptr_def rec_at_def)

lemma protect_loop_miss:
  "d_recs d r = Some x \<Longrightarrow> p \<noteq> obs i \<Longrightarrow> protect_loop d r obs i p
     = protect_loop (d\<lparr>d_recs := (d_recs d)(r \<mapsto> x\<lparr>r_ptr := None\<rparr>)\<rparr>) r obs (Suc i) (obs i)"
  by (subst protect_loop.simps) (simp add: try_protect_ptr_def set_ptr_def rec_at_def)

text \<open>Two successive loads that agree, from the \<open>i\<close>-th on, and none before them.\<close>

definition first_agreement :: "(nat \<Rightarrow> optr) \<Rightarrow> nat \<Rightarrow> nat \<Rightarrow> bool" where
  "first_agreement obs i n \<longleftrightarrow> i \<le> n \<and> obs n = obs (Suc n) \<and> (\<forall>m. i \<le> m \<longrightarrow> m < n \<longrightarrow> obs m \<noteq> obs (Suc m))"

definition holds_ptr :: "domain \<Rightarrow> nat \<Rightarrow> optr \<Rightarrow> bool" where
  "holds_ptr d r q \<longleftrightarrow> (\<exists>x. d_recs d r = Some x \<and> r_ptr x = q)"

lemma first_agreement_Suc:
  "obs i \<noteq> obs (Suc i) \<Longrightarrow> first_agreement obs (Suc i) n \<Longrightarrow> first_agreement obs i n"
  unfolding first_agreement_def by (metis Suc_leD Suc_leI le_neq_implies_less)

lemma protect_loop_ok:
  assumes "d_recs d r = Some x" "obs (i + j) = obs (Suc (i + j))"
  shows "\<exists>n d'. protect_loop d r obs (Suc i) (obs i) = ret (obs n, Suc (Suc n), d') \<and> first_agreement obs i n \<and>
    holds_ptr d' r (obs n) \<and> (\<forall>s. s \<noteq> r \<longrightarrow> d_recs d' s = d_recs d s)"
  using assms
proof (induction j arbitrary: d i x)
  case 0
  then have "obs i = obs (Suc i)" by simp
  with protect_loop_hit [OF 0(1), of obs "Suc i"] show ?case
    by (intro exI [of _ i]) (auto simp: first_agreement_def holds_ptr_def)
next
  case (Suc j)
  show ?case
  proof (cases "obs i = obs (Suc i)")
    case True
    with protect_loop_hit [OF Suc.prems(1), of obs "Suc i"] show ?thesis
      by (intro exI [of _ i]) (auto simp: first_agreement_def holds_ptr_def)
  next
    case False
    let ?d = "d\<lparr>d_recs := (d_recs d)(r \<mapsto> x\<lparr>r_ptr := None\<rparr>)\<rparr>"
    obtain n d' where n: "protect_loop ?d r obs (Suc (Suc i)) (obs (Suc i)) = ret (obs n, Suc (Suc n), d')"
      "first_agreement obs (Suc i) n" "holds_ptr d' r (obs n)" "\<forall>s. s \<noteq> r \<longrightarrow> d_recs d' s = d_recs ?d s"
      using Suc.IH [of ?d "x\<lparr>r_ptr := None\<rparr>" "Suc i"] Suc.prems(2) by auto
    then show ?thesis using protect_loop_miss [OF Suc.prems(1), of "obs i" obs "Suc i"] False first_agreement_Suc [OF False n(2)]
      by (intro exI [of _ n] exI [of _ d']) simp
  qed
qed

lemma protect_ptr_ok:
  assumes "d_recs d r \<noteq> None" "\<exists>k. obs k = obs (Suc k)"
  shows "\<exists>n d'. protect_ptr d r obs = ret (obs n, Suc (Suc n), d') \<and> first_agreement obs 0 n \<and>
    holds_ptr d' r (obs n) \<and> (\<forall>s. s \<noteq> r \<longrightarrow> d_recs d' s = d_recs d s)"
  using protect_loop_ok [of d r _ obs 0] assms by (auto simp: protect_ptr_def)

text \<open>
  C25: \<^verbatim>\<open>protect_all\<close> protects each source with the handle at its position: for every source whose loads
  settle it returns the value of the first two successive loads that agree, and that handle's record holds
  it then, so the source still pointed to the object after the record was set. No other record is touched.
\<close>

theorem hazard_protect_validated:
  assumes "distinct rs" "\<forall>r \<in> set rs. d_recs d r \<noteq> None" "length os = length rs"
    "\<forall>obs \<in> set os. \<exists>k. obs k = obs (Suc k)"
  shows "\<exists>qs d'. protect_all d rs os = ret (qs, d') \<and> length qs = length rs \<and>
    (\<forall>i < length rs. (\<exists>n. qs ! i = (os ! i) n \<and> first_agreement (os ! i) 0 n) \<and> holds_ptr d' (rs ! i) (qs ! i)) \<and>
    (\<forall>s. s \<notin> set rs \<longrightarrow> d_recs d' s = d_recs d s)"
  using assms
proof (induction rs arbitrary: d os)
  case (Cons r rs)
  obtain obs os' where os: "os = obs # os'" using Cons.prems(3) by (cases os) auto
  obtain n d1 where p: "protect_ptr d r obs = ret (obs n, Suc (Suc n), d1)" "first_agreement obs 0 n"
    "holds_ptr d1 r (obs n)" "\<forall>s. s \<noteq> r \<longrightarrow> d_recs d1 s = d_recs d s"
    using protect_ptr_ok [of d r obs] Cons.prems os by auto
  obtain qs d' where q: "protect_all d1 rs os' = ret (qs, d')" "length qs = length rs"
    "\<forall>i < length rs. (\<exists>n. qs ! i = (os' ! i) n \<and> first_agreement (os' ! i) 0 n) \<and> holds_ptr d' (rs ! i) (qs ! i)"
    "\<forall>s. s \<notin> set rs \<longrightarrow> d_recs d' s = d_recs d1 s"
    using Cons.IH [of d1 os'] Cons.prems os p(4) by force
  have "holds_ptr d' r (obs n)" using p(3) q(4) Cons.prems(1) by (simp add: holds_ptr_def)
  then have "(\<exists>n. (obs n0 # qs) ! i = (os ! i) n \<and> first_agreement (os ! i) 0 n) \<and> holds_ptr d' ((r # rs) ! i) ((obs n0 # qs) ! i)"
    if "i < length (r # rs)" "n0 = n" for i n0
    using that p(2) q(3) os by (cases i) auto
  then show ?case using p(1,4) q(1,2,4) os by (intro exI [of _ "obs n # qs"] exI [of _ d']) simp
qed simp

theorem hazard_protect_validated_witness:
  "\<exists>qs d'. protect_all (snd (acquire_new_rec domain_new)) [0] [\<lambda>i. if i = 0 then Some 5 else Some 7] = ret (qs, d') \<and>
    length qs = 1 \<and> holds_ptr d' 0 (qs ! 0)"
proof -
  let ?d = "snd (acquire_new_rec domain_new)" and ?o = "\<lambda>i :: nat. if i = 0 then Some 5 else Some (7 :: nat)"
  have "distinct [0 :: nat]" "\<forall>r \<in> set [0]. d_recs ?d r \<noteq> None" "length [?o] = length [0 :: nat]"
    by (simp_all add: acquire_new_rec_def domain_new_def Let_def)
  moreover have "\<forall>obs \<in> set [?o]. \<exists>k. obs k = obs (Suc k)" by (auto intro: exI [of _ 1])
  ultimately show ?thesis using hazard_protect_validated [of "[0]" ?d "[?o]"] by fastforce
qed

end
