(* ===== verification/Hazard_Concurrent.thy ===== *)
theory Hazard_Concurrent
  imports Hazard Transition_Systems
begin

text \<open>
  The hazard-pointer domain under concurrent use. Each thread repeatedly runs \<^verbatim>\<open>acquire_many::<N>\<close>, with any N
  of its choice, and then \<^verbatim>\<open>release_many\<close> on the array it got; \<^verbatim>\<open>acquire\<close> and \<^verbatim>\<open>release\<close> are the case of one
  record. Every atomic access of \<^verbatim>\<open>try_acquire_available\<close>, \<^verbatim>\<open>try_acquire_available_locked\<close>,
  \<^verbatim>\<open>acquire_many\<close>, \<^verbatim>\<open>acquire_new_rec\<close> and \<^verbatim>\<open>push_available\<close> is a step, and so is every assertion that can fail;
  \<open>dbg\<close> tells whether the debug assertions are compiled in. The head of the available list is an address and
  the lock bit kept in it; a loaded head keeps the bit it was loaded with, and using a tagged or null head as
  a record is the state \<open>HFault\<close>. Records are aligned and only the head is ever tagged, so the assertions that the
  address of a record has no lock bit always hold and are no steps.
\<close>

section \<open>Steps\<close>

text \<open>
  The program points, with the local variables that are live there: N, the array filled so far, \<open>head\<close> and
  \<open>tail\<close> of \<^verbatim>\<open>acquire_many\<close>, or head, tail, n and next of the walk over the available list.
\<close>

datatype hz_pc =
    HIdle
  | HEnter nat
  | HLoaded nat rptr bool
  | HLocked nat rptr bool
  | HWalk nat nat nat nat rptr
  | HStored nat nat nat nat
  | HTaken nat nat nat
  | HFill nat "nat list" rptr rptr
  | HPush nat "nat list" rptr nat rptr
  | HCount nat "nat list" rptr nat
  | HLink nat "nat list" rptr nat
  | HOwns "nat list"
  | HChecked "nat list"
  | HRelease nat nat
  | HTail nat nat rptr
  | HCas nat nat rptr
  | HPanic
  | HFault

record hz_state =
  h_avail :: rptr
  h_lock :: bool
  h_head :: rptr
  h_count :: nat
  h_fresh :: nat
  h_next :: "nat \<Rightarrow> rptr"
  h_available :: "nat \<Rightarrow> rptr"
  h_pc :: "nat \<Rightarrow> hz_pc"

definition hz_goto :: "hz_state \<Rightarrow> nat \<Rightarrow> hz_pc \<Rightarrow> hz_state" where
  "hz_goto s t pc = s\<lparr>h_pc := (h_pc s)(t := pc)\<rparr>"

inductive hz_step :: "bool \<Rightarrow> hz_state \<Rightarrow> hz_state \<Rightarrow> bool" for dbg where
  call: "h_pc s t = HIdle \<Longrightarrow> (dbg \<longrightarrow> 1 \<le> N) \<Longrightarrow> hz_step dbg s (hz_goto s t (HEnter N))"
| call_panic: "h_pc s t = HIdle \<Longrightarrow> dbg \<Longrightarrow> N < (1 :: nat) \<Longrightarrow> hz_step dbg s (hz_goto s t HPanic)"
| load_null: "h_pc s t = HEnter N \<Longrightarrow> h_avail s = None \<Longrightarrow> \<not> h_lock s \<Longrightarrow>
    hz_step dbg s (hz_goto s t (HFill N [] None None))"
| load: "h_pc s t = HEnter N \<Longrightarrow> h_avail s \<noteq> None \<or> h_lock s \<Longrightarrow>
    hz_step dbg s (hz_goto s t (HLoaded N (h_avail s) (h_lock s)))"
| lock_ok: "h_pc s t = HLoaded N p b \<Longrightarrow> \<not> h_lock s \<Longrightarrow>
    hz_step dbg s (hz_goto (s\<lparr>h_lock := True\<rparr>) t (HLocked N p b))"
| lock_busy: "h_pc s t = HLoaded N p b \<Longrightarrow> h_lock s \<Longrightarrow> hz_step dbg s (hz_goto s t (HEnter N))"
| read_next: "h_pc s t = HLocked N (Some r) False \<Longrightarrow>
    hz_step dbg s (hz_goto s t (HWalk N r r 1 (h_available s r)))"
| bad_head: "h_pc s t = HLocked N p b \<Longrightarrow> p = None \<or> b \<Longrightarrow> hz_step dbg s (hz_goto s t HFault)"
| walk_on: "h_pc s t = HWalk N r z n (Some q) \<Longrightarrow> n < N \<Longrightarrow>
    hz_step dbg s (hz_goto s t (HWalk N r q (n + 1) (h_available s q)))"
| store_head: "h_pc s t = HWalk N r z n nx \<Longrightarrow> nx = None \<or> N \<le> n \<Longrightarrow>
    hz_step dbg s (hz_goto (s\<lparr>h_avail := nx, h_lock := False\<rparr>) t (HStored N r z n))"
| null_tail: "h_pc s t = HStored N r z n \<Longrightarrow>
    hz_step dbg s (hz_goto (s\<lparr>h_available := (h_available s)(z := None)\<rparr>) t (HTaken N r n))"
| taken: "h_pc s t = HTaken N r n \<Longrightarrow> (dbg \<longrightarrow> 1 \<le> n) \<Longrightarrow> n \<le> N \<Longrightarrow>
    hz_step dbg s (hz_goto s t (HFill N [] (Some r) None))"
| taken_panic: "h_pc s t = HTaken N r n \<Longrightarrow> dbg \<and> n < 1 \<or> N < n \<Longrightarrow> hz_step dbg s (hz_goto s t HPanic)"
| fill_rec: "h_pc s t = HFill N rs (Some r) z \<Longrightarrow> length rs < N \<Longrightarrow>
    hz_step dbg s (hz_goto s t (HFill N (rs @ [r]) (h_available s r) (Some r)))"
| new_rec: "h_pc s t = HFill N rs None z \<Longrightarrow> length rs < N \<Longrightarrow>
    hz_step dbg s (hz_goto (s\<lparr>h_fresh := Suc (h_fresh s), h_available := (h_available s)(h_fresh s := None)\<rparr>) t
      (HPush N rs z (h_fresh s) (h_head s)))"
| push_ok: "h_pc s t = HPush N rs z r q \<Longrightarrow> h_head s = q \<Longrightarrow>
    hz_step dbg s (hz_goto (s\<lparr>h_head := Some r, h_next := (h_next s)(r := q)\<rparr>) t (HCount N rs z r))"
| push_fail: "h_pc s t = HPush N rs z r q \<Longrightarrow> hz_step dbg s (hz_goto s t (HPush N rs z r (h_head s)))"
| count: "h_pc s t = HCount N rs z r \<Longrightarrow>
    hz_step dbg s (hz_goto (s\<lparr>h_count := (h_count s + 1) mod usize_limit\<rparr>) t (HLink N rs z r))"
| link_tail: "h_pc s t = HLink N rs (Some u) r \<Longrightarrow>
    hz_step dbg s (hz_goto (s\<lparr>h_available := (h_available s)(u := Some r)\<rparr>) t (HFill N (rs @ [r]) None (Some r)))"
| link_none: "h_pc s t = HLink N rs None r \<Longrightarrow> hz_step dbg s (hz_goto s t (HFill N (rs @ [r]) None (Some r)))"
| filled: "h_pc s t = HFill N rs p q \<Longrightarrow> N \<le> length rs \<Longrightarrow> hz_step dbg s (hz_goto s t (HOwns rs))"
| release: "h_pc s t = HOwns rs \<Longrightarrow> rs \<noteq> [] \<Longrightarrow> h_available s (last rs) = None \<Longrightarrow>
    hz_step dbg s (hz_goto s t (HChecked rs))"
| release_panic: "h_pc s t = HOwns rs \<Longrightarrow> rs = [] \<or> h_available s (last rs) \<noteq> None \<Longrightarrow>
    hz_step dbg s (hz_goto s t HPanic)"
| push_available: "h_pc s t = HChecked rs \<Longrightarrow> (dbg \<longrightarrow> h_available s (last rs) = None) \<Longrightarrow>
    hz_step dbg s (hz_goto s t (HRelease (hd rs) (last rs)))"
| push_available_panic: "h_pc s t = HChecked rs \<Longrightarrow> dbg \<Longrightarrow> h_available s (last rs) \<noteq> None \<Longrightarrow>
    hz_step dbg s (hz_goto s t HPanic)"
| load_avail: "h_pc s t = HRelease r z \<Longrightarrow> \<not> h_lock s \<Longrightarrow> hz_step dbg s (hz_goto s t (HTail r z (h_avail s)))"
| avail_locked: "h_pc s t = HRelease r z \<Longrightarrow> h_lock s \<Longrightarrow> hz_step dbg s s"
| store_tail: "h_pc s t = HTail r z p \<Longrightarrow>
    hz_step dbg s (hz_goto (s\<lparr>h_available := (h_available s)(z := p)\<rparr>) t (HCas r z p))"
| avail_cas_ok: "h_pc s t = HCas r z p \<Longrightarrow> h_avail s = p \<Longrightarrow> \<not> h_lock s \<Longrightarrow>
    hz_step dbg s (hz_goto (s\<lparr>h_avail := Some r\<rparr>) t HIdle)"
| avail_cas_fail: "h_pc s t = HCas r z p \<Longrightarrow> h_avail s \<noteq> p \<or> h_lock s \<Longrightarrow>
    hz_step dbg s (hz_goto s t (HRelease r z))"

text \<open>A domain of one record, which is available.\<close>

definition one_record :: hz_state where
  "one_record = \<lparr>h_avail = Some 0, h_lock = False, h_head = Some 0, h_count = 1, h_fresh = 1,
     h_next = (\<lambda>_. None), h_available = (\<lambda>_. None), h_pc = (\<lambda>_. HIdle)\<rparr>"

section \<open>The lock bit\<close>

fun critical :: "hz_pc \<Rightarrow> bool" where
  "critical (HLocked N p b) = True"
| "critical (HWalk N r z n nx) = True"
| "critical HFault = True"
| "critical _ = False"

definition lock_inv :: "hz_state \<Rightarrow> bool" where
  "lock_inv s \<longleftrightarrow> (\<forall>t. critical (h_pc s t) \<longrightarrow> h_lock s) \<and>
     (\<forall>t u. critical (h_pc s t) \<longrightarrow> critical (h_pc s u) \<longrightarrow> t = u) \<and>
     (h_lock s \<longrightarrow> (\<exists>t. critical (h_pc s t)))"

lemma hz_goto_simps [simp]:
  "h_avail (hz_goto s t pc) = h_avail s" "h_lock (hz_goto s t pc) = h_lock s"
  "h_available (hz_goto s t pc) = h_available s" "h_pc (hz_goto s t pc) = (h_pc s)(t := pc)"
  by (simp_all add: hz_goto_def)

text \<open>Moves inside or outside the critical section, entering it and leaving it.\<close>

lemma lock_inv_same:
  assumes "lock_inv s" "critical pc \<longleftrightarrow> critical (h_pc s t)" "h_lock s' = h_lock s" "h_pc s' = h_pc s"
  shows "lock_inv (hz_goto s' t pc)"
proof -
  have "critical (h_pc (hz_goto s' t pc) u) = critical (h_pc s u)" for u using assms(2,4) by simp
  then show ?thesis using assms(1,3) unfolding lock_inv_def by simp
qed

lemma lock_inv_enter:
  assumes "lock_inv s" "critical pc" "\<not> h_lock s"
  shows "lock_inv (hz_goto (s\<lparr>h_lock := True\<rparr>) t pc)"
  using assms unfolding lock_inv_def by auto

lemma lock_inv_leave:
  assumes "lock_inv s" "critical (h_pc s t)" "\<not> critical pc" "\<not> h_lock s'" "h_pc s' = h_pc s"
  shows "lock_inv (hz_goto s' t pc)"
  using assms unfolding lock_inv_def by auto

lemma lock_inv_step:
  assumes "hz_step dbg s s'" "lock_inv s"
  shows "lock_inv s'"
  using assms
  by (induction rule: hz_step.induct)
    (((rule lock_inv_same, assumption, simp, simp, simp)[1] | (rule lock_inv_enter, assumption, simp, simp)[1] |
      (rule lock_inv_leave, assumption, simp, simp, simp, simp)[1] | assumption)+)

interpretation hz_sys: invariant_system "hz_step dbg" "\<lambda>s. \<not> h_lock s \<and> (\<forall>t. h_pc s t = HIdle)" lock_inv for dbg
  by unfold_locales (simp add: lock_inv_def, rule lock_inv_step)

text \<open>
  C21: From any domain whose available list is unlocked and whose threads are idle, under every interleaving
  of acquisitions and releases, at most one thread at a time walks the available list, and the lock bit is
  set exactly while one does.
\<close>

theorem hazard_lock_exclusive:
  assumes "(hz_step dbg)\<^sup>*\<^sup>* s s'" "\<not> h_lock s" "\<forall>t. h_pc s t = HIdle"
  shows "(h_lock s' \<longleftrightarrow> (\<exists>t. critical (h_pc s' t))) \<and>
    (\<forall>t u. critical (h_pc s' t) \<and> critical (h_pc s' u) \<longrightarrow> t = u)"
proof -
  have "lock_inv s'" using hz_sys.reachable_inv [OF assms(1)] assms(2,3) by blast
  then show ?thesis unfolding lock_inv_def by blast
qed

theorem hazard_lock_exclusive_witness:
  "\<exists>s. (hz_step True)\<^sup>*\<^sup>* one_record s \<and> h_lock s \<and> critical (h_pc s 0) \<and> \<not> critical (h_pc s 1)"
proof -
  let ?s0 = "hz_goto one_record 0 (HEnter 2)"
  let ?s1 = "hz_goto ?s0 0 (HLoaded 2 (Some 0) False)"
  let ?s2 = "hz_goto (?s1\<lparr>h_lock := True\<rparr>) 0 (HLocked 2 (Some 0) False)"
  have 0: "hz_step True one_record ?s0" using call [of one_record 0 True 2] by (simp add: one_record_def)
  have 1: "hz_step True ?s0 ?s1" using load [of ?s0 0 2] by (simp add: one_record_def)
  have 2: "hz_step True ?s1 ?s2" by (intro lock_ok) (simp_all add: one_record_def)
  have "(hz_step True)\<^sup>*\<^sup>* one_record ?s1"
    by (rule rtranclp.rtrancl_into_rtrancl [OF r_into_rtranclp [of "hz_step True", OF 0] 1])
  from rtranclp.rtrancl_into_rtrancl [of "hz_step True", OF this 2]
  have r: "(hz_step True)\<^sup>*\<^sup>* one_record ?s2" .
  have c: "critical (h_pc ?s2 0)" by simp
  have "\<not> h_lock one_record" "\<forall>t. h_pc one_record t = HIdle" by (simp_all add: one_record_def)
  note ex = hazard_lock_exclusive [OF r this]
  have "h_lock ?s2" "\<not> critical (h_pc ?s2 1)" using ex c by blast (metis ex c zero_neq_one)
  with r c show ?thesis by blast
qed

section \<open>The stale head\<close>

text \<open>A thread that has loaded an available head and finds the list unlocked takes that head, current or not.\<close>

lemma take_loaded:
  assumes "h_pc s t = HLoaded 1 (Some r) False" "\<not> h_lock s"
  shows "(hz_step dbg)\<^sup>*\<^sup>* s (s\<lparr>h_avail := h_available s r, h_available := (h_available s)(r := None),
    h_pc := (h_pc s)(t := HOwns [r])\<rparr>)"
proof -
  let ?s1 = "hz_goto (s\<lparr>h_lock := True\<rparr>) t (HLocked 1 (Some r) False)"
  let ?s2 = "hz_goto ?s1 t (HWalk 1 r r 1 (h_available s r))"
  let ?s3 = "hz_goto (?s2\<lparr>h_avail := h_available s r, h_lock := False\<rparr>) t (HStored 1 r r 1)"
  let ?s4 = "hz_goto (?s3\<lparr>h_available := (h_available s)(r := None)\<rparr>) t (HTaken 1 r 1)"
  let ?s5 = "hz_goto ?s4 t (HFill 1 [] (Some r) None)"
  let ?s6 = "hz_goto ?s5 t (HFill 1 [r] None (Some r))"
  let ?s7 = "hz_goto ?s6 t (HOwns [r])"
  have 1: "hz_step dbg s ?s1" using assms by (intro lock_ok)
  have 2: "hz_step dbg ?s1 ?s2" using read_next [of ?s1 t 1 r] by simp
  have 3: "hz_step dbg ?s2 ?s3" by (intro store_head) simp_all
  have 4: "hz_step dbg ?s3 ?s4" using null_tail [of ?s3 t 1 r r 1] by simp
  have 5: "hz_step dbg ?s4 ?s5" by (intro taken) (simp, simp, simp)
  have 6: "hz_step dbg ?s5 ?s6" using fill_rec [of ?s5 t 1 "[]" r None] by simp
  have 7: "hz_step dbg ?s6 ?s7" by (intro filled) (simp, simp)
  have eq: "?s7 = s\<lparr>h_avail := h_available s r, h_available := (h_available s)(r := None),
    h_pc := (h_pc s)(t := HOwns [r])\<rparr>" using assms(2) by (cases s) (simp add: hz_goto_def)
  note more = rtranclp.rtrancl_into_rtrancl [of "hz_step dbg"]
  have "(hz_step dbg)\<^sup>*\<^sup>* s ?s2" by (rule more [OF r_into_rtranclp [of "hz_step dbg", OF 1] 2])
  then have "(hz_step dbg)\<^sup>*\<^sup>* s ?s4" by (rule more [OF more [OF _ 3] 4])
  then have "(hz_step dbg)\<^sup>*\<^sup>* s ?s6" by (rule more [OF more [OF _ 5] 6])
  from more [OF this 7] show ?thesis unfolding eq .
qed

lemma load_head:
  assumes "h_pc s t = HIdle" "h_avail s = Some r" "\<not> h_lock s"
  shows "(hz_step dbg)\<^sup>*\<^sup>* s (hz_goto s t (HLoaded 1 (Some r) False))"
proof -
  have 1: "hz_step dbg s (hz_goto s t (HEnter 1))" using assms(1) by (intro call) simp_all
  have "hz_step dbg (hz_goto s t (HEnter 1)) (hz_goto (hz_goto s t (HEnter 1)) t (HLoaded 1 (Some r) False))"
    using load [of "hz_goto s t (HEnter 1)" t 1] assms(2,3) by simp
  from rtranclp.rtrancl_into_rtrancl [OF r_into_rtranclp [of "hz_step dbg", OF 1] this]
  show ?thesis by (simp add: hz_goto_def)
qed

text \<open>
  C23: Two threads can come to own the same hazard record. Both acquire one record and load the head of the
  available list; the first locks it, takes the record and unlocks; the second then finds the lock bit clear and
  takes the head it had loaded before, which is the record the first thread owns.
\<close>

theorem hazard_stale_head_shared:
  "\<exists>s. (hz_step dbg)\<^sup>*\<^sup>* one_record s \<and> h_pc s 0 = HOwns [0] \<and> h_pc s 1 = HOwns [0]"
proof -
  let ?s1 = "hz_goto one_record 0 (HLoaded 1 (Some 0) False)"
  let ?s2 = "hz_goto ?s1 1 (HLoaded 1 (Some 0) False)"
  let ?s3 = "?s2\<lparr>h_avail := h_available ?s2 0, h_available := (h_available ?s2)(0 := None),
    h_pc := (h_pc ?s2)(1 := HOwns [0])\<rparr>"
  let ?s4 = "?s3\<lparr>h_avail := h_available ?s3 0, h_available := (h_available ?s3)(0 := None),
    h_pc := (h_pc ?s3)(0 := HOwns [0])\<rparr>"
  have 1: "(hz_step dbg)\<^sup>*\<^sup>* one_record ?s1" by (rule load_head) (simp_all add: one_record_def)
  have 2: "(hz_step dbg)\<^sup>*\<^sup>* ?s1 ?s2" by (rule load_head) (simp_all add: one_record_def)
  have 3: "(hz_step dbg)\<^sup>*\<^sup>* ?s2 ?s3" by (rule take_loaded) (simp_all add: one_record_def)
  have 4: "(hz_step dbg)\<^sup>*\<^sup>* ?s3 ?s4" by (rule take_loaded) (simp_all add: one_record_def)
  have "(hz_step dbg)\<^sup>*\<^sup>* one_record ?s4" by (rule rtranclp_trans [OF rtranclp_trans [OF 1 2] rtranclp_trans [OF 3 4]])
  moreover have "h_pc ?s4 0 = HOwns [0]" "h_pc ?s4 1 = HOwns [0]" by simp_all
  ultimately show ?thesis by blast
qed

section \<open>The list of all records\<close>

text \<open>The record a thread is pushing on the list of all records, and the threads that have yet to count theirs.\<close>

fun pushing :: "hz_pc \<Rightarrow> rptr" where
  "pushing (HPush N rs z r q) = Some r"
| "pushing _ = None"

fun counting :: "hz_pc \<Rightarrow> bool" where
  "counting (HCount N rs z r) = True"
| "counting _ = False"

definition counters :: "hz_state \<Rightarrow> nat set" where
  "counters s = {t. counting (h_pc s t)}"

fun rec_chain :: "(nat \<Rightarrow> rptr) \<Rightarrow> rptr \<Rightarrow> nat list \<Rightarrow> bool" where
  "rec_chain nx p [] \<longleftrightarrow> p = None"
| "rec_chain nx p (r # rs) \<longleftrightarrow> p = Some r \<and> rec_chain nx (nx r) rs"

definition listed :: "hz_state \<Rightarrow> nat list \<Rightarrow> bool" where
  "listed s xs \<longleftrightarrow> rec_chain (h_next s) (h_head s) xs \<and> distinct xs \<and>
     (\<forall>r. r \<in> set xs \<longleftrightarrow> r < h_fresh s \<and> (\<forall>t. pushing (h_pc s t) \<noteq> Some r))"

definition rec_inv :: "hz_state \<Rightarrow> bool" where
  "rec_inv s \<longleftrightarrow> (\<forall>t r. pushing (h_pc s t) = Some r \<longrightarrow> r < h_fresh s) \<and>
     (\<forall>t u r. pushing (h_pc s t) = Some r \<longrightarrow> pushing (h_pc s u) = Some r \<longrightarrow> t = u) \<and> finite (counters s) \<and>
     (\<exists>xs. listed s xs \<and> (h_count s + card (counters s)) mod usize_limit = length xs mod usize_limit)"

lemma rec_chain_upd: "r \<notin> set xs \<Longrightarrow> rec_chain (nx(r := q)) p xs = rec_chain nx p xs"
  by (induction xs arbitrary: p) auto

lemma hz_goto_list_simps [simp]:
  "h_next (hz_goto s t pc) = h_next s" "h_head (hz_goto s t pc) = h_head s"
  "h_fresh (hz_goto s t pc) = h_fresh s" "h_count (hz_goto s t pc) = h_count s"
  by (simp_all add: hz_goto_def)

lemma count_mod:
  fixes n :: nat
  shows "(a + b) mod n = c mod n \<Longrightarrow> (a + Suc b) mod n = Suc c mod n" "((a + 1) mod n + b) mod n = (a + Suc b) mod n"
  by (metis add_Suc_right mod_Suc_eq) (metis Suc_eq_plus1 add_Suc_shift mod_add_left_eq)

text \<open>A step that neither allocates, pushes nor counts a record.\<close>

lemma rec_inv_same:
  assumes "rec_inv s" "pushing pc = pushing (h_pc s t)" "counting pc = counting (h_pc s t)" "h_pc s' = h_pc s"
    "h_next s' = h_next s" "h_head s' = h_head s" "h_fresh s' = h_fresh s" "h_count s' = h_count s"
  shows "rec_inv (hz_goto s' t pc)"
proof -
  have p: "pushing (h_pc (hz_goto s' t pc) u) = pushing (h_pc s u)" for u using assms(2,4) by simp
  have c: "counters (hz_goto s' t pc) = counters s" using assms(3,4) by (auto simp: counters_def)
  show ?thesis using assms(1) unfolding rec_inv_def listed_def p c by (simp add: assms(5-8))
qed

lemma rec_inv_new:
  assumes "rec_inv s" "h_pc s t = HFill N rs None z"
  shows "rec_inv (hz_goto (s\<lparr>h_fresh := Suc (h_fresh s), h_available := av\<rparr>) t (HPush N rs z (h_fresh s) q))" (is "rec_inv ?s")
proof -
  obtain xs where xs: "listed s xs" "(h_count s + card (counters s)) mod usize_limit = length xs mod usize_limit"
    and o: "\<And>t r. pushing (h_pc s t) = Some r \<Longrightarrow> r < h_fresh s"
    "\<And>t u r. pushing (h_pc s t) = Some r \<Longrightarrow> pushing (h_pc s u) = Some r \<Longrightarrow> t = u" "finite (counters s)"
    using assms(1) unfolding rec_inv_def by blast
  have c: "counters ?s = counters s" using assms(2) by (auto simp: counters_def)
  have "listed ?s xs"
    using xs(1) assms(2) unfolding listed_def by (auto simp: less_Suc_eq)
  then show ?thesis unfolding rec_inv_def c using xs(2) o by (auto simp: less_Suc_eq)
qed

lemma rec_inv_push:
  assumes "rec_inv s" "h_pc s t = HPush N rs z r (h_head s)"
  shows "rec_inv (hz_goto (s\<lparr>h_head := Some r, h_next := (h_next s)(r := h_head s)\<rparr>) t (HCount N rs z r))" (is "rec_inv ?s")
proof -
  obtain xs where xs: "listed s xs" "(h_count s + card (counters s)) mod usize_limit = length xs mod usize_limit"
    and o: "\<And>t r. pushing (h_pc s t) = Some r \<Longrightarrow> r < h_fresh s"
    "\<And>t u r. pushing (h_pc s t) = Some r \<Longrightarrow> pushing (h_pc s u) = Some r \<Longrightarrow> t = u" "finite (counters s)"
    using assms(1) unfolding rec_inv_def by blast
  have r: "pushing (h_pc s t) = Some r" "r < h_fresh s" using assms(2) o(1) [of t r] by simp_all
  then have n: "r \<notin> set xs" using xs(1) unfolding listed_def by blast
  have c: "counters ?s = insert t (counters s)" "t \<notin> counters s" using assms(2) by (auto simp: counters_def)
  have p: "pushing (h_pc ?s u) = (if u = t then None else pushing (h_pc s u))" for u by simp
  have m: "x \<in> set xs \<longleftrightarrow> x < h_fresh s \<and> (\<forall>t. pushing (h_pc s t) \<noteq> Some x)" for x using xs(1) by (simp add: listed_def)
  have "x \<in> set (r # xs) \<longleftrightarrow> x < h_fresh s \<and> (\<forall>u. pushing (h_pc ?s u) \<noteq> Some x)" for x
    unfolding p list.set insert_iff m using r o(2) by (metis option.distinct(1) option.inject)
  then have "listed ?s (r # xs)" using xs(1) n unfolding listed_def by (simp add: rec_chain_upd)
  moreover have "(h_count s + card (counters ?s)) mod usize_limit = length (r # xs) mod usize_limit"
    unfolding c(1) card_insert_disjoint [OF o(3) c(2)] length_Cons by (rule count_mod(1) [OF xs(2)])
  ultimately show ?thesis unfolding rec_inv_def using o c(1) by auto
qed

lemma rec_inv_count:
  assumes "rec_inv s" "h_pc s t = HCount N rs z r"
  shows "rec_inv (hz_goto (s\<lparr>h_count := (h_count s + 1) mod usize_limit\<rparr>) t (HLink N rs z r))" (is "rec_inv ?s")
proof -
  have c: "counters ?s = counters s - {t}" "t \<in> counters s" using assms(2) by (auto simp: counters_def)
  have p: "pushing (h_pc ?s u) = pushing (h_pc s u)" for u using assms(2) by simp
  have "finite (counters s)" using assms(1) by (simp add: rec_inv_def)
  then have k: "card (counters s) = Suc (card (counters ?s))" unfolding c(1) by (rule card_Suc_Diff1 [OF _ c(2), symmetric])
  have "(h_count ?s + card (counters ?s)) mod usize_limit = (h_count s + card (counters s)) mod usize_limit"
    unfolding k using count_mod(2) by simp
  then show ?thesis using assms(1) \<open>finite (counters s)\<close> c(1) unfolding rec_inv_def listed_def p by (simp del: One_nat_def)
qed

lemma rec_inv_step:
  assumes "hz_step dbg s s'" "rec_inv s"
  shows "rec_inv s'"
  using assms
  by (induction rule: hz_step.induct)
    (((rule rec_inv_same, assumption, simp, simp, simp, simp, simp, simp, simp)[1] | (rule rec_inv_new, assumption, simp)[1] |
      (rule rec_inv_count, assumption, simp)[1] | (hypsubst, rule rec_inv_push, assumption, simp)[1] | assumption)+)

interpretation hz_list: invariant_system "hz_step dbg"
  "\<lambda>s. h_head s = None \<and> h_fresh s = 0 \<and> h_count s = 0 \<and> (\<forall>t. h_pc s t = HIdle)" rec_inv for dbg
proof unfold_locales
  fix s :: hz_state assume "h_head s = None \<and> h_fresh s = 0 \<and> h_count s = 0 \<and> (\<forall>t. h_pc s t = HIdle)"
  then show "rec_inv s" unfolding rec_inv_def listed_def counters_def by (auto intro!: exI [of _ "[]"])
qed (rule rec_inv_step)

text \<open>
  C22: The list of all records under concurrent acquisition. Starting with no records, under every interleaving of
  acquisitions and releases, following \<^verbatim>\<open>next\<close> from the head of the domain ends and passes every record that has
  been allocated and pushed, each exactly once: the only records missing are those whose thread is still in the
  push loop of \<^verbatim>\<open>acquire_new_rec\<close>, and different threads push different records. Once no thread is between its
  push and its increment, the counter is the length of the list, modulo the width of the counter.
\<close>

theorem hazard_records_listed:
  assumes "(hz_step dbg)\<^sup>*\<^sup>* s s'" "h_head s = None" "h_fresh s = 0" "h_count s = 0" "\<forall>t. h_pc s t = HIdle"
  shows "(\<exists>xs. rec_chain (h_next s') (h_head s') xs \<and> distinct xs \<and>
      (\<forall>r. r \<in> set xs \<longleftrightarrow> r < h_fresh s' \<and> (\<forall>t. pushing (h_pc s' t) \<noteq> Some r)) \<and>
      ((\<forall>t. \<not> counting (h_pc s' t)) \<longrightarrow> h_count s' mod usize_limit = length xs mod usize_limit)) \<and>
    (\<forall>t u r. pushing (h_pc s' t) = Some r \<and> pushing (h_pc s' u) = Some r \<longrightarrow> t = u)"
proof -
  have i: "rec_inv s'" using hz_list.reachable_inv [OF assms(1)] assms(2-5) by blast
  then obtain xs where "listed s' xs" and c: "(h_count s' + card (counters s')) mod usize_limit = length xs mod usize_limit"
    unfolding rec_inv_def by blast
  moreover have "counters s' = {}" if "\<forall>t. \<not> counting (h_pc s' t)" using that by (simp add: counters_def)
  ultimately show ?thesis using i unfolding listed_def rec_inv_def by (metis add_0_right card.empty)
qed

definition no_records :: hz_state where
  "no_records = \<lparr>h_avail = None, h_lock = False, h_head = None, h_count = 0, h_fresh = 0,
     h_next = (\<lambda>_. None), h_available = (\<lambda>_. None), h_pc = (\<lambda>_. HIdle)\<rparr>"

text \<open>A thread that finds no record available allocates one, pushes it and counts it.\<close>

lemma acquire_fresh:
  assumes "h_pc s t = HIdle" "h_avail s = None" "\<not> h_lock s"
  shows "(hz_step dbg)\<^sup>*\<^sup>* s (s\<lparr>h_head := Some (h_fresh s), h_count := (h_count s + 1) mod usize_limit, h_fresh := Suc (h_fresh s),
    h_next := (h_next s)(h_fresh s := h_head s), h_available := (h_available s)(h_fresh s := None),
    h_pc := (h_pc s)(t := HOwns [h_fresh s])\<rparr>)"
proof -
  let ?r = "h_fresh s"
  let ?s0 = "hz_goto s t (HEnter 1)"
  let ?s1 = "hz_goto ?s0 t (HFill 1 [] None None)"
  let ?s2 = "hz_goto (?s1\<lparr>h_fresh := Suc ?r, h_available := (h_available s)(?r := None)\<rparr>) t (HPush 1 [] None ?r (h_head s))"
  let ?s3 = "hz_goto (?s2\<lparr>h_head := Some ?r, h_next := (h_next s)(?r := h_head s)\<rparr>) t (HCount 1 [] None ?r)"
  let ?s4 = "hz_goto (?s3\<lparr>h_count := (h_count s + 1) mod usize_limit\<rparr>) t (HLink 1 [] None ?r)"
  let ?s5 = "hz_goto ?s4 t (HFill 1 [?r] None (Some ?r))"
  let ?s6 = "hz_goto ?s5 t (HOwns [?r])"
  have 0: "hz_step dbg s ?s0" using assms(1) by (intro call) simp_all
  have 1: "hz_step dbg ?s0 ?s1" using assms by (intro load_null) simp_all
  have 2: "hz_step dbg ?s1 ?s2" using new_rec [of ?s1 t 1 "[]" None] by simp
  have 3: "hz_step dbg ?s2 ?s3" using push_ok [of ?s2 t 1 "[]" None ?r "h_head s"] by simp
  have 4: "hz_step dbg ?s3 ?s4" using count [of ?s3 t 1 "[]" None ?r] by simp
  have 5: "hz_step dbg ?s4 ?s5" using link_none [of ?s4 t 1 "[]" ?r] by simp
  have 6: "hz_step dbg ?s5 ?s6" by (intro filled) (simp, simp)
  have eq: "?s6 = s\<lparr>h_head := Some ?r, h_count := (h_count s + 1) mod usize_limit, h_fresh := Suc ?r,
      h_next := (h_next s)(?r := h_head s), h_available := (h_available s)(?r := None), h_pc := (h_pc s)(t := HOwns [?r])\<rparr>"
    by (cases s) (simp add: hz_goto_def)
  note more = rtranclp.rtrancl_into_rtrancl [of "hz_step dbg"]
  have "(hz_step dbg)\<^sup>*\<^sup>* s ?s1" by (rule more [OF r_into_rtranclp [of "hz_step dbg", OF 0] 1])
  then have "(hz_step dbg)\<^sup>*\<^sup>* s ?s3" by (rule more [OF more [OF _ 2] 3])
  then have "(hz_step dbg)\<^sup>*\<^sup>* s ?s5" by (rule more [OF more [OF _ 4] 5])
  from more [OF this 6] show ?thesis by (simp only: eq)
qed

theorem hazard_records_listed_witness:
  "\<exists>s xs. (hz_step True)\<^sup>*\<^sup>* no_records s \<and> h_pc s 0 = HOwns [0] \<and> h_pc s 1 = HOwns [1] \<and> rec_chain (h_next s) (h_head s) xs \<and>
     distinct xs \<and> set xs = {0, 1} \<and> h_count s = 2"
proof -
  let ?s1 = "no_records\<lparr>h_head := Some 0, h_count := 1, h_fresh := 1, h_next := (h_next no_records)(0 := None),
    h_available := (h_available no_records)(0 := None), h_pc := (h_pc no_records)(0 := HOwns [0])\<rparr>"
  let ?s2 = "?s1\<lparr>h_head := Some 1, h_count := 2, h_fresh := 2, h_next := (h_next ?s1)(1 := Some 0),
    h_available := (h_available ?s1)(1 := None), h_pc := (h_pc ?s1)(1 := HOwns [1])\<rparr>"
  have c: "(1 + 1) mod usize_limit = (2 :: nat)" "Suc 1 = (2 :: nat)" by simp_all
  have 1: "(hz_step True)\<^sup>*\<^sup>* no_records ?s1" using acquire_fresh [of no_records 0] by (simp add: no_records_def)
  have 2: "(hz_step True)\<^sup>*\<^sup>* ?s1 ?s2" using acquire_fresh [of ?s1 1] c by (simp add: no_records_def del: One_nat_def)
  define s where "s = ?s2"
  have r: "(hz_step True)\<^sup>*\<^sup>* no_records s" unfolding s_def by (rule rtranclp_trans [OF 1 2])
  have f: "h_fresh s = 2" "h_count s = 2" "h_pc s 0 = HOwns [0]" "h_pc s 1 = HOwns [1]" by (simp_all add: s_def)
  have p: "pushing (h_pc s t) = None" for t by (simp add: s_def no_records_def)
  have "h_head no_records = None" "h_fresh no_records = 0" "h_count no_records = 0" "\<forall>t. h_pc no_records t = HIdle"
    by (simp_all add: no_records_def)
  from conjunct1 [OF hazard_records_listed [OF r this]] obtain xs where x: "rec_chain (h_next s) (h_head s) xs" "distinct xs"
    "\<forall>r. r \<in> set xs \<longleftrightarrow> r < h_fresh s \<and> (\<forall>t. pushing (h_pc s t) \<noteq> Some r)" by (elim exE conjE) (rule that)
  have "(r \<in> set xs) = (r \<in> {0, 1})" for r using x(3) [rule_format, of r] by (simp add: p f(1) less_2_cases_iff)
  then have e: "set xs = {0, 1}" by (rule set_eqI)
  show ?thesis by (intro exI [of _ s] exI [of _ xs] conjI r f x e)
qed

end
