(* ===== verification/Skip_List_Concurrent.thy ===== *)
theory Skip_List_Concurrent
  imports Skip_List_Insert Transition_Systems "HOL-Library.Multiset"
begin

text \<open>
  Lock-free insertion into the skip list. Each thread inserts one key with \<^verbatim>\<open>insert\<close> or \<^verbatim>\<open>insert_with\<close>;
  every load of a tower slot, of the seed and of the level bound, every store into the new node's tower and
  every compare-and-swap is a step, so towers, the level bound and the list itself can change between any two
  of them. A new node is a pointer that was not in use, filled with key and value before it is linked; that
  allocations of different threads do not overlap is shown in \<open>Arena_Concurrent\<close>. How full the arena is, is left
  open: any allocation may panic instead (\<open>IFull\<close>), which ends the thread's insertion.
\<close>

section \<open>Steps\<close>

text \<open>Why a search runs: for the first time, or again for node, height and level after a failed swap.\<close>

datatype ins_goal = GInit | GRetry ptr nat nat

datatype ins_pc =
    ISearch ins_goal
  | ISkip ins_goal nat
  | IDescend ins_goal nat ptr traversal_ctx
  | IWalk ins_goal nat ptr ptr traversal_ctx
  | IFound ins_goal traversal_ctx
  | IEntries "traversal_ctx option"
  | ISeed "traversal_ctx option"
  | ISeedStore "traversal_ctx option" u64
  | IMaxLoad "traversal_ctx option" nat
  | IMaxCas "traversal_ctx option" nat nat
  | IAlloc "traversal_ctx option" nat
  | IFull
  | ISlot ptr nat nat traversal_ctx
  | ICas ptr nat nat traversal_ctx
  | IDone ptr nat

record ins_state =
  k_nodes :: nodes
  k_max :: nat
  k_seed :: u64
  k_entries :: nat
  k_pc :: "nat \<Rightarrow> ins_pc"

definition ins_goto :: "ins_state \<Rightarrow> nat \<Rightarrow> ins_pc \<Rightarrow> ins_state" where
  "ins_goto s t pc = s\<lparr>k_pc := (k_pc s)(t := pc)\<rparr>"

definition search_ctx :: "ptr \<Rightarrow> traversal_ctx" where
  "search_ctx h0 = traversal_new\<lparr>predecessors := replicate MAX_HEAD_HEIGHT h0\<rparr>"

definition record_level :: "traversal_ctx \<Rightarrow> nat \<Rightarrow> ptr \<Rightarrow> ptr \<Rightarrow> traversal_ctx" where
  "record_level c l pred cur = c\<lparr>predecessors := (predecessors c)[l := pred], successors := (successors c)[l := cur]\<rparr>"

definition level_of :: "ptr \<Rightarrow> u64 \<Rightarrow> nat" where
  "level_of h0 seed = reduce_height h0 (min MAX_HEAD_HEIGHT (trailing_zeros seed + 1))"

inductive ins_step ::
    "compare \<Rightarrow> ptr \<Rightarrow> (nat \<Rightarrow> bytes) \<Rightarrow> (nat \<Rightarrow> bytes) \<Rightarrow> nat \<Rightarrow> ins_state \<Rightarrow> ins_state \<Rightarrow> bool"
  for cmp h0 K V t s where
  load_max: "k_pc s t = ISearch g \<Longrightarrow> ins_step cmp h0 K V t s (ins_goto s t (ISkip g (k_max s)))"
| skip_level: "k_pc s t = ISkip g (Suc l) \<Longrightarrow> load_next (k_nodes s) h0 l = Inr Null \<Longrightarrow>
    ins_step cmp h0 K V t s (ins_goto s t (ISkip g l))"
| skip_end: "k_pc s t = ISkip g (Suc l) \<Longrightarrow> load_next (k_nodes s) h0 l = Inr q \<Longrightarrow> q \<noteq> Null \<Longrightarrow>
    ins_step cmp h0 K V t s (ins_goto s t (IDescend g (Suc l) h0 (search_ctx h0)))"
| skip_all: "k_pc s t = ISkip g 0 \<Longrightarrow> ins_step cmp h0 K V t s (ins_goto s t (IDescend g 0 h0 (search_ctx h0)))"
| descend: "k_pc s t = IDescend g (Suc l) pred c \<Longrightarrow> load_next (k_nodes s) pred l = Inr cur \<Longrightarrow>
    ins_step cmp h0 K V t s (ins_goto s t (IWalk g l pred cur c))"
| bottom: "k_pc s t = IDescend g 0 pred c \<Longrightarrow> ins_step cmp h0 K V t s (ins_goto s t (IFound g c))"
| walk_right: "k_pc s t = IWalk g l pred cur c \<Longrightarrow> k_nodes s cur = Some n \<Longrightarrow> cur \<noteq> Null \<Longrightarrow>
    cmp (get_key_bytes n) (K t) = Inr Less \<Longrightarrow> load_next (k_nodes s) cur l = Inr nx \<Longrightarrow>
    ins_step cmp h0 K V t s (ins_goto s t (IWalk g l cur nx c))"
| walk_stop: "k_pc s t = IWalk g l pred cur c \<Longrightarrow> k_nodes s cur = Some n \<Longrightarrow> cur \<noteq> Null \<Longrightarrow>
    cmp (get_key_bytes n) (K t) = Inr r \<Longrightarrow> r \<noteq> Less \<Longrightarrow>
    ins_step cmp h0 K V t s (ins_goto s t (IDescend g l pred (record_level c l pred cur)))"
| walk_end: "k_pc s t = IWalk g l pred Null c \<Longrightarrow>
    ins_step cmp h0 K V t s (ins_goto s t (IDescend g l pred (record_level c l pred Null)))"
| found_new: "k_pc s t = IFound GInit c \<Longrightarrow> searched_node c = None \<Longrightarrow>
    ins_step cmp h0 K V t s (ins_goto s t (IEntries (Some c)))"
| found_again: "k_pc s t = IFound (GRetry p h l) c \<Longrightarrow> searched_node c = None \<Longrightarrow>
    ins_step cmp h0 K V t s (ins_goto s t (ISlot p h l c))"
| count_entry: "k_pc s t = IEntries o' \<Longrightarrow>
    ins_step cmp h0 K V t s (ins_goto (s\<lparr>k_entries := (k_entries s + 1) mod usize_limit\<rparr>) t (ISeed o'))"
| load_seed: "k_pc s t = ISeed o' \<Longrightarrow> ins_step cmp h0 K V t s (ins_goto s t (ISeedStore o' (xorshift (k_seed s))))"
| store_seed: "k_pc s t = ISeedStore o' w \<Longrightarrow>
    ins_step cmp h0 K V t s (ins_goto (s\<lparr>k_seed := w\<rparr>) t (IMaxLoad o' (level_of h0 w)))"
| load_bound: "k_pc s t = IMaxLoad o' h \<Longrightarrow> ins_step cmp h0 K V t s (ins_goto s t (IMaxCas o' h (k_max s)))"
| bound_ok: "k_pc s t = IMaxCas o' h m \<Longrightarrow> h \<le> m \<Longrightarrow> ins_step cmp h0 K V t s (ins_goto s t (IAlloc o' h))"
| bound_cas: "k_pc s t = IMaxCas o' h m \<Longrightarrow> m < h \<Longrightarrow> k_max s = m \<Longrightarrow>
    ins_step cmp h0 K V t s (ins_goto (s\<lparr>k_max := h\<rparr>) t (IAlloc o' h))"
| bound_fail: "k_pc s t = IMaxCas o' h m \<Longrightarrow> m < h \<Longrightarrow>
    ins_step cmp h0 K V t s (ins_goto s t (IMaxCas o' h (k_max s)))"
| new_node: "k_pc s t = IAlloc o' h \<Longrightarrow> k_nodes s p = None \<Longrightarrow> p \<noteq> Null \<Longrightarrow>
    length (K t) < u16_limit \<Longrightarrow> length (V t) < u32_limit \<Longrightarrow>
    ins_step cmp h0 K V t s (ins_goto (s\<lparr>k_nodes := (k_nodes s)(p \<mapsto> filled h (K t) (V t))\<rparr>) t
      (case o' of Some c \<Rightarrow> ISlot p h 0 c | None \<Rightarrow> ISearch (GRetry p h 0)))"
| alloc_full: "k_pc s t = IAlloc o' h \<Longrightarrow> ins_step cmp h0 K V t s (ins_goto s t IFull)"
| keep_slot: "k_pc s t = ISlot p h l c \<Longrightarrow> successors c ! l = Null \<Longrightarrow> ins_step cmp h0 K V t s (ins_goto s t (ICas p h l c))"
| store_slot: "k_pc s t = ISlot p h l c \<Longrightarrow> successors c ! l \<noteq> Null \<Longrightarrow>
    store_next (k_nodes s) p l (successors c ! l) = Inr st \<Longrightarrow>
    ins_step cmp h0 K V t s (ins_goto (s\<lparr>k_nodes := st\<rparr>) t (ICas p h l c))"
| swap_ok: "k_pc s t = ICas p h l c \<Longrightarrow>
    cas_next (k_nodes s) (predecessors c ! l) l (successors c ! l) p = Inr (True, st) \<Longrightarrow>
    ins_step cmp h0 K V t s (ins_goto (s\<lparr>k_nodes := st\<rparr>) t (if Suc l < h then ISlot p h (Suc l) c else IDone p h))"
| swap_fail: "k_pc s t = ICas p h l c \<Longrightarrow>
    cas_next (k_nodes s) (predecessors c ! l) l (successors c ! l) p = Inr (False, st) \<Longrightarrow>
    ins_step cmp h0 K V t s (ins_goto s t (ISearch (GRetry p h l)))"

text \<open>A list with only its head; \<open>D t\<close> tells which of the two insertions thread \<open>t\<close> runs.\<close>

definition ins_init :: "ptr \<Rightarrow> (nat \<Rightarrow> bool) \<Rightarrow> ins_state" where
  "ins_init h0 D = \<lparr>k_nodes = [h0 \<mapsto> init_node MAX_HEAD_HEIGHT 0 0], k_max = 1, k_seed = seed_generator 1, k_entries = 0,
     k_pc = (\<lambda>t. if D t then IEntries None else ISearch GInit)\<rparr>"

definition ins_any :: "compare \<Rightarrow> ptr \<Rightarrow> (nat \<Rightarrow> bytes) \<Rightarrow> (nat \<Rightarrow> bytes) \<Rightarrow> ins_state \<Rightarrow> ins_state \<Rightarrow> bool" where
  "ins_any cmp h0 K V s s' \<longleftrightarrow> (\<exists>t. ins_step cmp h0 K V t s s')"

section \<open>Invariant\<close>

fun goal_node :: "ins_goal \<Rightarrow> (ptr \<times> nat \<times> nat) option" where
  "goal_node GInit = None"
| "goal_node (GRetry p h l) = Some (p, h, l)"

text \<open>The node a thread has allocated, its height and the number of levels it is linked at.\<close>

fun owned :: "ins_pc \<Rightarrow> (ptr \<times> nat \<times> nat) option" where
  "owned (ISearch g) = goal_node g"
| "owned (ISkip g l) = goal_node g"
| "owned (IDescend g l pred c) = goal_node g"
| "owned (IWalk g l pred cur c) = goal_node g"
| "owned (IFound g c) = goal_node g"
| "owned (ISlot p h l c) = Some (p, h, l)"
| "owned (ICas p h l c) = Some (p, h, l)"
| "owned (IDone p h) = Some (p, h, h)"
| "owned _ = None"

type_synonym levels = "nat \<Rightarrow> ptr list"

definition levels_ok :: "compare \<Rightarrow> (bytes \<Rightarrow> bool) \<Rightarrow> ptr \<Rightarrow> nodes \<Rightarrow> nat \<Rightarrow> levels \<Rightarrow> bool" where
  "levels_ok cmp valid h0 st mx LL \<longleftrightarrow> h0 \<noteq> Null \<and> node_height st h0 = MAX_HEAD_HEIGHT \<and> mx \<le> MAX_HEAD_HEIGHT \<and>
     (\<forall>l. distinct (h0 # LL l) \<and> set (LL (Suc l)) \<subseteq> set (LL l) \<and> sorted_nodes cmp st (LL l) \<and>
        (\<forall>p \<in> set (LL l). node_ok st p \<and> valid (node_key st p) \<and> l < node_height st p \<and> l < mx)) \<and>
     (\<forall>l < MAX_HEAD_HEIGHT. linked st h0 l (LL l))"

definition pred_ok :: "compare \<Rightarrow> ptr \<Rightarrow> nodes \<Rightarrow> levels \<Rightarrow> bytes \<Rightarrow> nat \<Rightarrow> ptr \<Rightarrow> bool" where
  "pred_ok cmp h0 st LL k l p \<longleftrightarrow> p = h0 \<or> p \<in> set (LL l) \<and> lt cmp st k p"

definition succ_ok :: "compare \<Rightarrow> nodes \<Rightarrow> levels \<Rightarrow> bytes \<Rightarrow> nat \<Rightarrow> ptr \<Rightarrow> bool" where
  "succ_ok cmp st LL k l q \<longleftrightarrow> q = Null \<or> q \<in> set (LL l) \<and> \<not> lt cmp st k q"

definition ctx_ok :: "compare \<Rightarrow> ptr \<Rightarrow> nodes \<Rightarrow> levels \<Rightarrow> bytes \<Rightarrow> traversal_ctx \<Rightarrow> bool" where
  "ctx_ok cmp h0 st LL k c \<longleftrightarrow> searched_node c = None \<and>
     length (predecessors c) = MAX_HEAD_HEIGHT \<and> length (successors c) = MAX_HEAD_HEIGHT \<and>
     (\<forall>l < MAX_HEAD_HEIGHT. pred_ok cmp h0 st LL k l (predecessors c ! l) \<and> succ_ok cmp st LL k l (successors c ! l))"

text \<open>A retry whose slot already points somewhere must find a successor again: \<open>Q\<close> holds of its level then.\<close>

fun retried :: "nodes \<Rightarrow> ins_goal \<Rightarrow> (nat \<Rightarrow> bool) \<Rightarrow> bool" where
  "retried st GInit Q = True"
| "retried st (GRetry p h l) Q = (l < h \<and> (nxt st l p \<noteq> Some Null \<longrightarrow> Q l))"

definition reaches :: "traversal_ctx \<Rightarrow> nat \<Rightarrow> ptr \<Rightarrow> nat \<Rightarrow> bool" where
  "reaches c l cur i \<longleftrightarrow> i < l \<or> i = l \<and> cur \<noteq> Null \<or> l < i \<and> successors c ! i \<noteq> Null"

fun at_pc :: "compare \<Rightarrow> ptr \<Rightarrow> nodes \<Rightarrow> nat \<Rightarrow> levels \<Rightarrow> bytes \<Rightarrow> ins_pc \<Rightarrow> bool" where
  "at_pc cmp h0 st mx LL k (ISearch g) = retried st g (\<lambda>_. True)"
| "at_pc cmp h0 st mx LL k (ISkip g l) = (l \<le> MAX_HEAD_HEIGHT \<and> retried st g (\<lambda>i. i < l))"
| "at_pc cmp h0 st mx LL k (IDescend g l pred c) = (l \<le> MAX_HEAD_HEIGHT \<and> ctx_ok cmp h0 st LL k c \<and>
     (0 < l \<longrightarrow> pred_ok cmp h0 st LL k (l - 1) pred) \<and> retried st g (\<lambda>i. i < l \<or> successors c ! i \<noteq> Null))"
| "at_pc cmp h0 st mx LL k (IWalk g l pred cur c) = (l < MAX_HEAD_HEIGHT \<and> ctx_ok cmp h0 st LL k c \<and>
     pred_ok cmp h0 st LL k l pred \<and> (cur = Null \<or> cur \<in> set (LL l)) \<and>
     retried st g (reaches c l cur))"
| "at_pc cmp h0 st mx LL k (IFound g c) = (ctx_ok cmp h0 st LL k c \<and> retried st g (\<lambda>i. successors c ! i \<noteq> Null))"
| "at_pc cmp h0 st mx LL k (IEntries o') = pred_option (ctx_ok cmp h0 st LL k) o'"
| "at_pc cmp h0 st mx LL k (ISeed o') = pred_option (ctx_ok cmp h0 st LL k) o'"
| "at_pc cmp h0 st mx LL k (ISeedStore o' w) = pred_option (ctx_ok cmp h0 st LL k) o'"
| "at_pc cmp h0 st mx LL k (IMaxLoad o' h) = (pred_option (ctx_ok cmp h0 st LL k) o' \<and> 1 \<le> h \<and> h \<le> MAX_HEAD_HEIGHT)"
| "at_pc cmp h0 st mx LL k (IMaxCas o' h m) =
     (pred_option (ctx_ok cmp h0 st LL k) o' \<and> 1 \<le> h \<and> h \<le> MAX_HEAD_HEIGHT \<and> m \<le> mx)"
| "at_pc cmp h0 st mx LL k (IAlloc o' h) = (pred_option (ctx_ok cmp h0 st LL k) o' \<and> 1 \<le> h \<and> h \<le> mx)"
| "at_pc cmp h0 st mx LL k IFull = True"
| "at_pc cmp h0 st mx LL k (ISlot p h l c) =
     (l < h \<and> ctx_ok cmp h0 st LL k c \<and> (nxt st l p \<noteq> Some Null \<longrightarrow> successors c ! l \<noteq> Null))"
| "at_pc cmp h0 st mx LL k (ICas p h l c) = (l < h \<and> ctx_ok cmp h0 st LL k c \<and> nxt st l p = Some (successors c ! l))"
| "at_pc cmp h0 st mx LL k (IDone p h) = True"

text \<open>A thread's own node: linked at the levels below \<open>n\<close>, its slots above still null.\<close>

definition own_ok :: "compare \<Rightarrow> ptr \<Rightarrow> nodes \<Rightarrow> nat \<Rightarrow> levels \<Rightarrow> bytes \<Rightarrow> (ptr \<times> nat \<times> nat) \<Rightarrow> bool" where
  "own_ok cmp h0 st mx LL k = (\<lambda>(p, h, n). p \<noteq> Null \<and> p \<noteq> h0 \<and> node_ok st p \<and> node_height st p = h \<and> h \<le> mx \<and>
     n \<le> h \<and> node_key st p = k \<and> (\<forall>l. p \<in> set (LL l) \<longleftrightarrow> l < n) \<and>
     (n < h \<longrightarrow> (\<exists>q. nxt st n p = Some q \<and> succ_ok cmp st LL k n q)) \<and>
     (\<forall>l. n < l \<and> l < h \<longrightarrow> nxt st l p = Some Null))"

definition ins_inv :: "compare \<Rightarrow> (bytes \<Rightarrow> bool) \<Rightarrow> ptr \<Rightarrow> (nat \<Rightarrow> bytes) \<Rightarrow> ins_state \<Rightarrow> levels \<Rightarrow> bool" where
  "ins_inv cmp valid h0 K s LL \<longleftrightarrow> levels_ok cmp valid h0 (k_nodes s) (k_max s) LL \<and>
     (\<forall>t. at_pc cmp h0 (k_nodes s) (k_max s) LL (K t) (k_pc s t)) \<and>
     (\<forall>t x. owned (k_pc s t) = Some x \<longrightarrow> own_ok cmp h0 (k_nodes s) (k_max s) LL (K t) x) \<and>
     (\<forall>t u x y. owned (k_pc s t) = Some x \<longrightarrow> owned (k_pc s u) = Some y \<longrightarrow> fst x = fst y \<longrightarrow> t = u) \<and>
     (\<forall>p \<in> set (LL 0). \<exists>t x. owned (k_pc s t) = Some x \<and> fst x = p)"

lemma ins_inv_parts:
  assumes "ins_inv cmp valid h0 K s LL"
  shows ins_inv_levels: "levels_ok cmp valid h0 (k_nodes s) (k_max s) LL"
    and ins_inv_at: "at_pc cmp h0 (k_nodes s) (k_max s) LL (K t) (k_pc s t)"
    and ins_inv_own: "owned (k_pc s t) = Some x \<Longrightarrow> own_ok cmp h0 (k_nodes s) (k_max s) LL (K t) x"
    and ins_inv_uniq: "owned (k_pc s t) = Some x \<Longrightarrow> owned (k_pc s u) = Some y \<Longrightarrow> fst x = fst y \<Longrightarrow> t = u"
    and ins_inv_base: "p \<in> set (LL 0) \<Longrightarrow> \<exists>t x. owned (k_pc s t) = Some x \<and> fst x = p"
  using assms unfolding ins_inv_def by blast+

section \<open>Frames\<close>

text \<open>What steps of other threads may change: the list grows, keys in it stay.\<close>

definition evolves :: "nodes \<Rightarrow> nat \<Rightarrow> levels \<Rightarrow> nodes \<Rightarrow> nat \<Rightarrow> levels \<Rightarrow> bool" where
  "evolves st mx LL st' mx' LL' \<longleftrightarrow> mx \<le> mx' \<and> (\<forall>l. set (LL l) \<subseteq> set (LL' l)) \<and>
     (\<forall>l. \<forall>x \<in> set (LL l). node_key st' x = node_key st x)"

text \<open>A state after one with the levels \<open>LL\<close>.\<close>

definition ins_ext ::
    "compare \<Rightarrow> (bytes \<Rightarrow> bool) \<Rightarrow> ptr \<Rightarrow> (nat \<Rightarrow> bytes) \<Rightarrow> ins_state \<Rightarrow> levels \<Rightarrow> ins_state \<Rightarrow> levels \<Rightarrow> bool" where
  "ins_ext cmp valid h0 K s LL s' LL' \<longleftrightarrow> ins_inv cmp valid h0 K s' LL' \<and>
     evolves (k_nodes s) (k_max s) LL (k_nodes s') (k_max s') LL'"

text \<open>What they leave alone of a thread's own node.\<close>

definition keeps :: "nodes \<Rightarrow> levels \<Rightarrow> nodes \<Rightarrow> levels \<Rightarrow> (ptr \<times> nat \<times> nat) \<Rightarrow> bool" where
  "keeps st LL st' LL' = (\<lambda>(p, h, n). (node_ok st p \<longrightarrow> node_ok st' p) \<and> node_height st' p = node_height st p \<and>
     node_key st' p = node_key st p \<and> (\<forall>l. p \<in> set (LL' l) \<longleftrightarrow> p \<in> set (LL l)) \<and>
     (\<forall>l. n \<le> l \<longrightarrow> nxt st' l p = nxt st l p))"

lemma evolves_refl [simp]: "evolves st mx LL st mx LL"
  by (simp add: evolves_def)

lemma keeps_refl [simp]: "keeps st LL st LL x"
  by (cases x) (simp add: keeps_def)

lemma evolves_lt: "evolves st mx LL st' mx' LL' \<Longrightarrow> x \<in> set (LL l) \<Longrightarrow> lt cmp st' k x = lt cmp st k x"
  unfolding evolves_def lt_def by metis

lemma pred_ok_frame: "evolves st mx LL st' mx' LL' \<Longrightarrow> pred_ok cmp h0 st LL k l p \<Longrightarrow> pred_ok cmp h0 st' LL' k l p"
  unfolding pred_ok_def using evolves_lt [of st mx LL st' mx' LL' p l] by (auto simp: evolves_def)

lemma succ_ok_frame: "evolves st mx LL st' mx' LL' \<Longrightarrow> succ_ok cmp st LL k l p \<Longrightarrow> succ_ok cmp st' LL' k l p"
  unfolding succ_ok_def using evolves_lt [of st mx LL st' mx' LL' p l] by (auto simp: evolves_def)

lemma ctx_ok_frame: "evolves st mx LL st' mx' LL' \<Longrightarrow> ctx_ok cmp h0 st LL k c \<Longrightarrow> ctx_ok cmp h0 st' LL' k c"
  by (auto simp: ctx_ok_def intro: pred_ok_frame succ_ok_frame)

lemma ctx_opt_frame:
  "evolves st mx LL st' mx' LL' \<Longrightarrow> pred_option (ctx_ok cmp h0 st LL k) o' \<Longrightarrow> pred_option (ctx_ok cmp h0 st' LL' k) o'"
  by (cases o') (auto intro: ctx_ok_frame)

lemma retried_frame:
  assumes "retried st g Q" "\<forall>x. goal_node g = Some x \<longrightarrow> keeps st LL st' LL' x" "\<And>i. Q i \<Longrightarrow> Q' i"
  shows "retried st' g Q'"
  using assms by (cases g) (auto simp: keeps_def)

lemma at_pc_frame:
  assumes "at_pc cmp h0 st mx LL k pc" and ev: "evolves st mx LL st' mx' LL'"
    and own: "\<forall>x. owned pc = Some x \<longrightarrow> keeps st LL st' LL' x"
  shows "at_pc cmp h0 st' mx' LL' k pc"
proof -
  note fr = ctx_ok_frame [OF ev] ctx_opt_frame [OF ev] pred_ok_frame [OF ev]
  have mx: "mx \<le> mx'" and sub: "set (LL l) \<subseteq> set (LL' l)" for l using ev by (auto simp: evolves_def)
  show ?thesis
  proof (cases pc)
    case (IWalk g l pred cur c)
    then have "retried st' g (reaches c l cur)"
      using assms(1) own by (auto intro: retried_frame)
    with IWalk assms(1) fr sub [of l] show ?thesis by auto
  next
    case (ISlot p h l c)
    then show ?thesis using assms(1) own fr by (auto simp: keeps_def)
  next
    case (ICas p h l c)
    then show ?thesis using assms(1) own fr by (auto simp: keeps_def)
  qed (use assms(1) own fr mx in \<open>auto intro: retried_frame order_trans\<close>)
qed

lemma own_ok_frame:
  assumes "own_ok cmp h0 st mx LL k x" "evolves st mx LL st' mx' LL'" "keeps st LL st' LL' x"
  shows "own_ok cmp h0 st' mx' LL' k x"
proof -
  obtain p h n where x: "x = (p, h, n)" by (cases x)
  have "mx \<le> mx'" using assms(2) by (simp add: evolves_def)
  moreover have "\<exists>q. nxt st' n p = Some q \<and> succ_ok cmp st' LL' k n q" if "n < h"
    using assms(1,3) that succ_ok_frame [OF assms(2)] by (auto simp: x own_ok_def keeps_def)
  ultimately show ?thesis using assms(1,3) by (auto simp: x own_ok_def keeps_def)
qed

text \<open>A step of thread \<open>t\<close> to \<open>pc\<close>, in which it may change the store, the bound and its own node.\<close>

lemma ins_inv_frame:
  assumes inv: "ins_inv cmp valid h0 K s LL" and pcs: "k_pc s' = (k_pc s)(t := pc)"
    and lev: "levels_ok cmp valid h0 (k_nodes s') (k_max s') LL'"
    and ev: "evolves (k_nodes s) (k_max s) LL (k_nodes s') (k_max s') LL'"
    and at: "at_pc cmp h0 (k_nodes s') (k_max s') LL' (K t) pc"
    and own: "\<And>x. owned pc = Some x \<Longrightarrow> own_ok cmp h0 (k_nodes s') (k_max s') LL' (K t) x"
    and oth: "\<And>u x. u \<noteq> t \<Longrightarrow> owned (k_pc s u) = Some x \<Longrightarrow>
      keeps (k_nodes s) LL (k_nodes s') LL' x \<and> (\<forall>y. owned pc = Some y \<longrightarrow> fst y \<noteq> fst x)"
    and base: "\<And>p. p \<in> set (LL' 0) \<Longrightarrow> p \<in> set (LL 0) \<or> (\<exists>x. owned pc = Some x \<and> fst x = p)"
    and keep: "\<And>x. owned (k_pc s t) = Some x \<Longrightarrow> \<exists>y. owned pc = Some y \<and> fst y = fst x"
  shows "ins_ext cmp valid h0 K s LL s' LL'"
proof -
  have at_u: "at_pc cmp h0 (k_nodes s') (k_max s') LL' (K u) (k_pc s' u)" for u
  proof (cases "u = t")
    case False
    then show ?thesis using at_pc_frame [OF ins_inv_at [OF inv] ev] oth pcs by simp
  qed (use at pcs in simp)
  have own_u: "own_ok cmp h0 (k_nodes s') (k_max s') LL' (K u) x" if "owned (k_pc s' u) = Some x" for u x
  proof (cases "u = t")
    case False
    then have o': "owned (k_pc s u) = Some x" using that pcs by simp
    then show ?thesis using own_ok_frame [OF ins_inv_own [OF inv o'] ev] oth [OF False o'] by simp
  qed (use own that pcs in simp)
  have ow: "owned (k_pc s' u) = (if u = t then owned pc else owned (k_pc s u))" for u using pcs by simp
  have uniq: "u = v" if "owned (k_pc s' u) = Some x" "owned (k_pc s' v) = Some y" "fst x = fst y" for u v x y
    using that oth [of u x] oth [of v y] ins_inv_uniq [OF inv, of u x v y] unfolding ow by (cases "u = t"; cases "v = t") auto
  have "\<exists>u x. owned (k_pc s' u) = Some x \<and> fst x = p" if p: "p \<in> set (LL' 0)" for p
    using base [OF p]
  proof
    assume "p \<in> set (LL 0)"
    then obtain u x where u: "owned (k_pc s u) = Some x" "fst x = p" using ins_inv_base [OF inv] by blast
    show ?thesis unfolding ow by (rule exI [of _ u], cases x) (use u keep [of x] in auto)
  next
    assume "\<exists>x. owned pc = Some x \<and> fst x = p"
    then show ?thesis unfolding ow by (intro exI [of _ t]) auto
  qed
  then have "ins_inv cmp valid h0 K s' LL'" unfolding ins_inv_def using lev at_u own_u uniq by blast
  with ev show ?thesis by (simp add: ins_ext_def)
qed

text \<open>Steps that leave the store and the own node alone.\<close>

lemma ins_inv_local:
  assumes inv: "ins_inv cmp valid h0 K s LL" and pcs: "k_pc s' = (k_pc s)(t := pc)"
    and st: "k_nodes s' = k_nodes s" "k_max s' = k_max s" and o: "owned pc = owned (k_pc s t)"
    and at: "at_pc cmp h0 (k_nodes s) (k_max s) LL (K t) pc"
  shows "ins_ext cmp valid h0 K s LL s' LL"
proof (rule ins_inv_frame [OF inv pcs])
  show "own_ok cmp h0 (k_nodes s') (k_max s') LL (K t) x" if "owned pc = Some x" for x
    using ins_inv_own [OF inv, of t x] that o st by simp
  show "keeps (k_nodes s) LL (k_nodes s') LL x \<and> (\<forall>y. owned pc = Some y \<longrightarrow> fst y \<noteq> fst x)"
    if "u \<noteq> t" "owned (k_pc s u) = Some x" for u x
    using ins_inv_uniq [OF inv that(2)] that(1) o st by (metis keeps_refl)
qed (use ins_inv_levels [OF inv] at st o in \<open>simp_all\<close>)

text \<open>
  A search that runs while other threads insert. \<open>upto q r\<close>: node \<open>r\<close> is in the list and its key is at
  most that of \<open>q\<close>; \<open>sees\<close> says how far the search has kept \<open>q\<close> in sight.
\<close>

definition upto :: "compare \<Rightarrow> nodes \<Rightarrow> levels \<Rightarrow> ptr \<Rightarrow> ptr \<Rightarrow> bool" where
  "upto cmp st LL q r \<longleftrightarrow> r \<in> set (LL 0) \<and> r \<noteq> Null \<and> cmp (node_key st q) (node_key st r) \<noteq> Inr Less"

fun sees :: "compare \<Rightarrow> nodes \<Rightarrow> levels \<Rightarrow> ptr \<Rightarrow> ins_pc \<Rightarrow> bool" where
  "sees cmp st LL q (ISkip g l) = (0 < l)"
| "sees cmp st LL q (IDescend g l pred c) = (0 < l \<or> upto cmp st LL q (successors c ! 0))"
| "sees cmp st LL q (IWalk g l pred cur c) = (0 < l \<or> upto cmp st LL q cur)"
| "sees cmp st LL q (IFound g c) = upto cmp st LL q (successors c ! 0)"
| "sees cmp st LL q _ = True"

section \<open>Search steps\<close>

lemma ins_goto_simps [simp]:
  "k_nodes (ins_goto s t pc) = k_nodes s" "k_max (ins_goto s t pc) = k_max s" "k_pc (ins_goto s t pc) = (k_pc s)(t := pc)"
  by (simp_all add: ins_goto_def)

lemma levels_okD:
  assumes "levels_ok cmp valid h0 st mx LL"
  shows "h0 \<noteq> Null" "node_height st h0 = MAX_HEAD_HEIGHT" "mx \<le> MAX_HEAD_HEIGHT" "distinct (h0 # LL l)"
    "set (LL (Suc l)) \<subseteq> set (LL l)" "sorted_nodes cmp st (LL l)" "l < MAX_HEAD_HEIGHT \<Longrightarrow> linked st h0 l (LL l)"
    "p \<in> set (LL l) \<Longrightarrow> node_ok st p" "p \<in> set (LL l) \<Longrightarrow> valid (node_key st p)"
    "p \<in> set (LL l) \<Longrightarrow> l < node_height st p" "p \<in> set (LL l) \<Longrightarrow> l < mx"
  using assms unfolding levels_ok_def by blast+

lemma path_no_null: "path f p xs q \<Longrightarrow> Null \<notin> set xs"
  by (induction xs arbitrary: p) auto

text \<open>Splitting a level after a node or the head.\<close>

lemma level_split:
  assumes "levels_ok cmp valid h0 st mx LL" "l < MAX_HEAD_HEIGHT" "p = h0 \<or> p \<in> set (LL l)"
  obtains as bs where "h0 # LL l = (as @ [p]) @ bs" "nxt st l p = Some (hd0 bs)" "set bs \<subseteq> set (LL l)"
proof -
  have lk: "path (nxt st l) h0 (h0 # LL l) Null" using levels_okD(7) [OF assms(1,2)] by (simp add: linked_def)
  have "p \<in> set (h0 # LL l)" using assms(3) by simp
  then obtain as bs where e: "h0 # LL l = as @ p # bs" by (meson split_list)
  from lk obtain r where "nxt st l p = Some r" "path (nxt st l) r bs Null" unfolding e by (auto simp: path_append)
  moreover have "set bs \<subseteq> set (LL l)" using e by (cases as) auto
  ultimately show thesis using e by (intro that [of as bs]) (auto dest: path_hd0)
qed

lemma level_next:
  assumes "levels_ok cmp valid h0 st mx LL" "l < MAX_HEAD_HEIGHT" "p = h0 \<or> p \<in> set (LL l)"
  shows "\<exists>q. nxt st l p = Some q \<and> (q = Null \<or> q \<in> set (LL l))"
proof -
  obtain as bs where "nxt st l p = Some (hd0 bs)" "set bs \<subseteq> set (LL l)" using level_split [OF assms] by metis
  then show ?thesis by (cases bs) auto
qed

lemma cas_next_ok:
  assumes "cas_next st p l q n = Inr (True, st')"
  shows "nxt st l p = Some q" "nxt st' = (nxt st)(l := (nxt st l)(p \<mapsto> n))" "same_nodes st st'"
proof -
  have ld: "load_next st p l = Inr q" "store_next st p l n = Inr st'"
    using assms by (auto simp: cas_next_def rbind_eq_Inr_iff split: if_splits)
  then show q: "nxt st l p = Some q" by (simp add: load_next_nxt split: option.splits)
  then have "l < node_height st p" using nxt_height by blast
  then show "nxt st' = (nxt st)(l := (nxt st l)(p \<mapsto> n))" "same_nodes st st'"
    using store_next_view [of l st p n] ld(2) by (metis sum.inject(2))+
qed

context key_comparator
begin

text \<open>A level that holds a node not below the key goes on after every node below it.\<close>

lemma level_goes_on:
  assumes lev: "levels_ok cmp valid h0 st mx LL" and l: "l < MAX_HEAD_HEIGHT" and k: "valid k"
    and p: "pred_ok cmp h0 st LL k l p" and q: "q \<in> set (LL l)" "\<not> lt cmp st k q"
  shows "nxt st l p \<noteq> Some Null"
proof
  assume null: "nxt st l p = Some Null"
  obtain as bs where s: "h0 # LL l = (as @ [p]) @ bs" "nxt st l p = Some (hd0 bs)" "set bs \<subseteq> set (LL l)"
    using level_split [OF lev l] p by (metis pred_ok_def)
  have nn: "Null \<notin> set (LL l)" using path_no_null levels_okD(7) [OF lev l] by (fastforce simp: linked_def)
  have bs: "bs = []" using s(2,3) null nn by (cases bs) auto
  have nh: "h0 \<notin> set (LL l)" using levels_okD(4) [OF lev, of l] by simp
  have "p \<noteq> h0" using nh s(1) bs q(1) by (auto simp: Cons_eq_append_conv)
  then have p': "p \<in> set (LL l)" "lt cmp st k p" using p by (auto simp: pred_ok_def)
  obtain cs where cs: "LL l = cs @ p # []" using s(1) bs p'(1) levels_okD(4) [OF lev, of l]
    by (cases as) auto
  have "q \<in> set cs" using q p' cs by auto
  then have "lt cmp st k q"
    using sorted_prefix_lt [of st cs p "[]" k] levels_okD(6) [OF lev, of l] levels_okD(9) [OF lev, of _ l] p'(2) k
    by (simp add: cs)
  with q(2) show False by blast
qed

text \<open>The bookkeeping of a search, and each of its steps.\<close>

lemma search_ctx_ok: "ctx_ok cmp h0 st LL k (search_ctx h0)"
  by (simp add: ctx_ok_def search_ctx_def traversal_new_def pred_ok_def succ_ok_def)

lemma record_level_ok:
  assumes "ctx_ok cmp h0 st LL k c" "pred_ok cmp h0 st LL k l pred" "succ_ok cmp st LL k l cur"
  shows "ctx_ok cmp h0 st LL k (record_level c l pred cur)"
  using assms by (auto simp: ctx_ok_def record_level_def) (metis nth_list_update_eq nth_list_update_neq)+

lemma record_level_succ:
  "length (successors c) = MAX_HEAD_HEIGHT \<Longrightarrow> l < MAX_HEAD_HEIGHT \<Longrightarrow>
    successors (record_level c l pred cur) ! i = (if i = l then cur else successors c ! i)"
  by (simp add: record_level_def nth_list_update)

lemma retried_mono: "retried st g Q \<Longrightarrow> (\<And>i. Q i \<Longrightarrow> Q' i) \<Longrightarrow> retried st g Q'"
  by (cases g) auto

text \<open>A retry whose slot points to a node of its level finds that level when it loads the level bound.\<close>

lemma retried_target:
  assumes inv: "ins_inv cmp valid h0 K s LL" and o: "owned (k_pc s t) = goal_node g"
    and g: "retried (k_nodes s) g Q"
    and Q: "\<And>l q. l < MAX_HEAD_HEIGHT \<Longrightarrow> Q l \<Longrightarrow> q \<in> set (LL l) \<Longrightarrow> \<not> lt cmp (k_nodes s) (K t) q \<Longrightarrow> Q' l"
  shows "retried (k_nodes s) g Q'"
proof (cases g)
  case (GRetry p h l)
  have own: "own_ok cmp h0 (k_nodes s) (k_max s) LL (K t) (p, h, l)"
    using ins_inv_own [OF inv, of t] o GRetry by simp
  have "Q' l" if n: "nxt (k_nodes s) l p \<noteq> Some Null"
  proof -
    have "l < h" "Q l" using g GRetry n by simp_all
    moreover obtain q where "nxt (k_nodes s) l p = Some q" "succ_ok cmp (k_nodes s) LL (K t) l q"
      using own \<open>l < h\<close> by (auto simp: own_ok_def)
    moreover have "l < MAX_HEAD_HEIGHT"
      using own \<open>l < h\<close> levels_okD(3) [OF ins_inv_levels [OF inv]] by (simp add: own_ok_def)
    ultimately show ?thesis using Q [of l q] n by (auto simp: succ_ok_def)
  qed
  then show ?thesis using g GRetry by simp
qed simp

lemma ins_inv_load_max:
  assumes inv: "ins_inv cmp valid h0 K s LL" and t: "k_pc s t = ISearch g"
  shows "ins_ext cmp valid h0 K s LL (ins_goto s t (ISkip g (k_max s))) LL"
proof (rule ins_inv_local [OF inv])
  have "retried (k_nodes s) g (\<lambda>_. True)" using ins_inv_at [OF inv, of t] t by simp
  from retried_target [OF inv _ this, of t "\<lambda>i. i < k_max s"] levels_okD(3,11) [OF ins_inv_levels [OF inv]] t
  show "at_pc cmp h0 (k_nodes s) (k_max s) LL (K t) (ISkip g (k_max s))" by simp
qed (use t in simp_all)

lemma ins_inv_skip_level:
  assumes inv: "ins_inv cmp valid h0 K s LL" and k: "valid (K t)" and t: "k_pc s t = ISkip g (Suc l)"
    and ld: "load_next (k_nodes s) h0 l = Inr Null"
  shows "ins_ext cmp valid h0 K s LL (ins_goto s t (ISkip g l)) LL"
proof (rule ins_inv_local [OF inv])
  have a: "Suc l \<le> MAX_HEAD_HEIGHT" "retried (k_nodes s) g (\<lambda>i. i < Suc l)" using ins_inv_at [OF inv, of t] t by simp_all
  have "nxt (k_nodes s) l h0 = Some Null" using ld by (simp add: load_next_nxt split: option.splits)
  then have "i < l" if "i < Suc l" "q \<in> set (LL i)" "\<not> lt cmp (k_nodes s) (K t) q" for i q
    using level_goes_on [OF ins_inv_levels [OF inv] _ k, of l h0 q] that a(1) by (cases "i = l") (auto simp: pred_ok_def)
  with retried_target [OF inv _ a(2), of t "\<lambda>i. i < l"] t a(1)
  show "at_pc cmp h0 (k_nodes s) (k_max s) LL (K t) (ISkip g l)" by simp
qed (use t in simp_all)

lemma ins_inv_enter:
  assumes inv: "ins_inv cmp valid h0 K s LL" and t: "k_pc s t = ISkip g l"
  shows "ins_ext cmp valid h0 K s LL (ins_goto s t (IDescend g l h0 (search_ctx h0))) LL"
proof (rule ins_inv_local [OF inv])
  show "at_pc cmp h0 (k_nodes s) (k_max s) LL (K t) (IDescend g l h0 (search_ctx h0))"
    using ins_inv_at [OF inv, of t] t search_ctx_ok by (auto simp: pred_ok_def intro: retried_mono)
qed (use t in simp_all)

lemma load_level:
  assumes inv: "ins_inv cmp valid h0 K s LL" and l: "l < MAX_HEAD_HEIGHT" and p: "pred_ok cmp h0 (k_nodes s) LL k l p"
    and ld: "load_next (k_nodes s) p l = Inr q"
  shows "nxt (k_nodes s) l p = Some q" "q = Null \<or> q \<in> set (LL l)"
  using level_next [OF ins_inv_levels [OF inv] l, of p] p ld
  by (auto simp: load_next_nxt pred_ok_def split: option.splits)

lemma ins_inv_descend:
  assumes inv: "ins_inv cmp valid h0 K s LL" and k: "valid (K t)" and t: "k_pc s t = IDescend g (Suc l) pred c"
    and ld: "load_next (k_nodes s) pred l = Inr cur"
  shows "ins_ext cmp valid h0 K s LL (ins_goto s t (IWalk g l pred cur c)) LL"
proof (rule ins_inv_local [OF inv])
  have a: "l < MAX_HEAD_HEIGHT" "ctx_ok cmp h0 (k_nodes s) LL (K t) c" "pred_ok cmp h0 (k_nodes s) LL (K t) l pred"
    "retried (k_nodes s) g (\<lambda>i. i < Suc l \<or> successors c ! i \<noteq> Null)"
    using ins_inv_at [OF inv, of t] t by simp_all
  note cur = load_level [OF inv a(1,3) ld]
  have "reaches c l cur i"
    if "i < Suc l \<or> successors c ! i \<noteq> Null" "q \<in> set (LL i)" "\<not> lt cmp (k_nodes s) (K t) q" for i q
    using level_goes_on [OF ins_inv_levels [OF inv] a(1) k a(3), of q] that cur(1) by (auto simp: reaches_def less_Suc_eq)
  with retried_target [OF inv _ a(4), of t "reaches c l cur"] t a(1-3) cur(2)
  show "at_pc cmp h0 (k_nodes s) (k_max s) LL (K t) (IWalk g l pred cur c)" by simp
qed (use t in simp_all)

lemma ins_inv_walk_right:
  assumes inv: "ins_inv cmp valid h0 K s LL" and k: "valid (K t)" and t: "k_pc s t = IWalk g l pred cur c"
    and n: "k_nodes s cur = Some n" "cur \<noteq> Null" "cmp (get_key_bytes n) (K t) = Inr Less"
    and ld: "load_next (k_nodes s) cur l = Inr nx"
  shows "ins_ext cmp valid h0 K s LL (ins_goto s t (IWalk g l cur nx c)) LL"
proof (rule ins_inv_local [OF inv])
  have a: "l < MAX_HEAD_HEIGHT" "ctx_ok cmp h0 (k_nodes s) LL (K t) c" "cur \<in> set (LL l)"
    "retried (k_nodes s) g (reaches c l cur)"
    using ins_inv_at [OF inv, of t] t n(2) by simp_all
  have p: "pred_ok cmp h0 (k_nodes s) LL (K t) l cur" using a(3) n by (simp add: pred_ok_def lt_def node_key_def)
  note nx = load_level [OF inv a(1) p ld]
  have "reaches c l nx i" if "reaches c l cur i" "q \<in> set (LL i)" "\<not> lt cmp (k_nodes s) (K t) q" for i q
    using level_goes_on [OF ins_inv_levels [OF inv] a(1) k p, of q] that nx(1) by (auto simp: reaches_def)
  with retried_target [OF inv _ a(4), of t "reaches c l nx"] t a(1,2) p nx(2)
  show "at_pc cmp h0 (k_nodes s) (k_max s) LL (K t) (IWalk g l cur nx c)" by simp
qed (use t in simp_all)

lemma ins_inv_walk_stop:
  assumes inv: "ins_inv cmp valid h0 K s LL" and t: "k_pc s t = IWalk g l pred cur c"
    and su: "cur = Null \<or> \<not> lt cmp (k_nodes s) (K t) cur"
  shows "ins_ext cmp valid h0 K s LL (ins_goto s t (IDescend g l pred (record_level c l pred cur))) LL"
proof (rule ins_inv_local [OF inv])
  have a: "l < MAX_HEAD_HEIGHT" "ctx_ok cmp h0 (k_nodes s) LL (K t) c" "pred_ok cmp h0 (k_nodes s) LL (K t) l pred"
    "cur = Null \<or> cur \<in> set (LL l)"
    "retried (k_nodes s) g (reaches c l cur)"
    using ins_inv_at [OF inv, of t] t by simp_all
  have "succ_ok cmp (k_nodes s) LL (K t) l cur" using su a(4) by (auto simp: succ_ok_def)
  note ctx = record_level_ok [OF a(2,3) this]
  have len: "length (successors c) = MAX_HEAD_HEIGHT" using a(2) by (simp add: ctx_ok_def)
  have "pred_ok cmp h0 (k_nodes s) LL (K t) (l - 1) pred" if "0 < l"
    using a(3) levels_okD(5) [OF ins_inv_levels [OF inv], of "l - 1"] that by (auto simp: pred_ok_def)
  moreover have "retried (k_nodes s) g (\<lambda>i. i < l \<or> successors (record_level c l pred cur) ! i \<noteq> Null)"
    using a(5) by (rule retried_mono) (auto simp: record_level_succ [OF len a(1)] reaches_def)
  ultimately show "at_pc cmp h0 (k_nodes s) (k_max s) LL (K t) (IDescend g l pred (record_level c l pred cur))"
    using a(1) ctx by simp
qed (use t in simp_all)

section \<open>Steps that change the list\<close>

lemma level_of_bounds: "1 \<le> level_of h0 w" "level_of h0 w \<le> MAX_HEAD_HEIGHT"
  by (simp_all add: level_of_def reduce_height_eq MAX_HEAD_HEIGHT_def)

lemma ins_inv_bound:
  assumes inv: "ins_inv cmp valid h0 K s LL" and t: "k_pc s t = IMaxCas o' h m" "m < h" "k_max s = m"
  shows "ins_ext cmp valid h0 K s LL (ins_goto (s\<lparr>k_max := h\<rparr>) t (IAlloc o' h)) LL"
proof -
  have a: "pred_option (ctx_ok cmp h0 (k_nodes s) LL (K t)) o'" "1 \<le> h" "h \<le> MAX_HEAD_HEIGHT"
    using ins_inv_at [OF inv, of t] t by simp_all
  have lev: "levels_ok cmp valid h0 (k_nodes s) h LL"
    using ins_inv_levels [OF inv] a(3) t(2,3) unfolding levels_ok_def by (meson less_trans)
  show ?thesis
    by (rule ins_inv_frame [OF inv, where t = t and pc = "IAlloc o' h" and LL' = LL])
      (use lev a t in \<open>simp_all add: evolves_def\<close>)
qed

text \<open>A fresh node.\<close>

lemma fresh_view:
  assumes "x \<noteq> p"
  shows "node_key (st(p \<mapsto> n)) x = node_key st x" "node_height (st(p \<mapsto> n)) x = node_height st x"
    "node_ok (st(p \<mapsto> n)) x = node_ok st x" "nxt (st(p \<mapsto> n)) l x = nxt st l x"
  using assms by (simp_all add: node_key_def node_height_def node_ok_def nxt_def)

lemma level_nodes:
  assumes "levels_ok cmp valid h0 st mx LL" "x \<in> set (h0 # LL l)"
  shows "st x \<noteq> None"
  using assms levels_okD(2,8) [OF assms(1)] by (auto simp: node_ok_def node_height_def MAX_HEAD_HEIGHT_def split: option.splits)

lemma sorted_nodes_cong:
  "(\<And>x. x \<in> set xs \<Longrightarrow> node_key st' x = node_key st x) \<Longrightarrow> sorted_nodes cmp st' xs = sorted_nodes cmp st xs"
  by (induction xs) (auto simp: sorted_nodes_def)

lemma levels_ok_fresh:
  assumes lev: "levels_ok cmp valid h0 st mx LL" and p: "st p = None"
  shows "levels_ok cmp valid h0 (st(p \<mapsto> n)) mx LL"
proof -
  have ne: "x \<noteq> p" if "x \<in> set (h0 # LL l)" for x l using level_nodes [OF lev that] p by auto
  have v: "node_key (st(p \<mapsto> n)) x = node_key st x" "node_height (st(p \<mapsto> n)) x = node_height st x"
    "node_ok (st(p \<mapsto> n)) x = node_ok st x" "nxt (st(p \<mapsto> n)) i x = nxt st i x" if "x \<in> set (h0 # LL l)" for x l i
    using fresh_view [OF ne [OF that], of st n] by simp_all
  have "linked (st(p \<mapsto> n)) h0 l (LL l)" if "l < MAX_HEAD_HEIGHT" for l
    using levels_okD(7) [OF lev that] path_cong [of "h0 # LL l" "nxt (st(p \<mapsto> n)) l" "nxt st l" h0 Null] v(4)
    unfolding linked_def by blast
  moreover have "sorted_nodes cmp (st(p \<mapsto> n)) (LL l)" for l
    using levels_okD(6) [OF lev] sorted_nodes_cong [of "LL l" "st(p \<mapsto> n)" st] v(1) [of _ l] by simp
  ultimately show ?thesis using levels_okD [OF lev] v unfolding levels_ok_def by (metis list.set_intros)
qed

lemma ins_inv_new_node:
  assumes inv: "ins_inv cmp valid h0 K s LL" and t: "k_pc s t = IAlloc o' h"
    and p: "k_nodes s p = None" "p \<noteq> Null"
  shows "ins_ext cmp valid h0 K s LL (ins_goto (s\<lparr>k_nodes := (k_nodes s)(p \<mapsto> filled h (K t) (V t))\<rparr>) t
      (case o' of Some c \<Rightarrow> ISlot p h 0 c | None \<Rightarrow> ISearch (GRetry p h 0))) LL"
proof -
  let ?st = "(k_nodes s)(p \<mapsto> filled h (K t) (V t))"
  let ?pc = "case o' of Some c \<Rightarrow> ISlot p h 0 c | None \<Rightarrow> ISearch (GRetry p h 0)"
  note lev = ins_inv_levels [OF inv]
  have a: "pred_option (ctx_ok cmp h0 (k_nodes s) LL (K t)) o'" "1 \<le> h" "h \<le> k_max s"
    using ins_inv_at [OF inv, of t] t by simp_all
  have h: "h \<le> MAX_HEAD_HEIGHT" using a(3) levels_okD(3) [OF lev] by simp
  note fv = filled_view [OF a(2) h, where st = "k_nodes s" and p = p and key = "K t" and val = "V t"]
  have np: "p \<notin> set (LL l)" "p \<noteq> h0" for l using level_nodes [OF lev, of p l] p(1) by auto
  have ev: "evolves (k_nodes s) (k_max s) LL ?st (k_max s) LL"
    unfolding evolves_def using fresh_view(1) [of _ p "k_nodes s"] np(1) by (metis order_refl)
  have ow: "owned ?pc = Some (p, h, 0)" by (simp split: option.splits)
  show ?thesis
  proof (rule ins_inv_frame [OF inv, where t = t and pc = ?pc and LL' = LL])
    show "at_pc cmp h0 (k_nodes (ins_goto (s\<lparr>k_nodes := ?st\<rparr>) t ?pc)) (k_max (ins_goto (s\<lparr>k_nodes := ?st\<rparr>) t ?pc)) LL (K t) ?pc"
      using a(1,2) ctx_ok_frame [OF ev] fv(5) [of 0] by (auto split: option.splits)
    show "own_ok cmp h0 (k_nodes (ins_goto (s\<lparr>k_nodes := ?st\<rparr>) t ?pc)) (k_max (ins_goto (s\<lparr>k_nodes := ?st\<rparr>) t ?pc)) LL (K t) x"
      if "owned ?pc = Some x" for x
    proof -
      have "x = (p, h, 0)" using that ow by simp
      then show ?thesis using fv np p(2) a(3) by (auto simp: own_ok_def succ_ok_def)
    qed
    show "keeps (k_nodes s) LL (k_nodes (ins_goto (s\<lparr>k_nodes := ?st\<rparr>) t ?pc)) LL x \<and> (\<forall>y. owned ?pc = Some y \<longrightarrow> fst y \<noteq> fst x)"
      if "u \<noteq> t" "owned (k_pc s u) = Some x" for u x
    proof -
      have "fst x \<noteq> p" using ins_inv_own [OF inv that(2)] p(1) by (auto simp: own_ok_def node_ok_def)
      then show ?thesis using fresh_view [of _ p "k_nodes s"] ow by (cases x) (auto simp: keeps_def)
    qed
  qed (use levels_ok_fresh [OF lev p(1)] ev t in simp_all)
qed

text \<open>Storing the successor into the own, unlinked slot.\<close>

lemma ins_inv_store_slot:
  assumes inv: "ins_inv cmp valid h0 K s LL" and t: "k_pc s t = ISlot p h l c" "successors c ! l \<noteq> Null"
    and st: "store_next (k_nodes s) p l (successors c ! l) = Inr st"
  shows "ins_ext cmp valid h0 K s LL (ins_goto (s\<lparr>k_nodes := st\<rparr>) t (ICas p h l c)) LL"
proof -
  note lev = ins_inv_levels [OF inv]
  have own: "own_ok cmp h0 (k_nodes s) (k_max s) LL (K t) (p, h, l)" using ins_inv_own [OF inv, of t] t(1) by simp
  have a: "l < h" "ctx_ok cmp h0 (k_nodes s) LL (K t) c" using ins_inv_at [OF inv, of t] t(1) by simp_all
  have "l < node_height (k_nodes s) p" using own a(1) by (simp add: own_ok_def)
  then have nx: "nxt st = (nxt (k_nodes s))(l := (nxt (k_nodes s) l)(p \<mapsto> successors c ! l))" and same: "same_nodes (k_nodes s) st"
    using store_next_view [of l "k_nodes s" p "successors c ! l"] st by (metis sum.inject(2))+
  have np: "p \<notin> set (h0 # LL l)" "p \<noteq> h0" using own by (auto simp: own_ok_def)
  have lev': "levels_ok cmp valid h0 st (k_max s) LL"
  proof -
    have "linked st h0 i (LL i)" if "i < MAX_HEAD_HEIGHT" for i
      using levels_okD(7) [OF lev that]
      by (cases "i = l") (simp_all add: linked_def nx path_upd [OF np(1)] del: path.simps)
    moreover have "sorted_nodes cmp st (LL i)" for i
      using levels_okD(6) [OF lev] same by (simp add: sorted_nodes_def same_nodes_def)
    ultimately show ?thesis using lev same by (simp add: levels_ok_def same_nodes_def)
  qed
  have ev: "evolves (k_nodes s) (k_max s) LL st (k_max s) LL" using same by (simp add: evolves_def same_nodes_def)
  have h: "l < MAX_HEAD_HEIGHT" using a(1) own levels_okD(3) [OF lev] by (simp add: own_ok_def)
  have su: "succ_ok cmp st LL (K t) l (successors c ! l)"
    using a(2) h succ_ok_frame [OF ev] by (simp add: ctx_ok_def)
  show ?thesis
  proof (rule ins_inv_frame [OF inv, where t = t and pc = "ICas p h l c" and LL' = LL])
    show "own_ok cmp h0 (k_nodes (ins_goto (s\<lparr>k_nodes := st\<rparr>) t (ICas p h l c)))
        (k_max (ins_goto (s\<lparr>k_nodes := st\<rparr>) t (ICas p h l c))) LL (K t) x" if "owned (ICas p h l c) = Some x" for x
      using own that same su by (auto simp: own_ok_def same_nodes_def nx)
    show "keeps (k_nodes s) LL (k_nodes (ins_goto (s\<lparr>k_nodes := st\<rparr>) t (ICas p h l c))) LL x \<and>
        (\<forall>y. owned (ICas p h l c) = Some y \<longrightarrow> fst y \<noteq> fst x)" if "u \<noteq> t" "owned (k_pc s u) = Some x" for u x
    proof -
      have "fst x \<noteq> p" using ins_inv_uniq [OF inv that(2), of t "(p, h, l)"] that(1) t(1) by auto
      then show ?thesis using same by (cases x) (auto simp: keeps_def same_nodes_def nx)
    qed
  qed (use lev' ev a(1) ctx_ok_frame [OF ev a(2)] t(1) in \<open>simp_all add: nx\<close>)
qed

text \<open>Linking: the node goes between the last node below its key and the first one not below.\<close>

lemma sorted_insert:
  assumes so: "sorted_nodes cmp st (cs @ bs)" and key: "node_key st p = k" "valid k"
    and va: "\<forall>x \<in> set (cs @ bs). valid (node_key st x)" and cs: "\<forall>x \<in> set cs. lt cmp st k x"
    and bs: "hd0 bs = Null \<or> \<not> lt cmp st k (hd0 bs)" "Null \<notin> set bs"
  shows "sorted_nodes cmp st (cs @ p # bs)"
proof -
  have "cmp k (node_key st x) \<noteq> Inr Less" if "x \<in> set cs" for x
    using cs that cmp_swap [of "node_key st x" k] va key(2) by (auto simp: lt_def)
  moreover have "cmp (node_key st x) k \<noteq> Inr Less" if "x \<in> set bs" for x
  proof (cases bs)
    case (Cons b bs')
    then have b: "cmp (node_key st b) k \<noteq> Inr Less" "valid (node_key st b)" using bs va by (auto simp: lt_def)
    show ?thesis
    proof (cases "x = b")
      case False
      then have "cmp (node_key st x) (node_key st b) \<noteq> Inr Less"
        using so that Cons by (auto simp: sorted_nodes_def sorted_wrt_append)
      then show ?thesis using not_less_trans [of k "node_key st b" "node_key st x"] b va that key(2) by auto
    qed (use b in simp)
  qed (use that in simp)
  ultimately show ?thesis using so key(1) by (auto simp: sorted_nodes_def sorted_wrt_append)
qed

text \<open>The level the node enters.\<close>

lemma level_insert:
  assumes lev: "levels_ok cmp valid h0 st mx LL" and l: "l < MAX_HEAD_HEIGHT" and k: "valid k"
    and pr: "pred_ok cmp h0 st LL k l pr" "nxt st l pr = Some su" and su: "succ_ok cmp st LL k l su"
    and p: "p \<noteq> Null" "p \<noteq> h0" "p \<notin> set (LL l)" "node_key st p = k" "nxt st l p = Some su"
  shows "\<exists>ys. path ((nxt st l)(pr \<mapsto> p)) h0 (h0 # ys) Null \<and> set ys = insert p (set (LL l)) \<and>
    distinct (h0 # ys) \<and> sorted_nodes cmp st ys \<and> (\<exists>as bs. LL l = as @ bs \<and> ys = as @ p # bs \<and> (\<forall>x \<in> set as. lt cmp st k x) \<and>
      (\<forall>q \<in> set bs. hd0 bs = q \<longrightarrow> \<not> lt cmp st k q))"
proof -
  obtain as bs where s: "h0 # LL l = (as @ [pr]) @ bs" "nxt st l pr = Some (hd0 bs)" "set bs \<subseteq> set (LL l)"
    using level_split [OF lev l] pr(1) by (metis pred_ok_def)
  have hd: "hd0 bs = su" using s(2) pr(2) by simp
  have lk: "path (nxt st l) h0 ((as @ [pr]) @ bs) Null" using levels_okD(7) [OF lev l] s(1) by (simp add: linked_def)
  have di: "distinct ((as @ [pr]) @ bs)" using levels_okD(4) [OF lev, of l] unfolding s(1) .
  have pn: "p \<notin> set ((as @ [pr]) @ bs)" using p(2,3) s(1) [symmetric] by simp
  obtain cs where cs: "as @ [pr] = h0 # cs" using s(1) by (cases as) auto
  then have L: "LL l = cs @ bs" using s(1) by simp
  have lt: "\<forall>x \<in> set cs. lt cmp st k x"
  proof (cases "cs = []")
    case False
    then have "pr \<in> set cs" "last cs = pr" using cs by (metis last_ConsR last_in_set last_snoc)+
    moreover have "h0 \<notin> set cs" using di cs by auto
    ultimately have "lt cmp st k pr" using pr(1) by (auto simp: pred_ok_def)
    moreover obtain ds where ds: "cs = ds @ [pr]" using False \<open>last cs = pr\<close> by (metis append_butlast_last_id)
    ultimately show ?thesis
      using sorted_prefix_lt [of st ds pr bs k] levels_okD(6) [OF lev, of l] levels_okD(9) [OF lev, of _ l] k L by auto
  qed simp
  have "Null \<notin> set bs" using path_no_null [OF lk] by simp
  then have "sorted_nodes cmp st (cs @ p # bs)"
    using sorted_insert [of st cs bs p k] levels_okD(6) [OF lev, of l] levels_okD(9) [OF lev, of _ l] k L lt su hd p(4)
    by (auto simp: succ_ok_def)
  moreover have "path ((nxt st l)(pr \<mapsto> p)) h0 ((as @ [pr]) @ p # bs) Null"
    using path_insert(1) [OF lk _ di pn p(1)] p(5) hd by simp
  moreover have "\<forall>q \<in> set bs. hd0 bs = q \<longrightarrow> \<not> lt cmp st k q" using su hd \<open>Null \<notin> set bs\<close> by (auto simp: succ_ok_def)
  ultimately show ?thesis using L di pn lt by (intro exI [of _ "cs @ p # bs"]) (auto simp: cs)
qed

text \<open>A successful swap links the node into its level, and what other threads own is not touched.\<close>

lemma levels_ok_swapped:
  assumes lev: "levels_ok cmp valid h0 st mx LL" and own: "own_ok cmp h0 st mx LL key (p, h, l)" "l < h" and k: "valid key"
    and ys: "path ((nxt st l)(pr \<mapsto> p)) h0 (h0 # ys) Null" "set ys = insert p (set (LL l))" "distinct (h0 # ys)" "sorted_nodes cmp st ys"
    and st': "nxt st' = (nxt st)(l := (nxt st l)(pr \<mapsto> p))" "same_nodes st st'"
  shows "levels_ok cmp valid h0 st' mx (LL(l := ys))"
proof -
  define LL' where "LL' = LL(l := ys)"
  have same: "node_key st' = node_key st" "node_height st' = node_height st" "node_ok st' = node_ok st"
    using st'(2) by (simp_all add: same_nodes_def)
  have p: "node_ok st p" "node_key st p = key" "node_height st p = h" "h \<le> mx" "\<And>i. p \<in> set (LL i) \<longleftrightarrow> i < l"
    using own by (auto simp: own_ok_def)
  have mem: "x \<in> set (LL' i) \<longleftrightarrow> x \<in> set (LL i) \<or> x = p \<and> i = l" for x i using ys(2) by (auto simp: LL'_def)
  have "linked st' h0 i (LL' i)" if "i < MAX_HEAD_HEIGHT" for i
    using levels_okD(7) [OF lev that] ys(1) by (simp add: linked_def LL'_def st'(1) del: path.simps)
  moreover have "sorted_nodes cmp st' (LL' i)" for i
    using levels_okD(6) [OF lev] ys(4) by (simp add: sorted_nodes_def same LL'_def)
  moreover have "distinct (h0 # LL' i)" for i using levels_okD(4) [OF lev] ys(3) by (simp add: LL'_def)
  moreover have "set (LL' (Suc i)) \<subseteq> set (LL' i)" for i
    using levels_okD(5) [OF lev, of i] mem p(5) by auto
  moreover have "node_ok st' x \<and> valid (node_key st' x) \<and> i < node_height st' x \<and> i < mx" if "x \<in> set (LL' i)" for x i
  proof (cases "x \<in> set (LL i)")
    case True
    then show ?thesis using levels_okD(8-11) [OF lev, of x i] by (simp add: same)
  next
    case False
    then have "x = p" "i = l" using that mem by blast+
    then show ?thesis using p(1-4) own(2) k by (simp add: same)
  qed
  ultimately have "levels_ok cmp valid h0 st' mx LL'" using levels_okD(1-3) [OF lev] unfolding levels_ok_def same by blast
  then show ?thesis unfolding LL'_def .
qed

lemma keeps_swapped:
  assumes own: "own_ok cmp h0 st mx LL key x" and pr: "pred_ok cmp h0 st LL key' l pr"
    and st': "nxt st' = (nxt st)(l := (nxt st l)(pr \<mapsto> p))" "same_nodes st st'"
    and mem: "\<And>q i. q \<in> set (LL' i) \<longleftrightarrow> q \<in> set (LL i) \<or> q = p \<and> i = l" and d: "fst x \<noteq> p"
  shows "keeps st LL st' LL' x"
proof -
  obtain u h n where x: "x = (u, h, n)" by (cases x)
  have u: "u \<noteq> h0" "\<And>i. u \<in> set (LL i) \<longleftrightarrow> i < n" using own by (auto simp: own_ok_def x)
  have "nxt st' i u = nxt st i u" if "n \<le> i" for i
  proof (cases "i = l")
    case True
    then have "u \<notin> set (LL l)" using u(2) [of l] that by simp
    then have "u \<noteq> pr" using pr u(1) unfolding pred_ok_def by blast
    then show ?thesis by (simp add: st'(1))
  qed (simp add: st'(1))
  then show ?thesis using d st'(2) by (simp add: x keeps_def mem same_nodes_def)
qed

lemma ins_inv_swap:
  assumes inv: "ins_inv cmp valid h0 K s LL" and k: "valid (K t)" and t: "k_pc s t = ICas p h l c"
    and cas: "cas_next (k_nodes s) (predecessors c ! l) l (successors c ! l) p = Inr (True, st)"
    and pc: "pc = (if Suc l < h then ISlot p h (Suc l) c else IDone p h)"
  shows "\<exists>LL'. ins_ext cmp valid h0 K s LL (ins_goto (s\<lparr>k_nodes := st\<rparr>) t pc) LL'"
proof -
  let ?pr = "predecessors c ! l" and ?su = "successors c ! l"
  note lev = ins_inv_levels [OF inv] and cn = cas_next_ok [OF cas]
  have own: "own_ok cmp h0 (k_nodes s) (k_max s) LL (K t) (p, h, l)" using ins_inv_own [OF inv, of t] t by simp
  have a: "l < h" "ctx_ok cmp h0 (k_nodes s) LL (K t) c" "nxt (k_nodes s) l p = Some ?su"
    using ins_inv_at [OF inv, of t] t by simp_all
  have l: "l < MAX_HEAD_HEIGHT" using a(1) own levels_okD(3) [OF lev] by (simp add: own_ok_def)
  have pr: "pred_ok cmp h0 (k_nodes s) LL (K t) l ?pr" and su: "succ_ok cmp (k_nodes s) LL (K t) l ?su"
    using a(2) l by (simp_all add: ctx_ok_def)
  have pp: "p \<noteq> Null" "p \<noteq> h0" "p \<notin> set (LL l)" "node_key (k_nodes s) p = K t" using own by (auto simp: own_ok_def)
  obtain ys where ys: "path ((nxt (k_nodes s) l)(?pr \<mapsto> p)) h0 (h0 # ys) Null" "set ys = insert p (set (LL l))"
    "distinct (h0 # ys)" "sorted_nodes cmp (k_nodes s) ys"
    using level_insert [OF lev l k pr cn(1) su pp a(3)] by blast
  define LL' where "LL' = LL(l := ys)"
  have same: "node_key st = node_key (k_nodes s)" "node_height st = node_height (k_nodes s)" "node_ok st = node_ok (k_nodes s)"
    using cn(3) by (simp_all add: same_nodes_def)
  have ne: "p \<noteq> ?pr" using pr pp(2,3) by (auto simp: pred_ok_def)
  have own': "node_ok (k_nodes s) p" "node_height (k_nodes s) p = h" "h \<le> k_max s" "\<And>i. p \<in> set (LL i) \<longleftrightarrow> i < l"
    "\<And>i. l < i \<Longrightarrow> i < h \<Longrightarrow> nxt (k_nodes s) i p = Some Null"
    using own by (auto simp: own_ok_def)
  have mem: "x \<in> set (LL' i) \<longleftrightarrow> x \<in> set (LL i) \<or> x = p \<and> i = l" for x i using ys(2) by (auto simp: LL'_def)
  have lev': "levels_ok cmp valid h0 st (k_max s) LL'"
    unfolding LL'_def by (rule levels_ok_swapped [OF lev own a(1) k ys cn(2,3)])
  have ev: "evolves (k_nodes s) (k_max s) LL st (k_max s) LL'" using mem by (auto simp: evolves_def same)
  have ow: "owned pc = Some (p, h, Suc l)" using a(1) by (auto simp: pc)
  have "ins_ext cmp valid h0 K s LL (ins_goto (s\<lparr>k_nodes := st\<rparr>) t pc) LL'"
  proof (rule ins_inv_frame [OF inv, where t = t and pc = pc])
    show "at_pc cmp h0 (k_nodes (ins_goto (s\<lparr>k_nodes := st\<rparr>) t pc)) (k_max (ins_goto (s\<lparr>k_nodes := st\<rparr>) t pc)) LL' (K t) pc"
      using ctx_ok_frame [OF ev a(2)] own'(5) [of "Suc l"] ne by (simp add: pc cn(2))
    show "own_ok cmp h0 (k_nodes (ins_goto (s\<lparr>k_nodes := st\<rparr>) t pc)) (k_max (ins_goto (s\<lparr>k_nodes := st\<rparr>) t pc)) LL' (K t) x"
      if "owned pc = Some x" for x
    proof -
      have "x = (p, h, Suc l)" using that ow by simp
      then show ?thesis
        using pp own' a(1) by (auto simp: own_ok_def same mem cn(2) succ_ok_def less_Suc_eq)
    qed
    show "keeps (k_nodes s) LL (k_nodes (ins_goto (s\<lparr>k_nodes := st\<rparr>) t pc)) LL' x \<and> (\<forall>y. owned pc = Some y \<longrightarrow> fst y \<noteq> fst x)"
      if u: "u \<noteq> t" "owned (k_pc s u) = Some x" for u x
    proof -
      have d: "fst x \<noteq> p" using ins_inv_uniq [OF inv u(2), of t "(p, h, l)"] u(1) t by auto
      show ?thesis using keeps_swapped [OF ins_inv_own [OF inv u(2)] pr cn(2,3) mem d] d ow by auto
    qed
    show "q \<in> set (LL 0) \<or> (\<exists>x. owned pc = Some x \<and> fst x = q)" if "q \<in> set (LL' 0)" for q
      using that ow by (auto simp: mem)
    show "\<exists>y. owned pc = Some y \<and> fst y = fst x" if "owned (k_pc s t) = Some x" for x using that t ow by auto
  qed (use lev' ev in simp_all)
  then show ?thesis by blast
qed

text \<open>Steps that only move the thread on.\<close>

lemma ins_inv_move:
  assumes "ins_inv cmp valid h0 K s LL" "k_nodes s0 = k_nodes s" "k_max s0 = k_max s" "k_pc s0 = k_pc s"
    "owned pc = owned (k_pc s t)" "at_pc cmp h0 (k_nodes s) (k_max s) LL (K t) pc"
  shows "\<exists>LL'. ins_ext cmp valid h0 K s LL (ins_goto s0 t pc) LL'"
  using ins_inv_local [OF assms(1), of "ins_goto s0 t pc" t pc] assms(2-) by auto

lemma ins_inv_step:
  assumes step: "ins_step cmp h0 K V t s s'" and inv: "ins_inv cmp valid h0 K s LL" and k: "valid (K t)"
  shows "\<exists>LL'. ins_ext cmp valid h0 K s LL s' LL'"
  using step
proof cases
  case (load_max g)
  then show ?thesis using ins_inv_load_max [OF inv] by blast
next
  case (skip_level g l)
  then show ?thesis using ins_inv_skip_level [OF inv k] by blast
next
  case (skip_end g l q)
  then show ?thesis using ins_inv_enter [OF inv] by blast
next
  case (skip_all g)
  then show ?thesis using ins_inv_enter [OF inv] by blast
next
  case (descend g l pred c cur)
  then show ?thesis using ins_inv_descend [OF inv k] by blast
next
  case (walk_right g l pred cur c n nx)
  then show ?thesis using ins_inv_walk_right [OF inv k] by blast
next
  case (walk_stop g l pred cur c n r)
  then have "\<not> lt cmp (k_nodes s) (K t) cur" by (simp add: lt_def node_key_def)
  then show ?thesis using ins_inv_walk_stop [OF inv walk_stop(2)] walk_stop(1) by blast
next
  case (walk_end g l pred c)
  then show ?thesis using ins_inv_walk_stop [OF inv walk_end(2)] by blast
next
  case (bound_cas o' h m)
  then show ?thesis using ins_inv_bound [OF inv] by blast
next
  case (new_node o' h p)
  then show ?thesis using ins_inv_new_node [OF inv] by blast
next
  case (keep_slot p h l c)
  have "nxt (k_nodes s) l p = Some Null" using ins_inv_at [OF inv, of t] keep_slot(2,3) by auto
  then show ?thesis unfolding keep_slot(1)
    by (intro ins_inv_move [OF inv]) (use ins_inv_at [OF inv, of t] keep_slot(2,3) in simp_all)
next
  case (store_slot p h l c st)
  then show ?thesis using ins_inv_store_slot [OF inv] by blast
next
  case (swap_ok p h l c st)
  then show ?thesis using ins_inv_swap [OF inv k swap_ok(2,3) refl] by simp
qed ((simp only:, rule ins_inv_move [OF inv], use ins_inv_at [OF inv, of t] level_of_bounds in simp_all)[1])+

text \<open>The list with only its head.\<close>

lemma ins_inv_init:
  assumes "h0 \<noteq> Null"
  shows "ins_inv cmp valid h0 K (ins_init h0 D) (\<lambda>_. [])"
proof -
  have "node_height [h0 \<mapsto> init_node MAX_HEAD_HEIGHT 0 0] h0 = MAX_HEAD_HEIGHT"
    "l < MAX_HEAD_HEIGHT \<Longrightarrow> nxt [h0 \<mapsto> init_node MAX_HEAD_HEIGHT 0 0] l h0 = Some Null" for l
    by (simp_all add: node_height_def nxt_def init_node_def)
  then show ?thesis using assms
    by (simp add: ins_inv_def levels_ok_def ins_init_def linked_def sorted_nodes_def MAX_HEAD_HEIGHT_def)
qed

section \<open>Progress\<close>

lemma slot_writable:
  assumes "node_ok st p" "l < node_height st p"
  shows "\<exists>st'. store_next st p l q = Inr st'"
  using store_next_view [OF assms(2), of q] by metis

lemma cas_next_returns:
  assumes "nxt st l p = Some q"
  shows "\<exists>b st'. cas_next st p l e n = Inr (b, st')"
proof -
  have "l < node_height st p" using assms nxt_height by blast
  then obtain st' where "store_next st p l n = Inr st'" using store_next_view [of l st p n] by metis
  then show ?thesis using assms by (auto simp: cas_next_def load_next_nxt)
qed

lemma load_returns:
  assumes "levels_ok cmp valid h0 st mx LL" "l < MAX_HEAD_HEIGHT" "pred_ok cmp h0 st LL k l p"
  shows "\<exists>q. load_next st p l = Inr q"
  using level_next [OF assms(1,2), of p] assms(3) by (auto simp: pred_ok_def load_next_nxt)

text \<open>A walk is never stuck: the comparator answers on every node of the list.\<close>

lemma walk_enabled:
  assumes inv: "ins_inv cmp valid h0 K s LL" and k: "valid (K t)" and t: "k_pc s t = IWalk g l pred cur c"
  shows "\<exists>s'. ins_step cmp h0 K V t s s'"
proof (cases "cur = Null")
  case True
  then show ?thesis using walk_end [of s t g l pred c] t by blast
next
  case False
  note lev = ins_inv_levels [OF inv]
  have cur: "cur \<in> set (LL l)" "l < MAX_HEAD_HEIGHT" using ins_inv_at [OF inv, of t] t False by simp_all
  obtain n where n: "k_nodes s cur = Some n" using levels_okD(8) [OF lev cur(1)] by (auto simp: node_ok_def)
  have "valid (get_key_bytes n)" using levels_okD(9) [OF lev cur(1)] n by (simp add: node_key_def)
  then obtain r where r: "cmp (get_key_bytes n) (K t) = Inr r" using cmp_returns k by blast
  obtain nx where "load_next (k_nodes s) cur l = Inr nx"
    using level_next [OF lev cur(2), of cur] cur(1) by (auto simp: load_next_nxt)
  then show ?thesis using walk_right [OF t n False, of cmp] walk_stop [OF t n False, of cmp] r by (cases "r = Less") blast+
qed

lemma link_enabled:
  assumes inv: "ins_inv cmp valid h0 K s LL" and t: "k_pc s t = ISlot p h l c \<or> k_pc s t = ICas p h l c"
  shows "\<exists>s'. ins_step cmp h0 K V t s s'"
proof -
  note lev = ins_inv_levels [OF inv]
  have own: "own_ok cmp h0 (k_nodes s) (k_max s) LL (K t) (p, h, l)" using ins_inv_own [OF inv, of t] t by auto
  have a: "l < h" "ctx_ok cmp h0 (k_nodes s) LL (K t) c" using ins_inv_at [OF inv, of t] t by auto
  have l: "l < MAX_HEAD_HEIGHT" using a(1) own levels_okD(3) [OF lev] by (simp add: own_ok_def)
  obtain st where st: "store_next (k_nodes s) p l (successors c ! l) = Inr st"
    using own a(1) slot_writable [of "k_nodes s" p l "successors c ! l"] by (auto simp: own_ok_def)
  have "pred_ok cmp h0 (k_nodes s) LL (K t) l (predecessors c ! l)" using a(2) l by (simp add: ctx_ok_def)
  then obtain b st' where cas: "cas_next (k_nodes s) (predecessors c ! l) l (successors c ! l) p = Inr (b, st')"
    using level_next [OF lev l, of "predecessors c ! l"] cas_next_returns unfolding pred_ok_def by blast
  from t show ?thesis
  proof
    assume pc: "k_pc s t = ISlot p h l c"
    show ?thesis using keep_slot [OF pc] store_slot [OF pc _ st] by (cases "successors c ! l = Null") blast+
  next
    assume pc: "k_pc s t = ICas p h l c"
    consider "cas_next (k_nodes s) (predecessors c ! l) l (successors c ! l) p = Inr (True, st')"
      | "cas_next (k_nodes s) (predecessors c ! l) l (successors c ! l) p = Inr (False, st')" using cas by (cases b) auto
    then show ?thesis using swap_ok [OF pc] swap_fail [OF pc] by cases blast+
  qed
qed

lemma alloc_panics: "ins_step cmp h0 K V t s s' \<Longrightarrow> k_pc s' t = IFull \<Longrightarrow> \<exists>o' h. k_pc s t = IAlloc o' h"
  by (cases rule: ins_step.cases) (auto split: option.splits if_splits)

lemma step_exists:
  assumes inv: "ins_inv cmp valid h0 K s LL" and k: "valid (K t)"
    and small: "length (K t) < u16_limit" "length (V t) < u32_limit"
    and room: "\<exists>p. k_nodes s p = None \<and> p \<noteq> Null" and nd: "\<forall>p h. k_pc s t \<noteq> IDone p h" "k_pc s t \<noteq> IFull"
  shows "\<exists>s'. ins_step cmp h0 K V t s s'"
proof (cases "k_pc s t")
  case (ISkip g n)
  show ?thesis
  proof (cases n)
    case 0
    then show ?thesis using ISkip skip_all by blast
  next
    case (Suc l)
    then have "l < MAX_HEAD_HEIGHT" using ins_inv_at [OF inv, of t] ISkip by simp
    then obtain q where "load_next (k_nodes s) h0 l = Inr q"
      using load_returns [OF ins_inv_levels [OF inv], of l "K t" h0] by (auto simp: pred_ok_def)
    then show ?thesis using skip_level [of s t g l] skip_end [of s t g l] ISkip Suc by (cases "q = Null") blast+
  qed
next
  case (IDescend g n pred c)
  show ?thesis
  proof (cases n)
    case 0
    then show ?thesis using IDescend bottom by blast
  next
    case (Suc l)
    then obtain q where "load_next (k_nodes s) pred l = Inr q"
      using ins_inv_at [OF inv, of t] IDescend load_returns [OF ins_inv_levels [OF inv], of l "K t" pred] by auto
    then show ?thesis using IDescend Suc descend by blast
  qed
next
  case (IFound g c)
  then have "searched_node c = None" using ins_inv_at [OF inv, of t] by (simp add: ctx_ok_def)
  then show ?thesis using IFound found_new found_again by (cases g) blast+
next
  case (IMaxCas o' h m)
  then show ?thesis using bound_ok [OF IMaxCas] bound_fail [OF IMaxCas] by (meson not_le)
next
  case (IAlloc o' h)
  then show ?thesis using new_node [of s t o' h] small room by blast
qed (use nd in \<open>blast intro: load_max count_entry load_seed store_seed load_bound walk_enabled [OF inv k] link_enabled [OF inv]\<close>)+

text \<open>Only an allocation panics, and where there is room it need not.\<close>

lemma insertion_enabled:
  assumes inv: "ins_inv cmp valid h0 K s LL" and k: "valid (K t)"
    and small: "length (K t) < u16_limit" "length (V t) < u32_limit"
    and room: "\<exists>p. k_nodes s p = None \<and> p \<noteq> Null" and nd: "\<forall>p h. k_pc s t \<noteq> IDone p h" "k_pc s t \<noteq> IFull"
  shows "\<exists>s'. ins_step cmp h0 K V t s s' \<and> k_pc s' t \<noteq> IFull"
proof (cases "\<exists>o' h. k_pc s t = IAlloc o' h")
  case True
  then obtain o' h where pc: "k_pc s t = IAlloc o' h" by blast
  obtain p where "k_nodes s p = None" "p \<noteq> Null" using room by blast
  from new_node [OF pc this, of K V cmp h0] small show ?thesis by (intro exI conjI) (assumption, simp split: option.splits)
next
  case False
  obtain s' where s': "ins_step cmp h0 K V t s s'" using step_exists [of h0 K s LL t V, OF assms] by blast
  then show ?thesis using alloc_panics False by blast
qed

section \<open>Visibility\<close>

lemma next_upto:
  assumes lev: "levels_ok cmp valid h0 st mx LL" and k: "valid k" and p: "pred_ok cmp h0 st LL k 0 p"
    and q: "q \<in> set (LL 0)" "\<not> lt cmp st k q" and nx: "nxt st 0 p = Some r"
  shows "upto cmp st LL q r"
proof -
  have M: "0 < MAX_HEAD_HEIGHT" by (simp add: MAX_HEAD_HEIGHT_def)
  obtain as bs where s: "h0 # LL 0 = (as @ [p]) @ bs" "nxt st 0 p = Some (hd0 bs)" "set bs \<subseteq> set (LL 0)"
    using level_split [OF lev M] p by (metis pred_ok_def)
  have "r \<noteq> Null" using level_goes_on [OF lev M k p q] nx by auto
  then obtain bs' where bs: "bs = r # bs'" using s(2) nx by (cases bs) auto
  obtain cs where cs: "as @ [p] = h0 # cs" using s(1) by (cases as) auto
  then have L: "LL 0 = cs @ bs" using s(1) by simp
  have so: "sorted_nodes cmp st (cs @ bs)" using levels_okD(6) [OF lev, of 0] L by simp
  have "q \<notin> set cs"
  proof
    assume "q \<in> set cs"
    then have "cs \<noteq> []" by auto
    then have l: "last cs = p" "p \<in> set cs" using cs by (metis last_ConsR last_in_set last_snoc)+
    then have "p \<noteq> h0" using levels_okD(4) [OF lev, of 0] L by auto
    then have "lt cmp st k p" using p by (auto simp: pred_ok_def)
    moreover obtain ds where "cs = ds @ [p]" using \<open>cs \<noteq> []\<close> l by (metis append_butlast_last_id)
    ultimately show False
      using sorted_prefix_lt [of st ds p bs k] so levels_okD(9) [OF lev, of _ 0] k L q \<open>q \<in> set cs\<close> by auto
  qed
  then have "q = r \<or> q \<in> set bs'" using q(1) L bs by auto
  moreover have "valid (node_key st r)" using levels_okD(9) [OF lev, of r 0] L bs by simp
  ultimately have "cmp (node_key st q) (node_key st r) \<noteq> Inr Less"
    using so bs cmp_irrefl by (auto simp: sorted_nodes_def sorted_wrt_append)
  then show ?thesis using \<open>r \<noteq> Null\<close> L bs by (simp add: upto_def)
qed

lemma sees_frame:
  assumes "sees cmp st LL q pc" "evolves st mx LL st' mx' LL'" "q \<in> set (LL 0)"
  shows "sees cmp st' LL' q pc"
proof -
  have "upto cmp st' LL' q r" if "upto cmp st LL q r" for r
    using that assms(2,3) unfolding upto_def evolves_def by (metis subsetD)
  then show ?thesis using assms(1) by (cases pc) auto
qed

text \<open>The searching thread keeps in sight what was in the list and not below its key when it started.\<close>

lemma sees_step:
  assumes step: "ins_step cmp h0 K V t s s'" and inv: "ins_inv cmp valid h0 K s LL" and k: "valid (K t)"
    and q: "q \<in> set (LL 0)" "\<not> lt cmp (k_nodes s) (K t) q" and se: "sees cmp (k_nodes s) LL q (k_pc s t)"
  shows "sees cmp (k_nodes s) LL q (k_pc s' t)"
  using step
proof cases
  case (load_max g)
  then show ?thesis using levels_okD(11) [OF ins_inv_levels [OF inv] q(1)] by simp
next
  case (skip_level g l)
  have "l \<noteq> 0"
  proof
    assume "l = 0"
    then have "upto cmp (k_nodes s) LL q Null"
      using next_upto [OF ins_inv_levels [OF inv] k _ q, of h0 Null] skip_level(3)
      by (auto simp: pred_ok_def load_next_nxt split: option.splits)
    then show False by (simp add: upto_def)
  qed
  then show ?thesis using skip_level(1) by simp
next
  case (skip_all g)
  then show ?thesis using se by simp
next
  case (descend g l pred c cur)
  have "upto cmp (k_nodes s) LL q cur" if "l = 0"
    using next_upto [OF ins_inv_levels [OF inv] k _ q, of pred cur] ins_inv_at [OF inv, of t] descend that
    by (auto simp: load_next_nxt split: option.splits)
  then show ?thesis using descend(1) by auto
next
  case (walk_right g l pred cur c n nx)
  have "pred_ok cmp h0 (k_nodes s) LL (K t) l cur"
    using ins_inv_at [OF inv, of t] walk_right(2-5) by (auto simp: pred_ok_def lt_def node_key_def)
  then have "upto cmp (k_nodes s) LL q nx" if "l = 0"
    using next_upto [OF ins_inv_levels [OF inv] k _ q, of cur nx] walk_right(6) that
    by (auto simp: load_next_nxt split: option.splits)
  then show ?thesis using walk_right(1) by auto
next
  case (walk_stop g l pred cur c n r)
  then have "length (successors c) = MAX_HEAD_HEIGHT" "l < MAX_HEAD_HEIGHT"
    using ins_inv_at [OF inv, of t] by (auto simp: ctx_ok_def)
  then show ?thesis using walk_stop(1,2) se by (auto simp: record_level_succ)
next
  case (walk_end g l pred c)
  then show ?thesis using se by (auto simp: upto_def)
next
  case (new_node o' h p)
  then show ?thesis by (auto split: option.splits)
qed (use se in auto)

end

section \<open>Values\<close>

definition stored_vals :: "(nat \<Rightarrow> bytes) \<Rightarrow> ins_state \<Rightarrow> bool" where
  "stored_vals V s \<longleftrightarrow> (\<forall>t x. owned (k_pc s t) = Some x \<longrightarrow>
     k_nodes s (fst x) \<noteq> None \<and> node_val (k_nodes s) (fst x) = V t)"

lemma stored_vals_goto:
  assumes "stored_vals V s" "k_pc s0 = k_pc s"
    "\<And>p. k_nodes s p \<noteq> None \<Longrightarrow> k_nodes s0 p \<noteq> None \<and> node_val (k_nodes s0) p = node_val (k_nodes s) p"
    "\<And>x. owned pc = Some x \<Longrightarrow> (\<exists>y. owned (k_pc s t) = Some y \<and> fst y = fst x) \<or>
      k_nodes s0 (fst x) \<noteq> None \<and> node_val (k_nodes s0) (fst x) = V t"
  shows "stored_vals V (ins_goto s0 t pc)"
proof -
  have "k_nodes s0 (fst x) \<noteq> None \<and> node_val (k_nodes s0) (fst x) = V u"
    if "owned (((k_pc s)(t := pc)) u) = Some x" for u x
  proof (cases "u = t")
    case True
    then have "owned pc = Some x" using that by simp
    from assms(4) [OF this] show ?thesis
    proof
      assume "\<exists>y. owned (k_pc s t) = Some y \<and> fst y = fst x"
      then obtain y where y: "owned (k_pc s t) = Some y" "fst y = fst x" by blast
      then have "k_nodes s (fst x) \<noteq> None" "node_val (k_nodes s) (fst x) = V t"
        using assms(1) unfolding stored_vals_def by metis+
      then show ?thesis using assms(3) True by simp
    qed (use True in simp)
  next
    case False
    then have "owned (k_pc s u) = Some x" using that by simp
    then have "k_nodes s (fst x) \<noteq> None" "node_val (k_nodes s) (fst x) = V u"
      using assms(1) unfolding stored_vals_def by metis+
    then show ?thesis using assms(3) by simp
  qed
  then show ?thesis using assms(2) by (simp add: stored_vals_def)
qed

lemma stored_vals_move:
  assumes "stored_vals V s" "k_pc s0 = k_pc s" "k_nodes s0 = k_nodes s" "owned pc = owned (k_pc s t)"
  shows "stored_vals V (ins_goto s0 t pc)"
  by (rule stored_vals_goto [OF assms(1,2)]) (use assms(3,4) in auto)

lemma same_nodes_vals: "same_nodes st st' \<Longrightarrow> st p \<noteq> None \<Longrightarrow> st' p \<noteq> None \<and> node_val st' p = node_val st p"
  by (metis domIff same_nodes_def)

lemma stored_vals_step:
  assumes step: "ins_step cmp h0 K V t s s'" and inv: "ins_inv cmp valid h0 K s LL" and sv: "stored_vals V s"
  shows "stored_vals V s'"
  using step
proof cases
  case (new_node o' h p)
  let ?n = "filled h (K t) (V t)"
  have h: "1 \<le> h" "h \<le> MAX_HEAD_HEIGHT"
    using ins_inv_at [OF inv, of t] levels_okD(3) [OF ins_inv_levels [OF inv]] new_node(2) by auto
  have "node_val ((k_nodes s)(p \<mapsto> ?n)) p = V t" by (rule filled_view(3) [OF h])
  then show ?thesis unfolding new_node(1) using new_node(3)
    by (intro stored_vals_goto [OF sv]) (auto simp: node_val_def split: option.splits)
next
  case (store_slot p h l c st)
  have "l < node_height (k_nodes s) p"
    using ins_inv_own [OF inv, of t "(p, h, l)"] ins_inv_at [OF inv, of t] store_slot(2) by (auto simp: own_ok_def)
  then have "same_nodes (k_nodes s) st"
    using store_next_view [of l "k_nodes s" p "successors c ! l"] store_slot(4) by (metis sum.inject(2))
  then show ?thesis unfolding store_slot(1) using store_slot(2) same_nodes_vals
    by (intro stored_vals_goto [OF sv]) auto
next
  case (swap_ok p h l c st)
  then show ?thesis unfolding swap_ok(1) using swap_ok(2) same_nodes_vals [OF cas_next_ok(3) [OF swap_ok(3)]]
    by (intro stored_vals_goto [OF sv]) (auto split: if_splits)
qed (simp_all add: stored_vals_move [OF sv])

section \<open>Results\<close>

interpretation ins_sys: invariant_system "ins_any (dyn_compare dbg c) h0 K V" "\<lambda>s. \<exists>D. s = ins_init h0 D"
    "\<lambda>s. h0 \<noteq> Null \<and> (\<forall>t. key_valid c (K t)) \<longrightarrow>
       stored_vals V s \<and> (\<exists>LL. ins_inv (dyn_compare dbg c) (key_valid c) h0 K s LL)" for dbg c h0 K V
proof unfold_locales
  show "h0 \<noteq> Null \<and> (\<forall>t. key_valid c (K t)) \<longrightarrow>
      stored_vals V s \<and> (\<exists>LL. ins_inv (dyn_compare dbg c) (key_valid c) h0 K s LL)" if start: "\<exists>D. s = ins_init h0 D" for s
  proof -
    obtain D where s: "s = ins_init h0 D" using start by blast
    have "stored_vals V s" by (simp add: stored_vals_def s ins_init_def)
    then show ?thesis using dyn_cmp.ins_inv_init s by blast
  qed
  show "h0 \<noteq> Null \<and> (\<forall>t. key_valid c (K t)) \<longrightarrow>
      stored_vals V s' \<and> (\<exists>LL. ins_inv (dyn_compare dbg c) (key_valid c) h0 K s' LL)"
    if "h0 \<noteq> Null \<and> (\<forall>t. key_valid c (K t)) \<longrightarrow>
      stored_vals V s \<and> (\<exists>LL. ins_inv (dyn_compare dbg c) (key_valid c) h0 K s LL)"
      "ins_any (dyn_compare dbg c) h0 K V s s'" for s s'
    using that dyn_cmp.ins_inv_step [of dbg c h0 K V _ s s'] stored_vals_step [of "dyn_compare dbg c" h0 K V _ s s']
    unfolding ins_any_def ins_ext_def by blast
qed

text \<open>The threads whose node is linked at the base level, with their nodes.\<close>

definition published :: "ins_state \<Rightarrow> nat set" where
  "published s = {t. \<exists>p h n. owned (k_pc s t) = Some (p, h, n) \<and> 0 < n}"

definition node_of :: "ins_state \<Rightarrow> nat \<Rightarrow> ptr" where
  "node_of s t = (case owned (k_pc s t) of None \<Rightarrow> Null | Some x \<Rightarrow> fst x)"

lemma published_nodes:
  assumes inv: "ins_inv cmp valid h0 K s LL"
  shows "node_of s ` published s = set (LL 0)" "inj_on (node_of s) (published s)" "finite (published s)"
proof -
  have mem: "p \<in> set (LL 0) \<longleftrightarrow> 0 < n" if "owned (k_pc s t) = Some (p, h, n)" for t p h n
    using ins_inv_own [OF inv that] by (simp add: own_ok_def)
  show im: "node_of s ` published s = set (LL 0)"
  proof
    show "node_of s ` published s \<subseteq> set (LL 0)" using mem by (auto simp: published_def node_of_def)
    show "set (LL 0) \<subseteq> node_of s ` published s"
    proof
      fix p assume p: "p \<in> set (LL 0)"
      then obtain t h n where "owned (k_pc s t) = Some (p, h, n)" using ins_inv_base [OF inv p] by (metis prod.collapse)
      then show "p \<in> node_of s ` published s" using mem p by (auto simp: published_def node_of_def image_iff intro!: exI [of _ t])
    qed
  qed
  show inj: "inj_on (node_of s) (published s)"
    using ins_inv_uniq [OF inv] by (auto simp: inj_on_def published_def node_of_def)
  show "finite (published s)" using im inj by (metis finite_imageD finite_set)
qed

lemma published_entries:
  assumes inv: "ins_inv cmp valid h0 K s LL" and sv: "stored_vals V s"
  shows "mset (entries (k_nodes s) (LL 0)) = image_mset (\<lambda>t. (K t, V t)) (mset_set (published s))"
proof -
  let ?e = "\<lambda>p. (node_key (k_nodes s) p, node_val (k_nodes s) p)"
  have "distinct (LL 0)" using levels_okD(4) [OF ins_inv_levels [OF inv], of 0] by simp
  then have "mset (entries (k_nodes s) (LL 0)) = image_mset ?e (mset_set (node_of s ` published s))"
    using published_nodes(1) [OF inv] by (simp add: entries_def mset_set_set)
  also have "\<dots> = image_mset (?e \<circ> node_of s) (mset_set (published s))"
    by (simp add: image_mset_mset_set [OF published_nodes(2) [OF inv], symmetric] multiset.map_comp)
  also have "\<dots> = image_mset (\<lambda>t. (K t, V t)) (mset_set (published s))"
  proof (rule image_mset_cong)
    fix t assume "t \<in># mset_set (published s)"
    then have "t \<in> published s" using published_nodes(3) [OF inv] by simp
    then obtain x where x: "owned (k_pc s t) = Some x" by (auto simp: published_def)
    then show "(?e \<circ> node_of s) t = (K t, V t)"
      using ins_inv_own [OF inv x] sv by (auto simp: node_of_def own_ok_def stored_vals_def)
  qed
  finally show ?thesis .
qed

text \<open>
  C9: Lock-free insertion keeps the list intact. Under every interleaving of threads that run \<^verbatim>\<open>insert\<close> or
  \<^verbatim>\<open>insert_with\<close> on one list, each level is at all times a sorted chain from the head without repetitions, every
  level is contained in the one below, the base level holds exactly the entries of the threads that have swung
  their predecessor, each once, duplicates of keys included, and a thread that has returned is linked at every
  level of its tower.
\<close>

theorem skiplist_concurrent_linked:
  assumes "(ins_any (dyn_compare dbg c) h0 K V)\<^sup>*\<^sup>* (ins_init h0 D) s" "h0 \<noteq> Null" "\<forall>t. key_valid c (K t)"
  shows "\<exists>LL. (\<forall>l < MAX_HEAD_HEIGHT. linked (k_nodes s) h0 l (LL l) \<and> distinct (h0 # LL l) \<and>
        sorted_nodes (dyn_compare dbg c) (k_nodes s) (LL l) \<and> set (LL (Suc l)) \<subseteq> set (LL l)) \<and>
      finite (published s) \<and>
      mset (entries (k_nodes s) (LL 0)) = image_mset (\<lambda>t. (K t, V t)) (mset_set (published s)) \<and>
      (\<forall>t p h. k_pc s t = IDone p h \<longrightarrow> node_height (k_nodes s) p = h \<and> (\<forall>l < h. p \<in> set (LL l)))"
proof -
  obtain LL where inv: "ins_inv (dyn_compare dbg c) (key_valid c) h0 K s LL" and sv: "stored_vals V s"
    using ins_sys.reachable_inv [OF assms(1)] assms(2,3) by blast
  note lev = ins_inv_levels [OF inv]
  have "node_height (k_nodes s) p = h \<and> (\<forall>l < h. p \<in> set (LL l))" if "k_pc s t = IDone p h" for t p h
    using ins_inv_own [OF inv, of t "(p, h, h)"] that by (simp add: own_ok_def)
  then show ?thesis
    using levels_okD(4-7) [OF lev] published_nodes(3) [OF inv] published_entries [OF inv sv]
    by (intro exI [of _ LL]) blast
qed

text \<open>
  C12: No insertion gets stuck: in every reachable state, as long as memory is left, every thread that has neither
  returned nor panicked has a step to take that is not a panic. In particular no load, store or swap of a running
  insertion leaves the memory of a node, the comparator panics on no key it is given, and the one panic there is,
  that of an allocation in a full arena, need not happen.
\<close>

theorem skiplist_concurrent_progress:
  assumes "(ins_any (dyn_compare dbg c) h0 K V)\<^sup>*\<^sup>* (ins_init h0 D) s" "h0 \<noteq> Null" "\<forall>t. key_valid c (K t)"
    "length (K t) < u16_limit" "length (V t) < u32_limit" "\<exists>p. k_nodes s p = None \<and> p \<noteq> Null" "\<forall>p h. k_pc s t \<noteq> IDone p h"
    "k_pc s t \<noteq> IFull"
  shows "\<exists>s'. ins_step (dyn_compare dbg c) h0 K V t s s' \<and> k_pc s' t \<noteq> IFull"
proof -
  obtain LL where "ins_inv (dyn_compare dbg c) (key_valid c) h0 K s LL"
    using ins_sys.reachable_inv [OF assms(1)] assms(2,3) by blast
  then show ?thesis using dyn_cmp.insertion_enabled assms(3-8) by blast
qed

text \<open>What a search will see stays in sight over the steps of all threads.\<close>

lemma sees_along:
  assumes run: "(ins_any (dyn_compare dbg c) h0 K V)\<^sup>*\<^sup>* s s'" and k: "\<forall>t. key_valid c (K t)"
    and inv: "ins_inv (dyn_compare dbg c) (key_valid c) h0 K s LL"
    and q: "q \<in> set (LL 0)" "node_key (k_nodes s) q = kq" "dyn_compare dbg c kq (K t) \<noteq> Inr Less"
    and se: "sees (dyn_compare dbg c) (k_nodes s) LL q (k_pc s t)"
  shows "\<exists>LL'. ins_inv (dyn_compare dbg c) (key_valid c) h0 K s' LL' \<and> q \<in> set (LL' 0) \<and>
    node_key (k_nodes s') q = kq \<and> sees (dyn_compare dbg c) (k_nodes s') LL' q (k_pc s' t)"
  using run
proof (induction rule: rtranclp_induct)
  case base
  then show ?case using inv q(1,2) se by blast
next
  case (step x y)
  then obtain LL' v where L: "ins_inv (dyn_compare dbg c) (key_valid c) h0 K x LL'" "q \<in> set (LL' 0)"
    "node_key (k_nodes x) q = kq" "sees (dyn_compare dbg c) (k_nodes x) LL' q (k_pc x t)"
    and v: "ins_step (dyn_compare dbg c) h0 K V v x y" by (auto simp: ins_any_def)
  obtain LL2 where L2: "ins_inv (dyn_compare dbg c) (key_valid c) h0 K y LL2"
    "evolves (k_nodes x) (k_max x) LL' (k_nodes y) (k_max y) LL2"
    using dyn_cmp.ins_inv_step [OF v L(1)] k by (auto simp: ins_ext_def)
  have "sees (dyn_compare dbg c) (k_nodes x) LL' q (k_pc y t)"
  proof (cases "v = t")
    case True
    have "\<not> lt (dyn_compare dbg c) (k_nodes x) (K t) q" using q(3) L(3) by (simp add: lt_def)
    then show ?thesis using dyn_cmp.sees_step [OF v L(1) _ L(2), unfolded True] L(4) k True by blast
  next
    case False
    have "k_pc y t = k_pc x t" using v False by cases auto
    then show ?thesis using L(4) by simp
  qed
  then have "sees (dyn_compare dbg c) (k_nodes y) LL2 q (k_pc y t)" using dyn_cmp.sees_frame L2(2) L(2) by blast
  moreover have "q \<in> set (LL2 0)" "node_key (k_nodes y) q = kq" using L2(2) L(2,3) by (auto simp: evolves_def)
  ultimately show ?case using L2(1) by blast
qed

lemma search_sees:
  assumes "(ins_any (dyn_compare dbg c) h0 K V)\<^sup>*\<^sup>* (ins_init h0 D) s" "h0 \<noteq> Null" "\<forall>t. key_valid c (K t)"
    "k_pc s t = ISearch g" "u \<in> published s" "dyn_compare dbg c (K u) (K t) \<noteq> Inr Less"
    "(ins_any (dyn_compare dbg c) h0 K V)\<^sup>*\<^sup>* s s'" "k_pc s' t = IFound g' x"
  shows "successors x ! 0 \<noteq> Null \<and> dyn_compare dbg c (node_key (k_nodes s') (successors x ! 0)) (K t) \<noteq> Inr Less \<and>
    dyn_compare dbg c (K u) (node_key (k_nodes s') (successors x ! 0)) \<noteq> Inr Less"
proof -
  obtain LL where inv: "ins_inv (dyn_compare dbg c) (key_valid c) h0 K s LL"
    using ins_sys.reachable_inv [OF assms(1)] assms(2,3) by blast
  obtain q h n where q: "owned (k_pc s u) = Some (q, h, n)" "0 < n" using assms(5) by (auto simp: published_def)
  have "q \<in> set (LL 0)" "node_key (k_nodes s) q = K u" using ins_inv_own [OF inv q(1)] q(2) by (auto simp: own_ok_def)
  then obtain LL' where L: "ins_inv (dyn_compare dbg c) (key_valid c) h0 K s' LL'" "node_key (k_nodes s') q = K u"
    "sees (dyn_compare dbg c) (k_nodes s') LL' q (k_pc s' t)"
    using sees_along [OF assms(7,3) inv _ _ assms(6)] assms(4) by auto
  have "succ_ok (dyn_compare dbg c) (k_nodes s') LL' (K t) 0 (successors x ! 0)"
    using ins_inv_at [OF L(1), of t] assms(8) by (simp add: ctx_ok_def MAX_HEAD_HEIGHT_def)
  then show ?thesis using L(2,3) assms(8) by (auto simp: upto_def succ_ok_def lt_def)
qed

text \<open>Where a search ends: at the end of the list or at the node of a thread that is linked.\<close>

lemma search_result:
  assumes "(ins_any (dyn_compare dbg c) h0 K V)\<^sup>*\<^sup>* (ins_init h0 D) s" "h0 \<noteq> Null" "\<forall>t. key_valid c (K t)"
    "k_pc s t = IFound g x" "successors x ! 0 \<noteq> Null"
  shows "\<exists>w \<in> published s. \<exists>n. k_nodes s (successors x ! 0) = Some n \<and> get_key_bytes n = K w \<and>
    get_value_bytes n = V w \<and> dyn_compare dbg c (K w) (K t) \<noteq> Inr Less"
proof -
  obtain LL where inv: "ins_inv (dyn_compare dbg c) (key_valid c) h0 K s LL" and sv: "stored_vals V s"
    using ins_sys.reachable_inv [OF assms(1)] assms(2,3) by blast
  have "succ_ok (dyn_compare dbg c) (k_nodes s) LL (K t) 0 (successors x ! 0)"
    using ins_inv_at [OF inv, of t] assms(4) by (simp add: ctx_ok_def MAX_HEAD_HEIGHT_def)
  then have q: "successors x ! 0 \<in> set (LL 0)" "\<not> lt (dyn_compare dbg c) (k_nodes s) (K t) (successors x ! 0)"
    using assms(5) by (auto simp: succ_ok_def)
  then obtain w where w: "w \<in> published s" "node_of s w = successors x ! 0"
    using published_nodes(1) [OF inv] by (metis imageE)
  then obtain h m where o': "owned (k_pc s w) = Some (successors x ! 0, h, m)" by (auto simp: published_def node_of_def)
  then have "node_key (k_nodes s) (successors x ! 0) = K w" using ins_inv_own [OF inv o'] by (simp add: own_ok_def)
  moreover have "k_nodes s (successors x ! 0) \<noteq> None" "node_val (k_nodes s) (successors x ! 0) = V w"
    using sv o' unfolding stored_vals_def by fastforce+
  ultimately show ?thesis using w(1) q(2) by (intro bexI [of _ w]) (auto simp: node_key_def node_val_def lt_def)
qed

text \<open>
  Completed insertions are visible. If thread \<open>u\<close> has linked its node at the base level when thread \<open>t\<close>
  starts a search, and the key of \<open>u\<close> is not below the key of \<open>t\<close>, then however the other threads interleave,
  the search ends at a node whose key is not below its own and not above that of \<open>u\<close>.
\<close>

theorem skiplist_concurrent_visible:
  assumes "(ins_any (dyn_compare dbg c) h0 K V)\<^sup>*\<^sup>* (ins_init h0 D) s" "h0 \<noteq> Null" "\<forall>t. key_valid c (K t)"
    "k_pc s t = ISearch g" "u \<in> published s" "dyn_compare dbg c (K u) (K t) \<noteq> Inr Less"
    "(ins_any (dyn_compare dbg c) h0 K V)\<^sup>*\<^sup>* s s'" "k_pc s' t = IFound g' x"
  shows "successors x ! 0 \<noteq> Null \<and> dyn_compare dbg c (node_key (k_nodes s') (successors x ! 0)) (K t) \<noteq> Inr Less \<and>
    dyn_compare dbg c (K u) (node_key (k_nodes s') (successors x ! 0)) \<noteq> Inr Less"
  by (rule search_sees [OF assms])

section \<open>A concrete run\<close>

text \<open>
  Thread 1 inserts its entry into the empty list with \<^verbatim>\<open>insert_with\<close> and returns; then thread 0 searches for a key
  that is not greater. The first number of the level generator is odd, so the node has height 1.
\<close>

abbreviation run_head :: ptr where "run_head \<equiv> Ptr 0 0"
abbreviation run_node :: ptr where "run_node \<equiv> Ptr 0 72"
abbreviation run_seed :: u64 where "run_seed \<equiv> xorshift (seed_generator 1)"

definition read_step :: "compare \<Rightarrow> (nat \<Rightarrow> bytes) \<Rightarrow> (nat \<Rightarrow> bytes) \<Rightarrow> ins_state \<Rightarrow> ins_state \<Rightarrow> bool" where
  "read_step cmp K V s s' \<longleftrightarrow> ins_step cmp run_head K V 0 s s' \<and> (\<forall>g c. k_pc s 0 \<noteq> IFound g c)"

lemma run_height: "level_of p run_seed = 1"
proof -
  have "bit run_seed 0" by code_simp
  then have "trailing_zeros run_seed = 0" by (simp add: trailing_zeros_def upt_conv_Cons)
  then show ?thesis by (simp add: level_of_def reduce_height_eq MAX_HEAD_HEIGHT_def)
qed

abbreviation run_state :: "nodes \<Rightarrow> u64 \<Rightarrow> nat \<Rightarrow> ins_pc \<Rightarrow> ins_pc \<Rightarrow> ins_state" where
  "run_state st w n a b \<equiv> \<lparr>k_nodes = st, k_max = Suc 0, k_seed = w, k_entries = n,
     k_pc = (\<lambda>_. ISearch GInit)(Suc 0 := a, 0 := b)\<rparr>"

definition run_nodes0 :: nodes where "run_nodes0 = [run_head \<mapsto> init_node MAX_HEAD_HEIGHT 0 0]"
definition run_nodes1 :: "bytes \<Rightarrow> bytes \<Rightarrow> nodes" where "run_nodes1 k v = run_nodes0(run_node \<mapsto> filled 1 k v)"
definition run_nodes2 :: "bytes \<Rightarrow> bytes \<Rightarrow> nodes" where
  "run_nodes2 k v = (run_nodes1 k v)(run_head \<mapsto> (init_node MAX_HEAD_HEIGHT 0 0)
     \<lparr>tower := (replicate MAX_HEAD_HEIGHT Null)[0 := run_node]\<rparr>)"

lemma run_loads:
  "load_next (run_nodes1 k v) run_head 0 = Inr Null" "load_next (run_nodes2 k v) run_head 0 = Inr run_node"
  "cas_next (run_nodes1 k v) run_head 0 Null run_node = Inr (True, run_nodes2 k v)"
  "length k < u16_limit \<Longrightarrow> \<exists>n. run_nodes2 k v run_node = Some n \<and> get_key_bytes n = k"
  by (simp_all add: run_nodes0_def run_nodes1_def run_nodes2_def load_next_def cas_next_def store_next_def
      init_node_def filled_def get_key_bytes_def MAX_HEAD_HEIGHT_def)

lemma run_goto [simp]:
  "ins_goto (run_state st w n a b) (Suc 0) a' = run_state st w n a' b"
  "ins_goto (run_state st w n a b) 0 b' = run_state st w n a b'"
  by (auto simp: ins_goto_def fun_eq_iff)

text \<open>One step of the run, written with its rule.\<close>

lemma run_step: "ins_step cmp run_head K V t s s0 \<Longrightarrow> s0 = s' \<Longrightarrow> ins_step cmp run_head K V t s s'"
  by blast

lemma run_read:
  "ins_step cmp run_head K V 0 s s0 \<Longrightarrow> s0 = s' \<Longrightarrow> \<forall>g c. k_pc s 0 \<noteq> IFound g c \<Longrightarrow> read_step cmp K V s s'"
  by (simp add: read_step_def)

lemma run_ctx [simp]:
  "predecessors (search_ctx run_head) ! 0 = run_head" "successors (search_ctx run_head) ! 0 = Null"
  "searched_node (search_ctx run_head) = None"
  by (simp_all add: search_ctx_def traversal_new_def MAX_HEAD_HEIGHT_def)

lemma run_insert:
  assumes "length (K 1) < u16_limit" "length (V 1) < u32_limit"
  shows "(ins_step cmp run_head K V 1)\<^sup>*\<^sup>* (ins_init run_head (\<lambda>t. t = 1))
     (run_state (run_nodes2 (K 1) (V 1)) run_seed 1 (IDone run_node 1) (ISearch GInit))"
proof -
  let ?n1 = "run_nodes1 (K 1) (V 1)" and ?n2 = "run_nodes2 (K 1) (V 1)" and ?r = "ins_step cmp run_head K V 1"
  let ?g = "GRetry run_node 1 0" and ?c = "search_ctx run_head" and ?s = "\<lambda>st w n a. run_state st w n a (ISearch GInit)"
  have i: "ins_init run_head (\<lambda>t. t = 1) = ?s run_nodes0 (seed_generator 1) 0 (IEntries None)"
    by (auto simp: ins_init_def run_nodes0_def fun_eq_iff)
  have r1: "?r (?s run_nodes0 (seed_generator 1) 0 (IEntries None)) (?s run_nodes0 (seed_generator 1) 1 (ISeed None))"
    by (rule run_step, rule ins_step.count_entry [where t = 1], (simp)+)
  have r2: "?r (?s run_nodes0 (seed_generator 1) 1 (ISeed None)) (?s run_nodes0 (seed_generator 1) 1 (ISeedStore None run_seed))"
    by (rule run_step, rule ins_step.load_seed [where t = 1], (simp)+)
  have r3: "?r (?s run_nodes0 (seed_generator 1) 1 (ISeedStore None run_seed)) (?s run_nodes0 run_seed 1 (IMaxLoad None 1))"
    by (rule run_step, rule ins_step.store_seed [where t = 1 and w = run_seed], (simp add: run_height)+)
  have r4: "?r (?s run_nodes0 run_seed 1 (IMaxLoad None 1)) (?s run_nodes0 run_seed 1 (IMaxCas None 1 1))"
    by (rule run_step, rule ins_step.load_bound [where t = 1], (simp)+)
  have r5: "?r (?s run_nodes0 run_seed 1 (IMaxCas None 1 1)) (?s run_nodes0 run_seed 1 (IAlloc None 1))"
    by (rule run_step, rule ins_step.bound_ok [where t = 1], (simp)+)
  have r6: "?r (?s run_nodes0 run_seed 1 (IAlloc None 1)) (?s ?n1 run_seed 1 (ISearch ?g))"
    by (rule run_step, rule ins_step.new_node [where t = 1 and p = run_node], (use assms in \<open>simp add: run_nodes0_def run_nodes1_def\<close>)+)
  have r7: "?r (?s ?n1 run_seed 1 (ISearch ?g)) (?s ?n1 run_seed 1 (ISkip ?g 1))"
    by (rule run_step, rule ins_step.load_max [where t = 1], (simp)+)
  have r8: "?r (?s ?n1 run_seed 1 (ISkip ?g 1)) (?s ?n1 run_seed 1 (ISkip ?g 0))"
    by (rule run_step, rule ins_step.skip_level [where t = 1 and l = 0], (simp add: run_loads)+)
  have r9: "?r (?s ?n1 run_seed 1 (ISkip ?g 0)) (?s ?n1 run_seed 1 (IDescend ?g 0 run_head ?c))"
    by (rule run_step, rule ins_step.skip_all [where t = 1], (simp)+)
  have r10: "?r (?s ?n1 run_seed 1 (IDescend ?g 0 run_head ?c)) (?s ?n1 run_seed 1 (IFound ?g ?c))"
    by (rule run_step, rule ins_step.bottom [where t = 1], (simp)+)
  have r11: "?r (?s ?n1 run_seed 1 (IFound ?g ?c)) (?s ?n1 run_seed 1 (ISlot run_node 1 0 ?c))"
    by (rule run_step, rule ins_step.found_again [where t = 1], (simp)+)
  have r12: "?r (?s ?n1 run_seed 1 (ISlot run_node 1 0 ?c)) (?s ?n1 run_seed 1 (ICas run_node 1 0 ?c))"
    by (rule run_step, rule ins_step.keep_slot [where t = 1], (simp)+)
  have r13: "?r (?s ?n1 run_seed 1 (ICas run_node 1 0 ?c)) (?s ?n2 run_seed 1 (IDone run_node 1))"
    by (rule run_step, rule ins_step.swap_ok [where t = 1], (simp add: run_loads)+)
  show ?thesis unfolding i using r1 r2 r3 r4 r5 r6 r7 r8 r9 r10 r11 r12 r13
    by (meson converse_rtranclp_into_rtranclp rtranclp.rtrancl_refl)
qed

lemma run_search:
  assumes "length (K 1) < u16_limit" "cmp (K 1) (K 0) = Inr r" "r \<noteq> Less"
  shows "(read_step cmp K V)\<^sup>*\<^sup>* (run_state (run_nodes2 (K 1) (V 1)) run_seed 1 (IDone run_node 1) (ISearch GInit))
     (run_state (run_nodes2 (K 1) (V 1)) run_seed 1 (IDone run_node 1)
       (IFound GInit (record_level (search_ctx run_head) 0 run_head run_node)))"
proof -
  let ?c = "search_ctx run_head" and ?s = "run_state (run_nodes2 (K 1) (V 1)) run_seed 1 (IDone run_node 1)"
    and ?r = "read_step cmp K V"
  let ?d = "record_level ?c 0 run_head run_node"
  obtain n where n: "run_nodes2 (K 1) (V 1) run_node = Some n" "get_key_bytes n = K 1" using run_loads(4) [OF assms(1)] by blast
  have r1: "?r (?s (ISearch GInit)) (?s (ISkip GInit 1))"
    by (rule run_read, rule ins_step.load_max [where t = 0], simp+)
  have r2: "?r (?s (ISkip GInit 1)) (?s (IDescend GInit 1 run_head ?c))"
    by (rule run_read, rule ins_step.skip_end [where t = 0 and l = 0 and q = run_node], (simp add: run_loads)+)
  have r3: "?r (?s (IDescend GInit 1 run_head ?c)) (?s (IWalk GInit 0 run_head run_node ?c))"
    by (rule run_read, rule ins_step.descend [where t = 0 and l = 0 and cur = run_node], (simp add: run_loads)+)
  have r4: "?r (?s (IWalk GInit 0 run_head run_node ?c)) (?s (IDescend GInit 0 run_head ?d))"
    by (rule run_read, rule ins_step.walk_stop [where t = 0 and n = n and r = r]) (use n assms in simp_all)
  have r5: "?r (?s (IDescend GInit 0 run_head ?d)) (?s (IFound GInit ?d))"
    by (rule run_read, rule ins_step.bottom [where t = 0], simp+)
  show ?thesis using r1 r2 r3 r4 r5 by (meson converse_rtranclp_into_rtranclp rtranclp.rtrancl_refl)
qed

lemma ins_step_any: "(ins_step cmp h0 K V t)\<^sup>*\<^sup>* s s' \<Longrightarrow> (ins_any cmp h0 K V)\<^sup>*\<^sup>* s s'"
  by (induction rule: rtranclp_induct) (auto simp: ins_any_def intro: rtranclp.rtrancl_into_rtrancl)

lemma read_step_any: "(read_step cmp K V)\<^sup>*\<^sup>* s s' \<Longrightarrow> (ins_any cmp run_head K V)\<^sup>*\<^sup>* s s'"
  by (induction rule: rtranclp_induct) (auto simp: ins_any_def read_step_def intro: rtranclp.rtrancl_into_rtrancl)

text \<open>The run with the keys 2 and 1 in byte order.\<close>

abbreviation run_key :: "nat \<Rightarrow> bytes" where "run_key \<equiv> \<lambda>t. [of_nat (Suc t)]"
abbreviation run_val :: "nat \<Rightarrow> bytes" where "run_val \<equiv> \<lambda>t. [7]"
abbreviation run_list :: nodes where "run_list \<equiv> run_nodes2 (run_key 1) (run_val 1)"
abbreviation run_any :: "ins_state \<Rightarrow> ins_state \<Rightarrow> bool" where
  "run_any \<equiv> ins_any (dyn_compare True DefaultComparator) run_head run_key run_val"

lemma key_run_insert: "run_any\<^sup>*\<^sup>* (ins_init run_head (\<lambda>t. t = 1))
    (run_state run_list run_seed 1 (IDone run_node 1) (ISearch GInit))"
  by (rule ins_step_any, rule run_insert) simp_all

lemma key_run_search: "run_any\<^sup>*\<^sup>* (run_state run_list run_seed 1 (IDone run_node 1) (ISearch GInit))
    (run_state run_list run_seed 1 (IDone run_node 1) (IFound GInit (record_level (search_ctx run_head) 0 run_head run_node)))"
  by (rule read_step_any, rule run_search [where r = Greater]) (simp_all add: default_compare_def)

lemma run_published: "owned b = None \<Longrightarrow> published (run_state st w n (IDone run_node 1) b) = {1}"
  by (auto simp: published_def split: if_splits)

theorem skiplist_concurrent_linked_witness:
  "\<exists>LL :: levels. linked run_list run_head 0 (LL 0) \<and> mset (entries run_list (LL 0)) = {#(run_key 1, run_val 1)#} \<and> run_node \<in> set (LL 0)"
proof -
  let ?s = "run_state run_list run_seed 1 (IDone run_node 1) (ISearch GInit)"
  have pc: "k_pc ?s 1 = IDone run_node 1" and st: "k_nodes ?s = run_list" by simp_all
  have k: "\<forall>t. key_valid DefaultComparator (run_key t)" and h: "run_head \<noteq> Null" by simp_all
  obtain LL where a: "\<forall>l < MAX_HEAD_HEIGHT. linked (k_nodes ?s) run_head l (LL l) \<and> distinct (run_head # LL l) \<and>
      sorted_nodes (dyn_compare True DefaultComparator) (k_nodes ?s) (LL l) \<and> set (LL (Suc l)) \<subseteq> set (LL l)"
    and b: "mset (entries (k_nodes ?s) (LL 0)) = image_mset (\<lambda>t. (run_key t, run_val t)) (mset_set (published ?s))"
    and c: "\<forall>t p h. k_pc ?s t = IDone p h \<longrightarrow> node_height (k_nodes ?s) p = h \<and> (\<forall>l < h. p \<in> set (LL l))"
    using skiplist_concurrent_linked [OF key_run_insert h k] by (elim exE conjE)
  note L = a [unfolded st] b [unfolded st] c [rule_format, OF pc, THEN conjunct2]
  have "published ?s = {1}" using run_published by simp
  with L(2) have "mset (entries run_list (LL 0)) = {#(run_key 1, run_val 1)#}" by simp
  moreover have "run_node \<in> set (LL 0)" using L(3) by simp
  moreover have "linked run_list run_head 0 (LL 0)" using L(1) by (simp add: MAX_HEAD_HEIGHT_def)
  ultimately show ?thesis by blast
qed

theorem skiplist_concurrent_progress_witness:
  "\<exists>s'. ins_step (dyn_compare True DefaultComparator) run_head run_key run_val 0
     (run_state run_list run_seed 1 (IDone run_node 1) (ISearch GInit)) s' \<and> k_pc s' 0 \<noteq> IFull"
proof -
  have "run_list (Ptr 1 0) = None" by (simp add: run_nodes0_def run_nodes1_def run_nodes2_def)
  then show ?thesis
    using skiplist_concurrent_progress [OF key_run_insert, of 0] by auto
qed

theorem skiplist_concurrent_visible_witness:
  "successors (record_level (search_ctx run_head) 0 run_head run_node) ! 0 \<noteq> Null \<and>
   dyn_compare True DefaultComparator (node_key run_list run_node) (run_key 0) \<noteq> Inr Less"
proof -
  let ?s = "run_state run_list run_seed 1 (IDone run_node 1)"
  let ?d = "record_level (search_ctx run_head) 0 run_head run_node"
  have c: "successors ?d ! 0 = run_node"
    by (simp add: record_level_def search_ctx_def traversal_new_def MAX_HEAD_HEIGHT_def)
  have "1 \<in> published (?s (ISearch GInit))" using run_published by simp
  moreover have "dyn_compare True DefaultComparator (run_key 1) (run_key 0) \<noteq> Inr Less"
    by (simp add: default_compare_def)
  ultimately show ?thesis
    using skiplist_concurrent_visible [OF key_run_insert _ _ _ _ _ key_run_search, of 0 GInit 1 GInit ?d] c by simp
qed

end
