(* ===== verification/Memtable_Concurrent.thy ===== *)
theory Memtable_Concurrent
  imports Memtable_Versions Skip_List_Concurrent
begin

text \<open>
  Readers and writers on one memtable. A writer runs \<^verbatim>\<open>insert_direct\<close>, that is \<^verbatim>\<open>insert_with\<close> on the encoded key of
  its version; a reader runs \<^verbatim>\<open>get\<close>: the search of the skip list and then, on the node found, the decoding of
  the entry. Their atomic steps interleave as in \<open>Skip_List_Concurrent\<close>. The keys and values of nodes never change
  once they are linked, so what follows the search of a reader is one function of the node store.
\<close>

section \<open>Steps\<close>

abbreviation version_key :: "version \<Rightarrow> bytes" where
  "version_key v \<equiv> fst (enc v)"

text \<open>\<open>W t\<close> is the version thread \<open>t\<close> writes or the one it looks up, \<open>R\<close> the set of readers.\<close>

inductive mem_step :: "bool \<Rightarrow> ptr \<Rightarrow> (nat \<Rightarrow> version) \<Rightarrow> nat set \<Rightarrow> ins_state \<Rightarrow> ins_state \<Rightarrow> bool"
  for dbg h0 W R s s' where
  writer: "t \<notin> R \<Longrightarrow>
    ins_step (dyn_compare dbg InternalKeyComparator) h0 (version_key \<circ> W) (v_val \<circ> W) t s s' \<Longrightarrow> mem_step dbg h0 W R s s'"
| reader: "t \<in> R \<Longrightarrow> \<forall>g c. k_pc s t \<noteq> IFound g c \<Longrightarrow>
    ins_step (dyn_compare dbg InternalKeyComparator) h0 (version_key \<circ> W) (v_val \<circ> W) t s s' \<Longrightarrow> mem_step dbg h0 W R s s'"

definition mem_init :: "ptr \<Rightarrow> nat set \<Rightarrow> ins_state" where
  "mem_init h0 R = ins_init h0 (\<lambda>t. t \<notin> R)"

text \<open>\<^verbatim>\<open>first_ge\<close> and \<^verbatim>\<open>get\<close> after the search.\<close>

definition get_found :: "bool \<Rightarrow> nodes \<Rightarrow> bytes \<Rightarrow> traversal_ctx \<Rightarrow> mem_return res" where
  "get_found dbg st key x = (let node = successors x ! 0 in
     if node \<noteq> Null then
       (case st node of
          None \<Rightarrow> Inl InvalidAccess
        | Some n \<Rightarrow> get_entry dbg key (get_key_bytes n) (get_value_bytes n))
     else Inr NotFound)"

text \<open>Run by one thread, the search followed by \<open>get_found\<close> is \<^verbatim>\<open>get\<close>.\<close>

lemma mt_get_found:
  "mt_get dbg m key = cbind (search (mt_compare dbg m) (mt_skiplist m) (mt_nodes m) key) (\<lambda>x.
     Some (get_found dbg (mt_nodes m) key x))"
  by (auto simp: mt_get_def first_ge_def get_found_def Let_def comp_defs split: option.splits sum.splits)

section \<open>Readers only read\<close>

fun reading :: "ins_pc \<Rightarrow> bool" where
  "reading (ISearch g) = (g = GInit)"
| "reading (ISkip g l) = (g = GInit)"
| "reading (IDescend g l pred c) = (g = GInit)"
| "reading (IWalk g l pred cur c) = (g = GInit)"
| "reading (IFound g c) = (g = GInit)"
| "reading _ = False"

inductive_cases mem_stepE: "mem_step dbg h0 W R s s'"

lemma reading_unowned: "reading pc \<Longrightarrow> owned pc = None"
  by (cases pc) auto

lemma mem_step_any:
  "mem_step dbg h0 W R s s' \<Longrightarrow>
    ins_any (dyn_compare dbg InternalKeyComparator) h0 (version_key \<circ> W) (v_val \<circ> W) s s'"
  by (auto simp: ins_any_def elim: mem_stepE)

lemma mem_steps_any:
  "(mem_step dbg h0 W R)\<^sup>*\<^sup>* s s' \<Longrightarrow>
    (ins_any (dyn_compare dbg InternalKeyComparator) h0 (version_key \<circ> W) (v_val \<circ> W))\<^sup>*\<^sup>* s s'"
proof (induction rule: rtranclp_induct)
  case (step y z)
  then show ?case using mem_step_any by (metis rtranclp.rtrancl_into_rtrancl)
qed simp

lemma reading_step:
  assumes "ins_step cmp h0 K V t s s'" "reading (k_pc s u)" "t = u \<longrightarrow> (\<forall>g c. k_pc s t \<noteq> IFound g c)"
  shows "reading (k_pc s' u)"
  using assms by cases (auto split: if_splits)

interpretation rd_sys: invariant_system "mem_step dbg h0 W R" "\<lambda>s. s = mem_init h0 R"
    "\<lambda>s. \<forall>t \<in> R. reading (k_pc s t)" for dbg h0 W R
  by unfold_locales (auto simp: mem_init_def ins_init_def intro: reading_step elim!: mem_stepE)

section \<open>What a reader returns\<close>

definition lookup :: "(nat \<Rightarrow> version) \<Rightarrow> nat \<Rightarrow> nat \<Rightarrow> bool" where
  "lookup W t u \<longleftrightarrow> v_user (W u) = v_user (W t) \<and> not_newer (v_seq (W t)) (v_op (W t)) (W u)"

lemma version_less:
  assumes "\<forall>u. unat (v_seq (W u)) < 2 ^ 56"
  shows "dyn_compare dbg InternalKeyComparator (version_key (W u)) (version_key (W t)) = Inr Less \<longleftrightarrow>
    bytes_cmp (v_user (W u)) (v_user (W t)) = Less \<or> v_user (W u) = v_user (W t) \<and> \<not> not_newer (v_seq (W t)) (v_op (W t)) (W u)"
  using enc_less [of "W u" "v_seq (W t)" dbg "v_user (W t)" "v_op (W t)"] assms by (simp add: enc_def)

lemma published_writer:
  assumes "(mem_step dbg h0 W R)\<^sup>*\<^sup>* (mem_init h0 R) s" "w \<in> published s"
  shows "w \<notin> R"
  using rd_sys.reachable_inv [OF assms(1)] assms(2) reading_unowned by (fastforce simp: published_def)

lemma get_found_entry:
  assumes "version_ok w" "unat (v_seq v) < 2 ^ 56" "st (successors x ! 0) = Some n" "successors x ! 0 \<noteq> Null"
    "get_key_bytes n = version_key w" "get_value_bytes n = v_val w"
  shows "get_found dbg st (version_key v) x = Inr (if v_user w \<noteq> v_user v then NotFound else answer (v_op w) (v_val w))"
  using get_entry_version [OF assms(1,2), of dbg "v_user v" "v_op v"] assms(3-) by (simp add: get_found_def enc_def)

text \<open>
  A version that is not below the lookup, and that no version visible to the lookup is below: either it has the user
  key looked up and is the newest visible one, or nothing is visible.
\<close>

lemma lookup_first:
  assumes "\<forall>u. unat (v_seq (W u)) < 2 ^ 56"
    "dyn_compare dbg InternalKeyComparator (version_key (W w)) (version_key (W t)) \<noteq> Inr Less"
    "\<forall>u \<in> P. lookup W t u \<longrightarrow> dyn_compare dbg InternalKeyComparator (version_key (W u)) (version_key (W w)) \<noteq> Inr Less"
  shows "if v_user (W w) = v_user (W t) then lookup W t w \<and> (\<forall>u \<in> P. lookup W t u \<longrightarrow> not_newer (v_seq (W w)) (v_op (W w)) (W u))
    else \<forall>u \<in> P. \<not> lookup W t u"
proof -
  note less = version_less [OF assms(1), of dbg]
  have w: "bytes_cmp (v_user (W w)) (v_user (W t)) \<noteq> Less"
    "v_user (W w) = v_user (W t) \<Longrightarrow> not_newer (v_seq (W t)) (v_op (W t)) (W w)"
    using assms(2) by (simp_all add: less del: dyn_compare.simps)
  have u: "bytes_cmp (v_user (W t)) (v_user (W w)) \<noteq> Less"
    "v_user (W t) = v_user (W w) \<Longrightarrow> not_newer (v_seq (W w)) (v_op (W w)) (W u)" if "u \<in> P" "lookup W t u" for u
    using assms(3) [rule_format, OF that] that(2) by (simp_all add: less lookup_def del: dyn_compare.simps)
  show ?thesis
  proof (cases "v_user (W w) = v_user (W t)")
    case False
    then have "bytes_cmp (v_user (W t)) (v_user (W w)) = Less" using w(1) by (metis bytes_cmp_Equal bytes_cmp_swap ordering_exhaust3)
    then show ?thesis using False u(1) by auto
  next
    case True
    have "lookup W t w" using w(2) [OF True] True by (simp add: lookup_def)
    moreover have "\<forall>u \<in> P. lookup W t u \<longrightarrow> not_newer (v_seq (W w)) (v_op (W w)) (W u)" using u(2) [OF _ _ True [symmetric]] by blast
    ultimately show ?thesis using True by presburger
  qed
qed

text \<open>
  C2: Reads see completed writes. Let a reader start its search in a state that interleaved readers and writers
  reached. However they go on, the \<^verbatim>\<open>get\<close> returns without a panic. It answers with the version of a writer that has
  linked it, of the user key looked up and not newer than the lookup, and at least as new as every such version
  that was linked when the reader started; it answers \<open>NotFound\<close> only if no such version was linked then.
\<close>

theorem memtable_concurrent_get:
  assumes "(mem_step dbg h0 W R)\<^sup>*\<^sup>* (mem_init h0 R) s" "h0 \<noteq> Null" "\<forall>u. u \<notin> R \<longrightarrow> version_ok (W u)"
    "\<forall>u. unat (v_seq (W u)) < 2 ^ 56" "t \<in> R" "k_pc s t = ISearch GInit"
    "(mem_step dbg h0 W R)\<^sup>*\<^sup>* s s'" "k_pc s' t = IFound GInit x"
  shows "(\<exists>w \<in> published s'. lookup W t w \<and>
        get_found dbg (k_nodes s') (version_key (W t)) x = Inr (answer (v_op (W w)) (v_val (W w))) \<and>
        (\<forall>u \<in> published s. lookup W t u \<longrightarrow> not_newer (v_seq (W w)) (v_op (W w)) (W u))) \<or>
    get_found dbg (k_nodes s') (version_key (W t)) x = Inr NotFound \<and> (\<forall>u \<in> published s. \<not> lookup W t u)"
proof -
  let ?K = "version_key \<circ> W" and ?cmp = "dyn_compare dbg InternalKeyComparator" and ?q = "successors x ! 0"
  have k: "\<forall>u. key_valid InternalKeyComparator (?K u)" by (simp add: enc_def)
  have r: "(ins_any ?cmp h0 ?K (v_val \<circ> W))\<^sup>*\<^sup>* (ins_init h0 (\<lambda>t. t \<notin> R)) s"
    using mem_steps_any [OF assms(1)] by (simp add: mem_init_def)
  have r': "(ins_any ?cmp h0 ?K (v_val \<circ> W))\<^sup>*\<^sup>* s s'" using mem_steps_any [OF assms(7)] .
  note less = version_less [OF assms(4)]
  have sees: "?q \<noteq> Null \<and> ?cmp (?K u) (node_key (k_nodes s') ?q) \<noteq> Inr Less"
    if "u \<in> published s" "lookup W t u" for u
  proof -
    have "?cmp (?K u) (?K t) \<noteq> Inr Less" using that(2) by (simp add: less lookup_def del: dyn_compare.simps)
    then show ?thesis using search_sees [OF r assms(2) k assms(6) that(1) _ r' assms(8)] by blast
  qed
  show ?thesis
  proof (cases "?q = Null")
    case True
    then show ?thesis using sees by (auto simp: get_found_def)
  next
    case False
    obtain w n where w: "w \<in> published s'" "k_nodes s' ?q = Some n" "get_key_bytes n = ?K w" "get_value_bytes n = v_val (W w)"
      "?cmp (?K w) (?K t) \<noteq> Inr Less"
      using search_result [OF rtranclp_trans [OF r r'] assms(2) k assms(8) False] by auto
    have ok: "version_ok (W w)" using published_writer [OF rtranclp_trans [OF assms(1,7)] w(1)] assms(3) by blast
    have g: "get_found dbg (k_nodes s') (version_key (W t)) x =
        Inr (if v_user (W w) \<noteq> v_user (W t) then NotFound else answer (v_op (W w)) (v_val (W w)))"
      using get_found_entry [of "W w" "W t" "k_nodes s'" x n dbg] ok w(2-4) False assms(4) by simp
    have sw: "\<forall>u \<in> published s. lookup W t u \<longrightarrow> ?cmp (version_key (W u)) (version_key (W w)) \<noteq> Inr Less"
      using sees w(2,3) by (simp add: node_key_def del: dyn_compare.simps)
    show ?thesis using lookup_first [OF assms(4) w(5) [unfolded comp_apply] sw] g w(1) by (auto split: if_splits)
  qed
qed

text \<open>Thread 1 writes a version of user key 7 and returns; thread 0 then looks it up at a later sequence number.\<close>

definition run_version :: "nat \<Rightarrow> version" where
  "run_version t = (if t = 1 then \<lparr>v_user = [7], v_seq = 3, v_op = Put, v_val = [42]\<rparr>
     else \<lparr>v_user = [7], v_seq = 5, v_op = Max, v_val = []\<rparr>)"

abbreviation run_table :: nodes where "run_table \<equiv> run_nodes2 (version_key (run_version 1)) [42]"

lemma mem_writes:
  assumes "(ins_step (dyn_compare dbg InternalKeyComparator) h0 (version_key \<circ> W) (v_val \<circ> W) t)\<^sup>*\<^sup>* s s'" "t \<notin> R"
  shows "(mem_step dbg h0 W R)\<^sup>*\<^sup>* s s'"
  using assms(1)
proof (induction rule: rtranclp_induct)
  case (step y z)
  then show ?case using mem_step.writer [OF assms(2)] by (metis rtranclp.rtrancl_into_rtrancl)
qed simp

lemma mem_reads:
  assumes "(read_step (dyn_compare dbg InternalKeyComparator) (version_key \<circ> W) (v_val \<circ> W))\<^sup>*\<^sup>* s s'" "0 \<in> R"
  shows "(mem_step dbg run_head W R)\<^sup>*\<^sup>* s s'"
  using assms(1)
proof (induction rule: rtranclp_induct)
  case (step y z)
  have "mem_step dbg run_head W R y z"
    by (rule mem_step.reader [OF assms(2)]) (use step(2) in \<open>simp_all add: read_step_def\<close>)
  with step(3) show ?case by simp
qed simp

lemma run_sizes:
  "length ((version_key \<circ> run_version) 1) < u16_limit" "length ((v_val \<circ> run_version) 1) < u32_limit"
  "(v_val \<circ> run_version) 1 = [42]"
  by (simp_all add: run_version_def enc_def)

lemma mem_run_write: "(mem_step True run_head run_version (- {1}))\<^sup>*\<^sup>* (mem_init run_head (- {1}))
    (run_state run_table run_seed 1 (IDone run_node 1) (ISearch GInit))"
  using mem_writes [OF run_insert [of "version_key \<circ> run_version" "v_val \<circ> run_version", OF run_sizes(1,2)], of "- {1}"]
    run_sizes(3) by (simp add: mem_init_def)

lemma mem_run_read: "(mem_step True run_head run_version (- {1}))\<^sup>*\<^sup>*
    (run_state run_table run_seed 1 (IDone run_node 1) (ISearch GInit))
    (run_state run_table run_seed 1 (IDone run_node 1) (IFound GInit (record_level (search_ctx run_head) 0 run_head run_node)))"
proof -
  have seq: "\<forall>u. unat (v_seq (run_version u)) < 2 ^ 56" by (simp add: run_version_def)
  have "key_valid InternalKeyComparator (version_key (run_version u))" for u by (simp add: enc_def)
  then obtain r where "dyn_compare True InternalKeyComparator ((version_key \<circ> run_version) 1) ((version_key \<circ> run_version) 0) = Inr r"
    using dyn_cmp.cmp_returns unfolding comp_def by blast
  moreover have "r \<noteq> Less"
    using calculation version_less [OF seq, of True 1 0] by (simp add: run_version_def not_newer_def op_order)
  ultimately have "(read_step (dyn_compare True InternalKeyComparator) (version_key \<circ> run_version) (v_val \<circ> run_version))\<^sup>*\<^sup>*
      (run_state run_table run_seed 1 (IDone run_node 1) (ISearch GInit))
      (run_state run_table run_seed 1 (IDone run_node 1) (IFound GInit (record_level (search_ctx run_head) 0 run_head run_node)))"
    using run_search [of "version_key \<circ> run_version" "dyn_compare True InternalKeyComparator" r "v_val \<circ> run_version"]
      run_sizes unfolding comp_def by metis
  then show ?thesis by (rule mem_reads) simp
qed

theorem memtable_concurrent_get_witness:
  "get_found True run_table (version_key (run_version 0)) (record_level (search_ctx run_head) 0 run_head run_node) = Inr (Value [42])"
proof -
  let ?s = "run_state run_table run_seed 1 (IDone run_node 1)"
  let ?d = "record_level (search_ctx run_head) 0 run_head run_node"
  have p: "published (?s b) = {1}" if "owned b = None" for b using run_published [OF that] by simp
  have "lookup run_version 0 1" by (simp add: lookup_def not_newer_def run_version_def op_order)
  moreover have "\<forall>u. u \<notin> - {1} \<longrightarrow> version_ok (run_version u)" "\<forall>u. unat (v_seq (run_version u)) < 2 ^ 56"
    by (simp_all add: version_ok_def run_version_def)
  moreover have "answer (v_op (run_version 1)) (v_val (run_version 1)) = Value [42]" by (simp add: run_version_def)
  ultimately show ?thesis
    using memtable_concurrent_get [OF mem_run_write _ _ _ _ _ mem_run_read, of 0 ?d] p [of "IFound GInit ?d"] p [of "ISearch GInit"]
    by simp
qed

end
