(* ===== verification/Skip_List_Solo.thy ===== *)
theory Skip_List_Solo
  imports Skip_List_Concurrent "HOL-Library.Product_Lexorder"
begin

text \<open>
  Insertion is obstruction-free: from every state the interleaved threads can reach, each thread finishes in
  finitely many steps of its own, whatever the others were doing when they stopped. The argument is a rank. A
  search context is fresh when the slots it has recorded still hold what was read; a thread that runs alone keeps
  a fresh context fresh, and with a fresh context no swap fails. So at most one swap fails, and between swaps the
  level and the rest of the chain decrease.
\<close>

section \<open>Freshness\<close>

definition exact :: "nodes \<Rightarrow> traversal_ctx \<Rightarrow> nat \<Rightarrow> bool" where
  "exact st c l \<longleftrightarrow> (\<forall>i. l \<le> i \<and> i < MAX_HEAD_HEIGHT \<longrightarrow> nxt st i (predecessors c ! i) = Some (successors c ! i))"

fun fresh :: "ptr \<Rightarrow> nodes \<Rightarrow> ins_pc \<Rightarrow> bool" where
  "fresh h0 st (ISearch g) = True"
| "fresh h0 st (ISkip g l) = (\<forall>i. l \<le> i \<and> i < MAX_HEAD_HEIGHT \<longrightarrow> nxt st i h0 = Some Null)"
| "fresh h0 st (IDescend g l pred c) = exact st c l"
| "fresh h0 st (IWalk g l pred cur c) = (exact st c (Suc l) \<and> nxt st l pred = Some cur)"
| "fresh h0 st (IFound g c) = exact st c 0"
| "fresh h0 st (IEntries o') = pred_option (\<lambda>c. exact st c 0) o'"
| "fresh h0 st (ISeed o') = pred_option (\<lambda>c. exact st c 0) o'"
| "fresh h0 st (ISeedStore o' w) = pred_option (\<lambda>c. exact st c 0) o'"
| "fresh h0 st (IMaxLoad o' h) = pred_option (\<lambda>c. exact st c 0) o'"
| "fresh h0 st (IMaxCas o' h m) = pred_option (\<lambda>c. exact st c 0) o'"
| "fresh h0 st (IAlloc o' h) = pred_option (\<lambda>c. exact st c 0) o'"
| "fresh h0 st IFull = True"
| "fresh h0 st (ISlot p h l c) = exact st c l"
| "fresh h0 st (ICas p h l c) = exact st c l"
| "fresh h0 st (IDone p h) = True"

lemma exact_mono: "exact st c l \<Longrightarrow> l \<le> m \<Longrightarrow> exact st c m"
  by (simp add: exact_def)

lemma exact_search_ctx:
  assumes "\<forall>i. l \<le> i \<and> i < MAX_HEAD_HEIGHT \<longrightarrow> nxt st i h0 = Some Null"
  shows "exact st (search_ctx h0) l"
  using assms by (simp add: exact_def search_ctx_def traversal_new_def)

lemma exact_record_level:
  assumes "exact st c (Suc l)" "nxt st l pred = Some cur" "ctx_ok cmp h0 st LL k c"
  shows "exact st (record_level c l pred cur) l"
  unfolding exact_def
proof (intro allI impI)
  fix i assume i: "l \<le> i \<and> i < MAX_HEAD_HEIGHT"
  show "nxt st i (predecessors (record_level c l pred cur) ! i) = Some (successors (record_level c l pred cur) ! i)"
    using assms i by (cases "i = l") (simp_all add: record_level_def ctx_ok_def exact_def)
qed

text \<open>Above the level bound the head points nowhere.\<close>

lemma head_above_bound:
  assumes "levels_ok cmp valid h0 st mx LL" "mx \<le> i" "i < MAX_HEAD_HEIGHT"
  shows "nxt st i h0 = Some Null"
proof -
  have "LL i = []" using levels_okD(11) [OF assms(1), of _ i] assms(2) by (meson last_in_set leD)
  then show ?thesis using levels_okD(7) [OF assms(1,3)] by (simp add: linked_def)
qed

lemma fresh_swap_succeeds: "exact st c l \<Longrightarrow> l < MAX_HEAD_HEIGHT \<Longrightarrow>
    cas_next st (predecessors c ! l) l (successors c ! l) p \<noteq> Inr (False, st')"
  by (auto simp: exact_def cas_next_def load_next_nxt rbind_eq_Inr_iff)

lemma exact_new_node:
  assumes "exact st c l" "st p = None"
  shows "exact (st(p \<mapsto> n)) c l"
  using assms by (auto simp: exact_def nxt_def split: option.splits)

lemma exact_swap:
  assumes "exact st c l" "cas_next st (predecessors c ! l) l (successors c ! l) p = Inr (True, st')"
  shows "exact st' c (Suc l)"
  using assms(1) cas_next_ok(2) [OF assms(2)] by (simp add: exact_def)

text \<open>The new node is no predecessor at the levels it is not linked at yet.\<close>

lemma exact_store:
  assumes ex: "exact st c l" and ctx: "ctx_ok cmp h0 st LL k c" and own: "own_ok cmp h0 st mx LL k (p, h, l)"
    and l: "l < h" and st: "store_next st p l q = Inr st'"
  shows "exact st' c l"
proof -
  have "l < node_height st p" using own l by (simp add: own_ok_def)
  then have nx: "nxt st' = (nxt st)(l := (nxt st l)(p \<mapsto> q))"
    using store_next_view [of l st p q] st by (metis sum.inject(2))
  have "predecessors c ! i \<noteq> p" if "l \<le> i" "i < MAX_HEAD_HEIGHT" for i
    using ctx own that by (auto simp: ctx_ok_def own_ok_def pred_ok_def)
  then show ?thesis using ex by (auto simp: exact_def nx)
qed

section \<open>Rank\<close>

text \<open>The part of a level from a node on.\<close>

definition ahead :: "nodes \<Rightarrow> ptr \<Rightarrow> nat \<Rightarrow> ptr \<Rightarrow> nat" where
  "ahead st h0 l cur = length (dropWhile (\<lambda>x. x \<noteq> cur) (THE xs. linked st h0 l xs))"

lemma path_unique: "path f p xs Null \<Longrightarrow> path f p ys Null \<Longrightarrow> xs = ys"
proof (induction xs arbitrary: p ys)
  case Nil
  then show ?case by (cases ys) auto
next
  case (Cons x xs)
  then show ?case by (cases ys) auto
qed

lemma linked_unique: "linked st h0 l xs \<Longrightarrow> (THE xs. linked st h0 l xs) = xs"
  unfolding linked_def by (rule the_equality) (auto dest: path_unique)

lemma dropWhile_at: "x \<notin> set xs \<Longrightarrow> dropWhile (\<lambda>y. y \<noteq> x) (xs @ x # ys) = x # ys"
  by (induction xs) auto

lemma ahead_next:
  assumes lev: "levels_ok cmp valid h0 st mx LL" and l: "l < MAX_HEAD_HEIGHT" and cur: "cur \<in> set (LL l)"
    and nx: "nxt st l cur = Some nx"
  shows "ahead st h0 l nx < ahead st h0 l cur"
proof -
  have lk: "(THE xs. linked st h0 l xs) = LL l" using levels_okD(7) [OF lev l] by (rule linked_unique)
  obtain as bs where s: "h0 # LL l = (as @ [cur]) @ bs" "nxt st l cur = Some (hd0 bs)"
    using level_split [OF lev l] cur by blast
  have d: "distinct (h0 # LL l)" using levels_okD(4) [OF lev] .
  then obtain as' where as': "LL l = as' @ cur # bs" using s(1) cur by (cases as) auto
  have nn: "Null \<notin> set (LL l)" using path_no_null levels_okD(7) [OF lev l] by (fastforce simp: linked_def)
  have a: "ahead st h0 l cur = Suc (length bs)" using d as' by (simp add: ahead_def lk dropWhile_at)
  have "ahead st h0 l (hd0 bs) = length bs"
  proof (cases bs)
    case Nil
    then show ?thesis using nn as' by (auto simp: ahead_def lk dropWhile_eq_Nil_conv)
  next
    case (Cons b bs')
    then have "LL l = (as' @ [cur]) @ b # bs'" "b \<notin> set (as' @ [cur])" using d as' by auto
    then have "dropWhile (\<lambda>x. x \<noteq> b) (LL l) = b # bs'" using dropWhile_at by metis
    then show ?thesis using Cons by (simp add: ahead_def lk)
  qed
  with a s(2) nx show ?thesis by simp
qed

fun goal_rank :: "ins_goal \<Rightarrow> nat \<times> nat" where
  "goal_rank GInit = (3, 0)"
| "goal_rank (GRetry p h l) = (1, h - l)"

fun pc_rank :: "ptr \<Rightarrow> nodes \<Rightarrow> nat \<Rightarrow> ins_pc \<Rightarrow> (nat \<times> nat) \<times> nat \<times> nat \<times> nat" where
  "pc_rank h0 st mx (ISearch g) = (goal_rank g, 5, 0, 0)"
| "pc_rank h0 st mx (ISkip g l) = (goal_rank g, 4, l, 0)"
| "pc_rank h0 st mx (IDescend g l pred c) = (goal_rank g, 3, 2 * l, 0)"
| "pc_rank h0 st mx (IWalk g l pred cur c) = (goal_rank g, 3, 2 * l + 1, ahead st h0 l cur)"
| "pc_rank h0 st mx (IFound g c) = (goal_rank g, 2, 0, 0)"
| "pc_rank h0 st mx (IEntries o') = ((2, 0), 6, 0, 0)"
| "pc_rank h0 st mx (ISeed o') = ((2, 0), 5, 0, 0)"
| "pc_rank h0 st mx (ISeedStore o' w) = ((2, 0), 4, 0, 0)"
| "pc_rank h0 st mx (IMaxLoad o' h) = ((2, 0), 3, 0, 0)"
| "pc_rank h0 st mx (IMaxCas o' h m) = ((2, 0), 2, (if m = mx then 0 else 1), 0)"
| "pc_rank h0 st mx (IAlloc o' h) = ((2, 0), 1, 0, 0)"
| "pc_rank h0 st mx IFull = ((0, 0), 0, 0, 0)"
| "pc_rank h0 st mx (ISlot p h l c) = ((1, h - l), 1, 0, 0)"
| "pc_rank h0 st mx (ICas p h l c) = ((1, h - l), 0, 0, 0)"
| "pc_rank h0 st mx (IDone p h) = ((0, 0), 0, 0, 0)"

definition ins_rank :: "ptr \<Rightarrow> nat \<Rightarrow> ins_state \<Rightarrow> nat \<times> (nat \<times> nat) \<times> nat \<times> nat \<times> nat" where
  "ins_rank h0 t s = (if fresh h0 (k_nodes s) (k_pc s t) then 0 else 1, pc_rank h0 (k_nodes s) (k_max s) (k_pc s t))"

lemma ins_rank_less:
  assumes "fresh h0 (k_nodes s) (k_pc s t) \<longrightarrow> fresh h0 (k_nodes s') (k_pc s' t)"
    "pc_rank h0 (k_nodes s') (k_max s') (k_pc s' t) < pc_rank h0 (k_nodes s) (k_max s) (k_pc s t)"
  shows "ins_rank h0 t s' < ins_rank h0 t s"
  using assms by (auto simp: ins_rank_def)

text \<open>A step of one thread that changes the state; what is left out is a spurious failure of the weak swap.\<close>

definition solo_step ::
    "compare \<Rightarrow> ptr \<Rightarrow> (nat \<Rightarrow> bytes) \<Rightarrow> (nat \<Rightarrow> bytes) \<Rightarrow> nat \<Rightarrow> ins_state \<Rightarrow> ins_state \<Rightarrow> bool" where
  "solo_step cmp h0 K V t s s' \<longleftrightarrow> ins_step cmp h0 K V t s s' \<and> s' \<noteq> s"

lemma ins_goto_same: "k_pc s t = pc \<Longrightarrow> ins_goto s t pc = s"
  by (cases s) (auto simp: ins_goto_def)

text \<open>Pointers never run out.\<close>

lemma free_pointer:
  assumes "finite (dom (st :: nodes))"
  shows "\<exists>p. st p = None \<and> p \<noteq> Null"
proof -
  have "inj (Ptr 0)" by (simp add: inj_def)
  then have "infinite (range (Ptr 0))" by (simp add: finite_image_iff)
  then obtain p where "p \<in> range (Ptr 0)" "p \<notin> dom st" using assms by (meson finite_subset subsetI)
  then show ?thesis by auto
qed

context key_comparator
begin

lemma fresh_step:
  assumes step: "ins_step cmp h0 K V t s s'" and inv: "ins_inv cmp valid h0 K s LL"
    and fr: "fresh h0 (k_nodes s) (k_pc s t)"
  shows "fresh h0 (k_nodes s') (k_pc s' t)"
  using step
proof cases
  case (load_max g)
  then show ?thesis using head_above_bound [OF ins_inv_levels [OF inv]] by simp
next
  case (skip_level g l)
  then show ?thesis using fr by (auto simp: load_next_nxt split: option.splits dest: le_neq_implies_less)
next
  case (skip_end g l q)
  then show ?thesis using fr exact_search_ctx by simp
next
  case (skip_all g)
  then show ?thesis using fr exact_search_ctx by simp
next
  case (descend g l pred c cur)
  then show ?thesis using fr by (simp add: load_next_nxt split: option.splits)
next
  case (walk_right g l pred cur c n nx)
  then show ?thesis using fr by (simp add: load_next_nxt split: option.splits)
next
  case (walk_stop g l pred cur c n r)
  then show ?thesis using fr ins_inv_at [OF inv, of t] by (auto intro: exact_record_level)
next
  case (walk_end g l pred c)
  then show ?thesis using fr ins_inv_at [OF inv, of t] by (auto intro: exact_record_level)
next
  case (found_again p h l c)
  then show ?thesis using fr by (auto intro: exact_mono)
next
  case (new_node o' h p)
  then show ?thesis using fr exact_new_node by (cases o') auto
next
  case (store_slot p h l c st)
  have own: "own_ok cmp h0 (k_nodes s) (k_max s) LL (K t) (p, h, l)" using ins_inv_own [OF inv, of t] store_slot(2) by simp
  have "exact st c l" using fr store_slot(2) ins_inv_at [OF inv, of t] by (intro exact_store [OF _ _ own _ store_slot(4)]) simp_all
  then show ?thesis using store_slot(1) by simp
next
  case (swap_ok p h l c st)
  then show ?thesis using fr exact_swap by simp
qed (use fr in simp_all)

lemma step_rank:
  assumes step: "ins_step cmp h0 K V t s s'" and inv: "ins_inv cmp valid h0 K s LL"
  shows "ins_rank h0 t s' < ins_rank h0 t s \<or> s' = s \<and> (\<exists>o' h. k_pc s t = IMaxCas o' h (k_max s) \<and> k_max s < h)"
proof -
  note lev = ins_inv_levels [OF inv]
  have fr: "fresh h0 (k_nodes s) (k_pc s t) \<longrightarrow> fresh h0 (k_nodes s') (k_pc s' t)" using fresh_step [OF step inv] by blast
  have le: ?thesis if "pc_rank h0 (k_nodes s') (k_max s') (k_pc s' t) < pc_rank h0 (k_nodes s) (k_max s) (k_pc s t)"
    using ins_rank_less [OF fr that] by blast
  show ?thesis using step
  proof cases
    case (walk_right g l pred cur c n nx)
    then have "l < MAX_HEAD_HEIGHT" "cur \<in> set (LL l)" "nxt (k_nodes s) l cur = Some nx"
      using ins_inv_at [OF inv, of t] by (auto simp: load_next_nxt split: option.splits)
    then show ?thesis using ahead_next [OF lev] walk_right by (intro le) simp
  next
    case (bound_fail o' h m)
    then show ?thesis
    proof (cases "m = k_max s")
      case False
      then show ?thesis using bound_fail by (intro le) simp
    qed (simp add: ins_goto_same)
  next
    case (new_node o' h p)
    then show ?thesis by (intro le) (simp split: option.splits)
  next
    case (swap_ok p h l c st)
    then have "l < h" using ins_inv_at [OF inv, of t] by simp
    then show ?thesis using swap_ok by (intro le) (simp add: diff_less_mono2)
  next
    case (swap_fail p h l c st)
    then have "l < h" "h \<le> k_max s" using ins_inv_at [OF inv, of t] ins_inv_own [OF inv, of t] by (auto simp: own_ok_def)
    then have "\<not> exact (k_nodes s) c l" using swap_fail(3) fresh_swap_succeeds levels_okD(3) [OF lev] by fastforce
    then show ?thesis using swap_fail by (simp add: ins_rank_def)
  qed (rule le; simp)+
qed

lemma solo_rank:
  "solo_step cmp h0 K V t s s' \<Longrightarrow> ins_inv cmp valid h0 K s LL \<Longrightarrow> ins_rank h0 t s' < ins_rank h0 t s"
  using step_rank unfolding solo_step_def by blast

lemma solo_enabled:
  assumes inv: "ins_inv cmp valid h0 K s LL" and k: "valid (K t)"
    and small: "length (K t) < u16_limit" "length (V t) < u32_limit" and fin: "finite (dom (k_nodes s))"
    and nd: "\<forall>p h. k_pc s t \<noteq> IDone p h" "k_pc s t \<noteq> IFull"
  shows "\<exists>s'. solo_step cmp h0 K V t s s' \<and> k_pc s' t \<noteq> IFull"
proof -
  obtain s' where s': "ins_step cmp h0 K V t s s'" "k_pc s' t \<noteq> IFull" using insertion_enabled [of h0 K s LL t V] inv k small free_pointer [OF fin] nd by blast
  show ?thesis
  proof (cases "s' = s")
    case True
    then obtain o' h where "k_pc s t = IMaxCas o' h (k_max s)" "k_max s < h" using step_rank [OF s'(1) inv] by auto
    then have "solo_step cmp h0 K V t s (ins_goto (s\<lparr>k_max := h\<rparr>) t (IAlloc o' h))"
      using bound_cas [of s t o' h "k_max s" cmp h0 K V] by (auto simp: solo_step_def dest: arg_cong [where f = "\<lambda>x. k_pc x t"])
    then show ?thesis by (intro exI conjI) (assumption, simp)
  qed (use s' in \<open>auto simp: solo_step_def\<close>)
qed

end

section \<open>Every thread can finish alone\<close>

lemma step_finite: "ins_step cmp h0 K V t s s' \<Longrightarrow> finite (dom (k_nodes s)) \<Longrightarrow> finite (dom (k_nodes s'))"
  by (cases rule: ins_step.cases)
    (auto simp: store_next_def cas_next_def rbind_eq_Inr_iff split: option.splits if_splits)

interpretation mem_sys: invariant_system "ins_any cmp h0 K V" "\<lambda>s. \<exists>D. s = ins_init h0 D"
    "\<lambda>s. finite (dom (k_nodes s))" for cmp h0 K V
  by unfold_locales (auto simp: ins_init_def ins_any_def intro: step_finite)

text \<open>What a thread that runs alone relies on.\<close>

definition solo_inv :: "bool \<Rightarrow> comparator \<Rightarrow> ptr \<Rightarrow> (nat \<Rightarrow> bytes) \<Rightarrow> ins_state \<Rightarrow> bool" where
  "solo_inv dbg c h0 K s \<longleftrightarrow> (\<forall>t. key_valid c (K t)) \<and> finite (dom (k_nodes s)) \<and>
     (\<exists>LL. ins_inv (dyn_compare dbg c) (key_valid c) h0 K s LL)"

interpretation solo_sys: terminating_system "solo_step (dyn_compare dbg c) h0 K V t"
    "\<lambda>s. h0 \<noteq> Null \<and> (\<forall>t. key_valid c (K t)) \<and> (\<exists>D. (ins_any (dyn_compare dbg c) h0 K V)\<^sup>*\<^sup>* (ins_init h0 D) s)"
    "solo_inv dbg c h0 K" "ins_rank h0 t" for dbg c h0 K V t
proof unfold_locales
  show "solo_inv dbg c h0 K s"
    if st: "h0 \<noteq> Null \<and> (\<forall>t. key_valid c (K t)) \<and> (\<exists>D. (ins_any (dyn_compare dbg c) h0 K V)\<^sup>*\<^sup>* (ins_init h0 D) s)" for s
  proof -
    obtain D where D: "(ins_any (dyn_compare dbg c) h0 K V)\<^sup>*\<^sup>* (ins_init h0 D) s" using st by blast
    show ?thesis using st mem_sys.reachable_inv [OF D] ins_sys.reachable_inv [OF D] unfolding solo_inv_def by auto
  qed
  show "solo_inv dbg c h0 K s'" if i: "solo_inv dbg c h0 K s" and st: "solo_step (dyn_compare dbg c) h0 K V t s s'" for s s'
  proof -
    have st': "ins_step (dyn_compare dbg c) h0 K V t s s'" using st by (simp add: solo_step_def)
    show ?thesis using i dyn_cmp.ins_inv_step [OF st'] step_finite [OF st'] unfolding solo_inv_def ins_ext_def by blast
  qed
  show "ins_rank h0 t s' < ins_rank h0 t s"
    if i: "solo_inv dbg c h0 K s" and st: "solo_step (dyn_compare dbg c) h0 K V t s s'" for s s'
    using i dyn_cmp.solo_rank [OF st] unfolding solo_inv_def by blast
qed

text \<open>The steps of a thread for which the arena has room.\<close>

definition room_step ::
    "compare \<Rightarrow> ptr \<Rightarrow> (nat \<Rightarrow> bytes) \<Rightarrow> (nat \<Rightarrow> bytes) \<Rightarrow> nat \<Rightarrow> ins_state \<Rightarrow> ins_state \<Rightarrow> bool" where
  "room_step cmp h0 K V t s s' \<longleftrightarrow> solo_step cmp h0 K V t s s' \<and> k_pc s' t \<noteq> IFull"

interpretation room_sys: terminating_system "room_step (dyn_compare dbg c) h0 K V t"
    "\<lambda>s. h0 \<noteq> Null \<and> (\<forall>t. key_valid c (K t)) \<and> (\<exists>D. (ins_any (dyn_compare dbg c) h0 K V)\<^sup>*\<^sup>* (ins_init h0 D) s) \<and>
       k_pc s t \<noteq> IFull"
    "\<lambda>s. solo_inv dbg c h0 K s \<and> k_pc s t \<noteq> IFull" "ins_rank h0 t" for dbg c h0 K V t
proof unfold_locales
  show "solo_inv dbg c h0 K s \<and> k_pc s t \<noteq> IFull"
    if "h0 \<noteq> Null \<and> (\<forall>t. key_valid c (K t)) \<and> (\<exists>D. (ins_any (dyn_compare dbg c) h0 K V)\<^sup>*\<^sup>* (ins_init h0 D) s) \<and>
      k_pc s t \<noteq> IFull" for s
    using that solo_sys.start_inv by blast
  show "solo_inv dbg c h0 K s' \<and> k_pc s' t \<noteq> IFull"
    if "solo_inv dbg c h0 K s \<and> k_pc s t \<noteq> IFull" "room_step (dyn_compare dbg c) h0 K V t s s'" for s s'
    using that solo_sys.step_inv unfolding room_step_def by blast
  show "ins_rank h0 t s' < ins_rank h0 t s"
    if "solo_inv dbg c h0 K s \<and> k_pc s t \<noteq> IFull" "room_step (dyn_compare dbg c) h0 K V t s s'" for s s'
    using that solo_sys.step_rank unfolding room_step_def by blast
qed

text \<open>
  Insertion is obstruction-free. From every state the threads can reach, a thread that runs alone from there on
  stops: every sequence of its steps that change the state is finite, and if it has not panicked and the arena has
  room for its node the sequence can be continued until the insertion is done. No thread ever waits for another one.
\<close>

theorem skiplist_insert_obstruction_free:
  assumes "(ins_any (dyn_compare dbg c) h0 K V)\<^sup>*\<^sup>* (ins_init h0 D) s" "h0 \<noteq> Null" "\<forall>t. key_valid c (K t)"
    "length (K t) < u16_limit" "length (V t) < u32_limit" "k_pc s t \<noteq> IFull"
  shows "(\<exists>s' p h. (room_step (dyn_compare dbg c) h0 K V t)\<^sup>*\<^sup>* s s' \<and> k_pc s' t = IDone p h) \<and>
    (\<forall>f. f 0 = s \<longrightarrow> (\<exists>i. \<not> solo_step (dyn_compare dbg c) h0 K V t (f i) (f (Suc i))))"
proof -
  have inv: "solo_inv dbg c h0 K s" using solo_sys.start_inv assms(1-3) by blast
  then obtain s' where s': "(room_step (dyn_compare dbg c) h0 K V t)\<^sup>*\<^sup>* s s'" "solo_inv dbg c h0 K s'" "k_pc s' t \<noteq> IFull"
    "\<forall>y. \<not> room_step (dyn_compare dbg c) h0 K V t s' y" using room_sys.runs_to_end assms(6) by blast
  have "\<exists>p h. k_pc s' t = IDone p h"
    using s'(2-4) dyn_cmp.solo_enabled assms(3-5) unfolding solo_inv_def room_step_def by blast
  with s'(1) show ?thesis using solo_sys.no_infinite_run inv by blast
qed

theorem skiplist_insert_obstruction_free_witness:
  "\<exists>s' p h. (room_step (dyn_compare True DefaultComparator) run_head run_key run_val 0)\<^sup>*\<^sup>*
     (run_state run_list run_seed 1 (IDone run_node 1) (ISearch GInit)) s' \<and> k_pc s' 0 = IDone p h"
  using skiplist_insert_obstruction_free [OF key_run_insert, of 0] by auto

end
