(* ===== verification/Skip_List_Scan.thy ===== *)
theory Skip_List_Scan
  imports Skip_List_Solo "HOL-Library.Sublist"
begin

text \<open>
  Iteration over the skip list while other threads insert. The iterator takes one load of a base-level slot per
  step; between its steps the list may change. What it returns is sorted, has no node twice, contains every node
  that was linked when the iteration began and only nodes that are linked when it ends.
\<close>

section \<open>Steps\<close>

record scan_state =
  sc_list :: ins_state
  sc_item :: "ptr option"
  sc_out :: "ptr list"

inductive scan_step :: "compare \<Rightarrow> ptr \<Rightarrow> (nat \<Rightarrow> bytes) \<Rightarrow> (nat \<Rightarrow> bytes) \<Rightarrow> scan_state \<Rightarrow> scan_state \<Rightarrow> bool"
  for cmp h0 K V x where
  scan_insert: "ins_step cmp h0 K V t (sc_list x) s \<Longrightarrow> scan_step cmp h0 K V x (x\<lparr>sc_list := s\<rparr>)"
| scan_first: "sc_item x = None \<Longrightarrow> load_next (k_nodes (sc_list x)) h0 0 = Inr q \<Longrightarrow>
    scan_step cmp h0 K V x (x\<lparr>sc_item := Some q\<rparr>)"
| scan_next: "sc_item x = Some p \<Longrightarrow> iter_next (k_nodes (sc_list x)) p = Inr (Some n, q) \<Longrightarrow>
    scan_step cmp h0 K V x (x\<lparr>sc_item := Some q, sc_out := sc_out x @ [n]\<rparr>)"

definition scan_start :: "ins_state \<Rightarrow> scan_state" where
  "scan_start s = \<lparr>sc_list = s, sc_item = None, sc_out = []\<rparr>"

section \<open>How the base level changes\<close>

lemma base_same:
  assumes "ins_inv cmp valid h0 K s LL" "ins_inv cmp valid h0 K s' LL'"
    "\<And>x. x \<in> set (h0 # LL 0) \<Longrightarrow> nxt (k_nodes s') 0 x = nxt (k_nodes s) 0 x"
  shows "LL' 0 = LL 0"
proof -
  have M: "0 < MAX_HEAD_HEIGHT" by (simp add: MAX_HEAD_HEIGHT_def)
  have "path (nxt (k_nodes s) 0) h0 (h0 # LL 0) Null"
    using levels_okD(7) [OF ins_inv_levels [OF assms(1)] M] by (simp add: linked_def)
  then have "linked (k_nodes s') h0 0 (LL 0)"
    using path_cong [of "h0 # LL 0" "nxt (k_nodes s') 0" "nxt (k_nodes s) 0" h0 Null] assms(3) unfolding linked_def by blast
  then show ?thesis
    using levels_okD(7) [OF ins_inv_levels [OF assms(2)] M] linked_unique by metis
qed

definition inserted :: "ptr list \<Rightarrow> ptr list \<Rightarrow> bool" where
  "inserted xs ys \<longleftrightarrow> ys = xs \<or> (\<exists>as bs p. xs = as @ bs \<and> ys = as @ p # bs \<and> p \<notin> set xs)"

context key_comparator
begin

lemma swap_base:
  assumes inv: "ins_inv cmp valid h0 K s LL" and k: "valid (K t)" and t: "k_pc s t = ICas p h 0 c"
    and cas: "cas_next (k_nodes s) (predecessors c ! 0) 0 (successors c ! 0) p = Inr (True, st)"
  shows "\<exists>as bs. LL 0 = as @ bs \<and> linked st h0 0 (as @ p # bs) \<and> p \<notin> set (LL 0) \<and>
    (\<forall>x \<in> set as. lt cmp (k_nodes s) (K t) x) \<and> (\<forall>q \<in> set bs. hd0 bs = q \<longrightarrow> \<not> lt cmp (k_nodes s) (K t) q)"
proof -
  have M: "0 < MAX_HEAD_HEIGHT" by (simp add: MAX_HEAD_HEIGHT_def)
  have own: "own_ok cmp h0 (k_nodes s) (k_max s) LL (K t) (p, h, 0)" using ins_inv_own [OF inv, of t] t by simp
  have a: "ctx_ok cmp h0 (k_nodes s) LL (K t) c" "nxt (k_nodes s) 0 p = Some (successors c ! 0)"
    using ins_inv_at [OF inv, of t] t by simp_all
  have "pred_ok cmp h0 (k_nodes s) LL (K t) 0 (predecessors c ! 0)" "succ_ok cmp (k_nodes s) LL (K t) 0 (successors c ! 0)"
    using a(1) M by (simp_all add: ctx_ok_def)
  moreover have pp: "p \<noteq> Null" "p \<noteq> h0" "p \<notin> set (LL 0)" "node_key (k_nodes s) p = K t" using own by (auto simp: own_ok_def)
  ultimately show ?thesis
    using level_insert [OF ins_inv_levels [OF inv] M k _ cas_next_ok(1) [OF cas] _ pp a(2)] cas_next_ok(2) [OF cas] pp(3)
    unfolding linked_def by (simp del: path.simps) blast
qed

lemma base_grows:
  assumes step: "ins_step cmp h0 K V t s s'" and inv: "ins_inv cmp valid h0 K s LL" "ins_inv cmp valid h0 K s' LL'"
    and k: "valid (K t)"
  shows "inserted (LL 0) (LL' 0)"
proof -
  have same: "inserted (LL 0) (LL' 0)" if "\<And>x. x \<in> set (h0 # LL 0) \<Longrightarrow> nxt (k_nodes s') 0 x = nxt (k_nodes s) 0 x"
    using base_same [OF inv that] by (simp add: inserted_def)
  show ?thesis using step
  proof cases
    case (new_node o' h p)
    have "nxt (k_nodes s') 0 x = nxt (k_nodes s) 0 x" if "x \<in> set (h0 # LL 0)" for x
      using level_nodes [OF ins_inv_levels [OF inv(1)] that] new_node by (auto simp: nxt_def)
    then show ?thesis by (rule same)
  next
    case (store_slot p h l c st)
    have own: "own_ok cmp h0 (k_nodes s) (k_max s) LL (K t) (p, h, l)" and l: "l < h"
      using ins_inv_own [OF inv(1), of t] ins_inv_at [OF inv(1), of t] store_slot(2) by auto
    then have "l < node_height (k_nodes s) p" by (simp add: own_ok_def)
    then have "nxt st = (nxt (k_nodes s))(l := (nxt (k_nodes s) l)(p \<mapsto> successors c ! l))"
      using store_next_view [of l "k_nodes s" p "successors c ! l"] store_slot(4) by (metis sum.inject(2))
    moreover have "l = 0 \<Longrightarrow> p \<notin> set (h0 # LL 0)" using own by (auto simp: own_ok_def)
    ultimately show ?thesis using store_slot(1) by (intro same) auto
  next
    case (swap_ok p h l c st)
    show ?thesis
    proof (cases "l = 0")
      case True
      obtain as bs where "LL 0 = as @ bs" "linked st h0 0 (as @ p # bs)" "p \<notin> set (LL 0)"
        using swap_base [OF inv(1) k] swap_ok(2,3) True by blast
      moreover have "linked st h0 0 (LL' 0)"
        using levels_okD(7) [OF ins_inv_levels [OF inv(2)], of 0] swap_ok(1) by (simp add: MAX_HEAD_HEIGHT_def)
      ultimately show ?thesis using linked_unique by (metis inserted_def)
    next
      case False
      then show ?thesis using cas_next_ok(2) [OF swap_ok(3)] swap_ok(1) by (intro same) simp
    qed
  qed (rule same; simp)+
qed

end

section \<open>What the iterator has seen\<close>

text \<open>
  \<open>B\<close> is what was linked when the iteration began. Before the item come the nodes already returned, in the order
  of the list; every node of \<open>B\<close> has been returned or is still to come.
\<close>

definition scan_ok :: "ptr set \<Rightarrow> ptr list \<Rightarrow> ptr option \<Rightarrow> ptr list \<Rightarrow> bool" where
  "scan_ok B base item out \<longleftrightarrow> B \<subseteq> set base \<and> (case item of None \<Rightarrow> out = []
     | Some q \<Rightarrow> if q = Null then subseq out base \<and> B \<subseteq> set out
                 else (\<exists>as bs. base = as @ q # bs \<and> subseq out as \<and> B \<inter> set as \<subseteq> set out))"

lemma inserted_subseq: "inserted xs ys \<Longrightarrow> subseq xs ys"
  by (auto simp: inserted_def intro: list_emb_append_mono)

lemma inserted_at:
  assumes "inserted (as @ q # bs) ys"
  shows "\<exists>as' bs'. ys = as' @ q # bs' \<and> inserted as as' \<and> set as' \<inter> set (as @ q # bs) \<subseteq> set as"
proof (cases "ys = as @ q # bs")
  case True
  then show ?thesis by (auto simp: inserted_def)
next
  case False
  then obtain cs ds p where e: "as @ q # bs = cs @ ds" "ys = cs @ p # ds" "p \<notin> set (as @ q # bs)"
    using assms unfolding inserted_def by blast
  then consider us where "as = cs @ us" "ds = us @ q # bs" | us where "cs = as @ q # us" "bs = us @ ds"
    by (auto simp: append_eq_append_conv2 Cons_eq_append_conv)
  then show ?thesis
  proof cases
    case 1
    then show ?thesis using e(2,3) by (intro exI [of _ "cs @ p # us"] exI [of _ bs]) (auto simp: inserted_def)
  next
    case 2
    then show ?thesis using e(2) by (intro exI [of _ as] exI [of _ "us @ p # ds"]) (auto simp: inserted_def)
  qed
qed

lemma scan_ok_inserted:
  assumes ok: "scan_ok B base item out" and ins: "inserted base base'"
  shows "scan_ok B base' item out"
proof -
  have sub: "B \<subseteq> set base'" using ok ins by (auto simp: scan_ok_def inserted_def)
  show ?thesis
  proof (cases "\<exists>q. item = Some q \<and> q \<noteq> Null")
    case True
    then obtain q as bs where q: "item = Some q" "q \<noteq> Null" "base = as @ q # bs" "subseq out as" "B \<inter> set as \<subseteq> set out"
      using ok by (auto simp: scan_ok_def)
    obtain as' bs' where a: "base' = as' @ q # bs'" "inserted as as'" "set as' \<inter> set base \<subseteq> set as"
      using inserted_at [OF ins [unfolded q(3)]] q(3) by auto
    have "B \<inter> set as' \<subseteq> set out" using a(3) q(5) ok by (auto simp: scan_ok_def)
    moreover have "subseq out as'" using q(4) inserted_subseq [OF a(2)] by (rule subseq_order.trans)
    ultimately show ?thesis using sub q(1,2) a(1) by (auto simp: scan_ok_def)
  next
    case False
    then show ?thesis using ok sub inserted_subseq [OF ins] by (auto simp: scan_ok_def split: option.splits intro: subseq_order.trans)
  qed
qed

lemma scan_okI:
  assumes "B \<subseteq> set base" "base = as @ q # bs" "q \<noteq> Null" "subseq out as" "B \<inter> set as \<subseteq> set out"
  shows "scan_ok B base (Some q) out"
proof -
  have "\<exists>as bs. base = as @ q # bs \<and> subseq out as \<and> B \<inter> set as \<subseteq> set out" using assms(2,4,5) by blast
  then show ?thesis using assms(1,3) by (simp add: scan_ok_def)
qed

lemma scan_ok_first:
  assumes "scan_ok B base None out" "Null \<notin> set base"
  shows "scan_ok B base (Some (hd0 base)) out"
proof (cases base)
  case (Cons b bs)
  then have "base = [] @ b # bs" "b \<noteq> Null" using assms(2) by auto
  then show ?thesis using assms(1) Cons by (intro scan_okI [of B base "[]" _ bs]) (simp_all add: scan_ok_def)
qed (use assms in \<open>auto simp: scan_ok_def\<close>)

lemma scan_ok_next:
  assumes ok: "scan_ok B base (Some p) out" and p: "p \<noteq> Null" "base = as @ p # bs" "distinct base" "Null \<notin> set base"
  shows "scan_ok B base (Some (hd0 bs)) (out @ [p])"
proof -
  obtain as' bs' where a: "base = as' @ p # bs'" "subseq out as'" "B \<inter> set as' \<subseteq> set out"
    using ok p(1) by (auto simp: scan_ok_def)
  have e: "as' = as" "bs' = bs" using a(1) p(2,3) by (auto simp: append_eq_append_conv2 Cons_eq_append_conv append_eq_Cons_conv)
  have s: "subseq (out @ [p]) (as @ [p])" using a(2) e by (simp add: list_emb_append_mono)
  have B: "B \<subseteq> set base" using ok by (simp add: scan_ok_def)
  show ?thesis
  proof (cases bs)
    case Nil
    then show ?thesis using s a(3) e B p(2) by (auto simp: scan_ok_def)
  next
    case (Cons b bs')
    then have "b \<noteq> Null" using p(2,4) by auto
    moreover have "base = (as @ [p]) @ b # bs'" "B \<inter> set (as @ [p]) \<subseteq> set (out @ [p])" using p(2) Cons a(3) e by auto
    ultimately show ?thesis using s B Cons by (intro scan_okI [of B base "as @ [p]" _ bs']) simp_all
  qed
qed

section \<open>Iteration under interleaving\<close>

lemma owner_kept:
  assumes "ins_step cmp h0 K V t s s'" "ins_inv cmp valid h0 K s LL" "owned (k_pc s u) = Some (p, h, n)"
  shows "\<exists>n'. owned (k_pc s' u) = Some (p, h, n') \<and> n \<le> n'"
proof (cases "u = t")
  case False
  have "k_pc s' u = k_pc s u" using assms(1) False by cases auto
  then show ?thesis using assms(3) by simp
next
  case True
  from assms(1) show ?thesis
  proof cases
    case (swap_ok p' h' l c st)
    then show ?thesis using assms(3) ins_inv_at [OF assms(2), of t] True by auto
  qed (use assms(3) True in auto)
qed

text \<open>A linked thread stays linked, with the same node.\<close>

lemma published_kept:
  assumes "ins_step cmp h0 K V t s s'" "ins_inv cmp valid h0 K s LL" "u \<in> published s"
  shows "u \<in> published s' \<and> node_of s' u = node_of s u"
proof -
  obtain p h n where "owned (k_pc s u) = Some (p, h, n)" "0 < n" using assms(3) by (auto simp: published_def)
  then show ?thesis using owner_kept [OF assms(1,2)] by (fastforce simp: published_def node_of_def)
qed

definition scan_inv :: "bool \<Rightarrow> comparator \<Rightarrow> ptr \<Rightarrow> (nat \<Rightarrow> bytes) \<Rightarrow> (nat \<Rightarrow> bytes) \<Rightarrow> ins_state \<Rightarrow> scan_state \<Rightarrow> bool" where
  "scan_inv dbg c h0 K V s x \<longleftrightarrow> (\<forall>t. key_valid c (K t)) \<and> stored_vals V (sc_list x) \<and>
     (\<forall>u \<in> published s. u \<in> published (sc_list x) \<and> node_of (sc_list x) u = node_of s u) \<and>
     (\<exists>LL. ins_inv (dyn_compare dbg c) (key_valid c) h0 K (sc_list x) LL \<and>
        scan_ok (node_of s ` published s) (LL 0) (sc_item x) (sc_out x))"

lemma base_level:
  assumes "ins_inv cmp valid h0 K s LL"
  shows "distinct (LL 0)" "Null \<notin> set (LL 0)" "nxt (k_nodes s) 0 h0 = Some (hd0 (LL 0))"
    "LL 0 = as @ p # bs \<Longrightarrow> nxt (k_nodes s) 0 p = Some (hd0 bs)"
proof -
  have pa: "path (nxt (k_nodes s) 0) h0 (h0 # LL 0) Null"
    using levels_okD(7) [OF ins_inv_levels [OF assms], of 0] by (simp add: linked_def MAX_HEAD_HEIGHT_def)
  then show "Null \<notin> set (LL 0)" "nxt (k_nodes s) 0 h0 = Some (hd0 (LL 0))" using path_no_null [of _ _ "h0 # LL 0"] path_hd0 by fastforce+
  show "distinct (LL 0)" using levels_okD(4) [OF ins_inv_levels [OF assms], of 0] by simp
  show "nxt (k_nodes s) 0 p = Some (hd0 bs)" if "LL 0 = as @ p # bs"
    using pa unfolding that by (auto simp: path_append dest: path_hd0)
qed

lemma scan_inv_step:
  assumes inv: "scan_inv dbg c h0 K V s x" and step: "scan_step (dyn_compare dbg c) h0 K V x x'"
  shows "scan_inv dbg c h0 K V s x'"
proof -
  obtain LL where L: "ins_inv (dyn_compare dbg c) (key_valid c) h0 K (sc_list x) LL"
    "scan_ok (node_of s ` published s) (LL 0) (sc_item x) (sc_out x)" and k: "\<forall>t. key_valid c (K t)"
    using inv by (auto simp: scan_inv_def)
  from step show ?thesis
  proof cases
    case (scan_insert t s1)
    obtain LL' where L': "ins_inv (dyn_compare dbg c) (key_valid c) h0 K s1 LL'"
      using dyn_cmp.ins_inv_step [OF scan_insert(2) L(1)] k by (auto simp: ins_ext_def)
    have "scan_ok (node_of s ` published s) (LL' 0) (sc_item x) (sc_out x)"
      using scan_ok_inserted [OF L(2)] dyn_cmp.base_grows [OF scan_insert(2) L(1) L'] k by blast
    moreover have "stored_vals V s1"
      using inv stored_vals_step [OF scan_insert(2) L(1)] by (auto simp: scan_inv_def)
    moreover have "u \<in> published s1 \<and> node_of s1 u = node_of s u" if "u \<in> published s" for u
      using inv that published_kept [OF scan_insert(2) L(1)] by (auto simp: scan_inv_def)
    ultimately show ?thesis using k L' scan_insert(1) by (auto simp: scan_inv_def)
  next
    case (scan_first q)
    then have "q = hd0 (LL 0)" using base_level(3) [OF L(1)] by (simp add: load_next_nxt)
    then have "scan_ok (node_of s ` published s) (LL 0) (Some q) (sc_out x)"
      using scan_ok_first L(2) scan_first(2) base_level(2) [OF L(1)] by simp
    then show ?thesis using inv L(1) scan_first(1) by (auto simp: scan_inv_def)
  next
    case (scan_next p n q)
    then have p: "p \<noteq> Null" "n = p" "nxt (k_nodes (sc_list x)) 0 p = Some q"
      by (auto simp: iter_next_def rbind_eq_Inr_iff load_next_nxt split: if_splits option.splits)
    obtain as bs where b: "LL 0 = as @ p # bs" using L(2) p(1) scan_next(2) by (auto simp: scan_ok_def)
    have "q = hd0 bs" using base_level(4) [OF L(1) b] p(3) by simp
    then have "scan_ok (node_of s ` published s) (LL 0) (Some q) (sc_out x @ [n])"
      using scan_ok_next [OF _ p(1) b] L(2) scan_next(2) base_level(1,2) [OF L(1)] p(2) by simp
    then show ?thesis using inv L(1) scan_next(1) by (auto simp: scan_inv_def)
  qed
qed

interpretation scan_sys: invariant_system "scan_step (dyn_compare dbg c) h0 K V"
    "\<lambda>x. x = scan_start s \<and> h0 \<noteq> Null \<and> (\<forall>t. key_valid c (K t)) \<and>
       (\<exists>D. (ins_any (dyn_compare dbg c) h0 K V)\<^sup>*\<^sup>* (ins_init h0 D) s)"
    "scan_inv dbg c h0 K V s" for dbg c h0 K V s
proof unfold_locales
  show "scan_inv dbg c h0 K V s x"
    if st: "x = scan_start s \<and> h0 \<noteq> Null \<and> (\<forall>t. key_valid c (K t)) \<and>
       (\<exists>D. (ins_any (dyn_compare dbg c) h0 K V)\<^sup>*\<^sup>* (ins_init h0 D) s)" for x
  proof -
    obtain D where D: "(ins_any (dyn_compare dbg c) h0 K V)\<^sup>*\<^sup>* (ins_init h0 D) s" using st by blast
    obtain LL where L: "ins_inv (dyn_compare dbg c) (key_valid c) h0 K s LL" "stored_vals V s"
      using ins_sys.reachable_inv [OF D] st by blast
    have "scan_ok (node_of s ` published s) (LL 0) None []" using published_nodes(1) [OF L(1)] by (simp add: scan_ok_def)
    then show ?thesis using st L by (auto simp: scan_inv_def scan_start_def)
  qed
qed (rule scan_inv_step)

lemma distinct_subseq: "subseq xs ys \<Longrightarrow> distinct ys \<Longrightarrow> distinct xs"
  by (induction rule: list_emb.induct) (auto dest: list_emb_set)

lemma sorted_wrt_subseq: "subseq xs ys \<Longrightarrow> sorted_wrt P ys \<Longrightarrow> sorted_wrt P xs"
proof (induction rule: list_emb.induct)
  case (list_emb_Cons2 x y xs ys)
  then show ?case by (auto dest: list_emb_set)
qed auto

text \<open>The nodes returned as a list of threads.\<close>

lemma scanned_threads:
  assumes inv: "ins_inv cmp valid h0 K s LL" and sv: "stored_vals V s" and out: "subseq out (LL 0)"
  shows "\<exists>ws. distinct ws \<and> set ws \<subseteq> published s \<and> out = map (node_of s) ws \<and>
    entries (k_nodes s) out = map (\<lambda>w. (K w, V w)) ws"
proof -
  let ?ws = "map (the_inv_into (published s) (node_of s)) out"
  note bij = published_nodes(1,2) [OF inv]
  have sub: "set out \<subseteq> node_of s ` published s" using out bij(1) by (auto dest: list_emb_set)
  have di: "distinct out" using out levels_okD(4) [OF ins_inv_levels [OF inv], of 0] by (auto dest: distinct_subseq)
  have no: "node_of s (the_inv_into (published s) (node_of s) p) = p"
    "the_inv_into (published s) (node_of s) p \<in> published s" if "p \<in> set out" for p
    using sub that by (auto intro: f_the_inv_into_f [OF bij(2)] the_inv_into_into [OF bij(2)])
  have d: "distinct ?ws" using di no(1) by (auto simp: distinct_map inj_on_def) metis
  have o': "out = map (node_of s) ?ws" using no(1) by (auto simp: map_idI)
  have sub': "set ?ws \<subseteq> published s" using no(2) by auto
  have e: "(node_key (k_nodes s) (node_of s w), node_val (k_nodes s) (node_of s w)) = (K w, V w)" if w: "w \<in> published s" for w
  proof -
    obtain x where x: "owned (k_pc s w) = Some x" using w by (auto simp: published_def)
    then show ?thesis using ins_inv_own [OF inv x] sv by (auto simp: node_of_def own_ok_def stored_vals_def)
  qed
  have "entries (k_nodes s) (map (node_of s) ?ws) = map (\<lambda>w. (K w, V w)) ?ws"
    unfolding entries_def map_map comp_def by (rule map_cong [OF refl]) (use e sub' in auto)
  then show ?thesis using d o' sub' by metis
qed

text \<open>
  C11: Iteration under interleaved insertions. When the iterator ends, however threads inserted between its loads,
  it has returned the entries of a list of different threads, in key order, that contains every thread whose node
  was linked when the iteration began and only threads whose node is linked now.
\<close>

theorem skiplist_concurrent_iter:
  assumes "(ins_any (dyn_compare dbg c) h0 K V)\<^sup>*\<^sup>* (ins_init h0 D) s" "h0 \<noteq> Null" "\<forall>t. key_valid c (K t)"
    "(scan_step (dyn_compare dbg c) h0 K V)\<^sup>*\<^sup>* (scan_start s) x" "sc_item x = Some Null"
  shows "\<exists>ws. distinct ws \<and> published s \<subseteq> set ws \<and> set ws \<subseteq> published (sc_list x) \<and>
    entries (k_nodes (sc_list x)) (sc_out x) = map (\<lambda>w. (K w, V w)) ws \<and>
    sorted_wrt (\<lambda>v w. dyn_compare dbg c (K w) (K v) \<noteq> Inr Less) ws"
proof -
  have si: "scan_inv dbg c h0 K V s x" using scan_sys.reachable_inv [OF assms(4)] assms(1-3) by blast
  then obtain LL where L: "ins_inv (dyn_compare dbg c) (key_valid c) h0 K (sc_list x) LL"
    "subseq (sc_out x) (LL 0)" "node_of s ` published s \<subseteq> set (sc_out x)" and sv: "stored_vals V (sc_list x)"
    using assms(5) by (auto simp: scan_inv_def scan_ok_def)
  obtain ws where ws: "distinct ws" "set ws \<subseteq> published (sc_list x)" "sc_out x = map (node_of (sc_list x)) ws"
    "entries (k_nodes (sc_list x)) (sc_out x) = map (\<lambda>w. (K w, V w)) ws" using scanned_threads [OF L(1) sv L(2)] by blast
  have "published s \<subseteq> set ws"
  proof
    fix u assume u: "u \<in> published s"
    then have p: "u \<in> published (sc_list x)" "node_of (sc_list x) u = node_of s u" using si by (auto simp: scan_inv_def)
    then have "node_of (sc_list x) u \<in> node_of (sc_list x) ` set ws" using L(3) u ws(3) by auto
    then show "u \<in> set ws" using p(1) ws(2) published_nodes(2) [OF L(1)] by (meson inj_on_image_mem_iff)
  qed
  moreover have "sorted_wrt (\<lambda>v w. dyn_compare dbg c (K w) (K v) \<noteq> Inr Less) ws"
  proof -
    have "sorted_nodes (dyn_compare dbg c) (k_nodes (sc_list x)) (sc_out x)"
      using sorted_wrt_subseq [OF L(2)] levels_okD(6) [OF ins_inv_levels [OF L(1)], of 0] unfolding sorted_nodes_def by blast
    then have "sorted_wrt (\<lambda>a b. dyn_compare dbg c b a \<noteq> Inr Less) (map (node_key (k_nodes (sc_list x))) (sc_out x))"
      by (simp add: sorted_nodes_def sorted_wrt_map)
    moreover have "map (node_key (k_nodes (sc_list x))) (sc_out x) = map K ws"
      using arg_cong [OF ws(4), of "map fst"] by (simp add: entries_def comp_def)
    ultimately show ?thesis by (simp add: sorted_wrt_map)
  qed
  ultimately show ?thesis using ws by blast
qed

lemma run_scan:
  "(scan_step (dyn_compare True DefaultComparator) run_head run_key run_val)\<^sup>*\<^sup>*
     (scan_start (run_state run_list run_seed 1 (IDone run_node 1) (ISearch GInit)))
     \<lparr>sc_list = run_state run_list run_seed 1 (IDone run_node 1) (ISearch GInit), sc_item = Some Null, sc_out = [run_node]\<rparr>"
proof -
  let ?s = "run_state run_list run_seed 1 (IDone run_node 1) (ISearch GInit)"
  let ?r = "scan_step (dyn_compare True DefaultComparator) run_head run_key run_val"
  let ?x = "\<lparr>sc_list = ?s, sc_item = Some run_node, sc_out = []\<rparr>"
  have "?r (scan_start ?s) (scan_start ?s\<lparr>sc_item := Some run_node\<rparr>)"
    by (rule scan_first) (simp_all add: scan_start_def run_loads(2))
  moreover have "iter_next run_list run_node = Inr (Some run_node, Null)"
    by (simp add: iter_next_def load_next_def run_nodes2_def run_nodes1_def filled_def init_node_def)
  then have "?r ?x (?x\<lparr>sc_item := Some Null, sc_out := sc_out ?x @ [run_node]\<rparr>)" by (intro scan_next) simp_all
  ultimately show ?thesis by (simp add: scan_start_def)
qed

theorem skiplist_concurrent_iter_witness: "entries run_list [run_node] = [(run_key 1, run_val 1)]"
proof -
  let ?s = "run_state run_list run_seed 1 (IDone run_node 1) (ISearch GInit)"
  have p: "published ?s = {1}" using run_published by simp
  obtain ws where ws: "distinct ws" "published ?s \<subseteq> set ws" "set ws \<subseteq> published ?s"
    "entries run_list [run_node] = map (\<lambda>w. (run_key w, run_val w)) ws"
    using skiplist_concurrent_iter [OF key_run_insert _ _ run_scan] by auto
  have "ws = [1]"
  proof (cases ws)
    case (Cons w vs)
    then show ?thesis using ws(1,3) p by (cases vs) auto
  qed (use ws(2) p in simp)
  then show ?thesis using ws(4) by simp
qed

end
