(* ===== verification/Skip_List_Linear.thy ===== *)
theory Skip_List_Linear
  imports Skip_List_Scan
begin

text \<open>
  Insertion is linearizable. The successful swap at the base level is the moment an insertion takes effect: there the
  list of entries changes by one sorted insertion, the specification of the insertion of a single thread, and
  at no other step does it change. The interleaved system thus simulates the atomic one in which each thread
  inserts its entry in one step.
\<close>

section \<open>The atomic list\<close>

text \<open>The threads that have inserted, in the order they did, and the entries they leave.\<close>

definition atomic_step :: "nat list \<Rightarrow> nat list \<Rightarrow> bool" where
  "atomic_step ts ts' \<longleftrightarrow> (\<exists>t. t \<notin> set ts \<and> ts' = ts @ [t])"

definition atomic_entries :: "compare \<Rightarrow> (nat \<Rightarrow> bytes) \<Rightarrow> (nat \<Rightarrow> bytes) \<Rightarrow> nat list \<Rightarrow> entry list" where
  "atomic_entries cmp K V ts = foldl (\<lambda>es t. ins_entry cmp (K t) (V t) es) [] ts"

definition linear :: "compare \<Rightarrow> ptr \<Rightarrow> (nat \<Rightarrow> bytes) \<Rightarrow> (nat \<Rightarrow> bytes) \<Rightarrow> ins_state \<Rightarrow> nat list \<Rightarrow> bool" where
  "linear cmp h0 K V s ts \<longleftrightarrow> distinct ts \<and> set ts = published s \<and>
     (\<exists>ns. linked (k_nodes s) h0 0 ns \<and> entries (k_nodes s) ns = atomic_entries cmp K V ts)"

lemma atomic_steps_prefix: "atomic_step\<^sup>*\<^sup>* ts ts' \<Longrightarrow> \<exists>us. ts' = ts @ us"
  by (induction rule: rtranclp_induct) (auto simp: atomic_step_def)

section \<open>Linearization points\<close>

lemma entries_cong:
  "(\<And>p. p \<in> set ns \<Longrightarrow> node_key st' p = node_key st p \<and> node_val st' p = node_val st p) \<Longrightarrow> entries st' ns = entries st ns"
  by (simp add: entries_def)

lemma ins_entry_between:
  assumes "\<forall>e \<in> set es. below_key cmp k e" "\<forall>e \<in> set fs. hd fs = e \<longrightarrow> \<not> below_key cmp k e"
  shows "ins_entry cmp k v (es @ fs) = es @ (k, v) # fs"
  using assms by (cases fs) (simp_all add: ins_entry_def)

text \<open>Whether the next step of a thread is a successful swap at the base level.\<close>

definition takes_effect :: "ins_state \<Rightarrow> nat \<Rightarrow> bool" where
  "takes_effect s t \<longleftrightarrow> (\<exists>p h c st. k_pc s t = ICas p h 0 c \<and>
     cas_next (k_nodes s) (predecessors c ! 0) 0 (successors c ! 0) p = Inr (True, st))"

lemma published_same:
  assumes "ins_step cmp h0 K V t s s'" "\<not> takes_effect s t" and inv: "ins_inv cmp valid h0 K s LL"
  shows "published s' = published s"
proof -
  have "(\<exists>p h n. owned (k_pc s' u) = Some (p, h, n) \<and> 0 < n) \<longleftrightarrow> (\<exists>p h n. owned (k_pc s u) = Some (p, h, n) \<and> 0 < n)" for u
  proof (cases "u = t")
    case False
    have "k_pc s' u = k_pc s u" using assms(1) False by cases auto
    then show ?thesis by simp
  next
    case True
    show ?thesis using assms(1)
    proof cases
      case (swap_ok p h l c st)
      then have "0 < l" "l < h" using assms(2) ins_inv_at [OF inv, of t] by (auto simp: takes_effect_def intro: gr0I)
      then show ?thesis using swap_ok(1,2) True by auto
    qed (use True in \<open>auto split: option.splits\<close>)
  qed
  then show ?thesis by (auto simp: published_def)
qed

lemma published_entry:
  assumes "ins_inv cmp valid h0 K s LL" "stored_vals V s" "p \<in> set (LL 0)"
  shows "\<exists>u \<in> published s. p = node_of s u \<and> node_key (k_nodes s) p = K u \<and> node_val (k_nodes s) p = V u"
proof -
  obtain u where u: "u \<in> published s" "p = node_of s u" using published_nodes(1) [OF assms(1)] assms(3) by blast
  then obtain h n where x: "owned (k_pc s u) = Some (p, h, n)" by (auto simp: published_def node_of_def)
  have "node_key (k_nodes s) p = K u" using ins_inv_own [OF assms(1) x] by (simp add: own_ok_def)
  moreover have "node_val (k_nodes s) p = V u" using assms(2) x unfolding stored_vals_def by fastforce
  ultimately show ?thesis using u by blast
qed

lemma linear_base:
  assumes "ins_inv cmp valid h0 K s LL"
  shows "linear cmp h0 K V s ts \<longleftrightarrow> distinct ts \<and> set ts = published s \<and>
    entries (k_nodes s) (LL 0) = atomic_entries cmp K V ts"
proof -
  have "linked (k_nodes s) h0 0 (LL 0)"
    using levels_okD(7) [OF ins_inv_levels [OF assms], of 0] by (simp add: MAX_HEAD_HEIGHT_def)
  then show ?thesis unfolding linear_def using linked_unique by metis
qed

context key_comparator
begin

lemma linear_effect:
  assumes inv: "ins_inv cmp valid h0 K s LL" and sv: "stored_vals V s" and k: "valid (K t)" and li: "linear cmp h0 K V s ts"
    and pc: "k_pc s t = ICas p h 0 c"
    and cas: "cas_next (k_nodes s) (predecessors c ! 0) 0 (successors c ! 0) p = Inr (True, st)"
    and s': "s' = ins_goto (s\<lparr>k_nodes := st\<rparr>) t (if Suc 0 < h then ISlot p h (Suc 0) c else IDone p h)"
  shows "t \<notin> set ts \<and> linear cmp h0 K V s' (ts @ [t])"
proof -
  obtain as bs where b: "LL 0 = as @ bs" "linked st h0 0 (as @ p # bs)" "\<forall>x \<in> set as. lt cmp (k_nodes s) (K t) x"
    "\<forall>q \<in> set bs. hd0 bs = q \<longrightarrow> \<not> lt cmp (k_nodes s) (K t) q" using swap_base [OF inv k pc cas] by blast
  have same: "node_key st = node_key (k_nodes s)" "node_val st = node_val (k_nodes s)"
    using cas_next_ok(3) [OF cas] by (simp_all add: same_nodes_def)
  have o': "owned (k_pc s t) = Some (p, h, 0)" using pc by simp
  have p: "node_key (k_nodes s) p = K t" "node_val (k_nodes s) p = V t"
    using ins_inv_own [OF inv o'] sv o' by (auto simp: own_ok_def stored_vals_def)
  let ?e = "entries (k_nodes s)"
  have "ins_entry cmp (K t) (V t) (?e as @ ?e bs) = ?e as @ (K t, V t) # ?e bs"
  proof (rule ins_entry_between)
    show "\<forall>e \<in> set (?e as). below_key cmp (K t) e" using b(3) by (auto simp: entries_def below_key_def lt_def)
    show "\<forall>e \<in> set (?e bs). hd (?e bs) = e \<longrightarrow> \<not> below_key cmp (K t) e"
      using b(4) by (cases bs) (auto simp: entries_def below_key_def lt_def)
  qed
  moreover have li': "distinct ts" "set ts = published s" "?e (LL 0) = atomic_entries cmp K V ts"
    using li linear_base [OF inv] by blast+
  ultimately have e: "entries st (as @ p # bs) = atomic_entries cmp K V (ts @ [t])"
    using b(1) p same by (simp add: entries_def atomic_entries_def)
  have "0 < h" using ins_inv_at [OF inv, of t] pc by simp
  then have pub: "published s' = insert t (published s)" "t \<notin> published s"
    using pc by (auto simp: published_def s' split: if_splits)
  show ?thesis using li' e b(2) pub by (auto simp: linear_def s')
qed

lemma linear_same:
  assumes step: "ins_step cmp h0 K V t s s'" and inv: "ins_inv cmp valid h0 K s LL" "ins_inv cmp valid h0 K s' LL'"
    and sv: "stored_vals V s" "stored_vals V s'" and k: "valid (K t)" and ne: "\<not> takes_effect s t"
    and li: "linear cmp h0 K V s ts"
  shows "linear cmp h0 K V s' ts"
proof -
  have pub: "published s' = published s" by (rule published_same [OF step ne inv(1)])
  have no: "node_of s' u = node_of s u" if "u \<in> published s" for u using published_kept [OF step inv(1) that] by blast
  have "set (LL' 0) = set (LL 0)"
    using published_nodes(1) [OF inv(1)] published_nodes(1) [OF inv(2)] pub no by (metis image_cong)
  then have base: "LL' 0 = LL 0" using base_grows [OF step inv k] by (auto simp: inserted_def)
  have "entries (k_nodes s') (LL 0) = entries (k_nodes s) (LL 0)"
  proof (rule entries_cong)
    fix p assume p: "p \<in> set (LL 0)"
    obtain u where u: "u \<in> published s" "p = node_of s u" "node_key (k_nodes s) p = K u" "node_val (k_nodes s) p = V u"
      using published_entry [OF inv(1) sv(1) p] by blast
    obtain v where v: "v \<in> published s'" "p = node_of s' v" "node_key (k_nodes s') p = K v" "node_val (k_nodes s') p = V v"
      using published_entry [OF inv(2) sv(2), of p] p base by auto
    have "u = v" using published_nodes(2) [OF inv(1)] u(1,2) v(1,2) pub no by (metis inj_onD)
    then show "node_key (k_nodes s') p = node_key (k_nodes s) p \<and> node_val (k_nodes s') p = node_val (k_nodes s) p"
      using u v by simp
  qed
  then show ?thesis using li linear_base [OF inv(1)] linear_base [OF inv(2)] base pub by auto
qed

end

definition linear_inv :: "bool \<Rightarrow> comparator \<Rightarrow> ptr \<Rightarrow> (nat \<Rightarrow> bytes) \<Rightarrow> (nat \<Rightarrow> bytes) \<Rightarrow> ins_state \<Rightarrow> bool" where
  "linear_inv dbg c h0 K V s \<longleftrightarrow> (\<forall>t. key_valid c (K t)) \<and> stored_vals V s \<and>
     (\<exists>LL. ins_inv (dyn_compare dbg c) (key_valid c) h0 K s LL)"

lemma linear_inv_step:
  assumes "linear_inv dbg c h0 K V s" "ins_step (dyn_compare dbg c) h0 K V t s s'"
  shows "linear_inv dbg c h0 K V s'"
proof -
  obtain LL where L: "ins_inv (dyn_compare dbg c) (key_valid c) h0 K s LL" "stored_vals V s" "\<forall>t. key_valid c (K t)"
    using assms(1) by (auto simp: linear_inv_def)
  obtain LL' where "ins_inv (dyn_compare dbg c) (key_valid c) h0 K s' LL'"
    using dyn_cmp.ins_inv_step [OF assms(2) L(1)] L(3) by (auto simp: ins_ext_def)
  then show ?thesis using L(3) stored_vals_step [OF assms(2) L(1,2)] by (auto simp: linear_inv_def)
qed

lemma linear_step:
  assumes inv: "linear_inv dbg c h0 K V s" and li: "linear (dyn_compare dbg c) h0 K V s ts"
    and step: "ins_step (dyn_compare dbg c) h0 K V t s s'"
  shows "linear (dyn_compare dbg c) h0 K V s' ts \<or> t \<notin> set ts \<and> linear (dyn_compare dbg c) h0 K V s' (ts @ [t])"
proof -
  obtain LL where L: "ins_inv (dyn_compare dbg c) (key_valid c) h0 K s LL" and sv: "stored_vals V s"
    and k: "\<forall>t. key_valid c (K t)" using inv by (auto simp: linear_inv_def)
  obtain LL' where L': "ins_inv (dyn_compare dbg c) (key_valid c) h0 K s' LL'" and sv': "stored_vals V s'"
    using linear_inv_step [OF inv step] by (auto simp: linear_inv_def)
  show ?thesis
  proof (cases "takes_effect s t")
    case False
    then show ?thesis using dyn_cmp.linear_same [OF step L L' sv sv' _ False li] k by blast
  next
    case True
    then obtain p h c' st where e: "k_pc s t = ICas p h 0 c'"
      "cas_next (k_nodes s) (predecessors c' ! 0) 0 (successors c' ! 0) p = Inr (True, st)" by (auto simp: takes_effect_def)
    have "s' = ins_goto (s\<lparr>k_nodes := st\<rparr>) t (if Suc 0 < h then ISlot p h (Suc 0) c' else IDone p h)"
      using step e by cases auto
    then show ?thesis using dyn_cmp.linear_effect [OF L sv _ li e] k by blast
  qed
qed

interpretation lin: simulation "ins_any (dyn_compare dbg c) h0 K V"
    "\<lambda>s. h0 \<noteq> Null \<and> (\<forall>t. key_valid c (K t)) \<and> (\<exists>D. s = ins_init h0 D)" "linear_inv dbg c h0 K V"
    atomic_step "linear (dyn_compare dbg c) h0 K V" "[]" for dbg c h0 K V
proof unfold_locales
  fix s s' ts
  assume st: "h0 \<noteq> Null \<and> (\<forall>t. key_valid c (K t)) \<and> (\<exists>D. s = ins_init h0 D)"
  then obtain D where D: "s = ins_init h0 D" by blast
  have i: "ins_inv (dyn_compare dbg c) (key_valid c) h0 K s (\<lambda>_. [])" using dyn_cmp.ins_inv_init st D by simp
  have "stored_vals V s" by (simp add: stored_vals_def D ins_init_def)
  then show "linear_inv dbg c h0 K V s" using st i by (auto simp: linear_inv_def)
  have "published s = {}" by (auto simp: published_def D ins_init_def)
  then show "linear (dyn_compare dbg c) h0 K V s []"
    unfolding linear_base [OF i] by (simp add: entries_def atomic_entries_def)
next
  fix s s'
  assume i: "linear_inv dbg c h0 K V s" and st: "ins_any (dyn_compare dbg c) h0 K V s s'"
  then obtain t where "ins_step (dyn_compare dbg c) h0 K V t s s'" by (auto simp: ins_any_def)
  then show "linear_inv dbg c h0 K V s'" using linear_inv_step [OF i] by blast
next
  fix s ts s'
  assume "linear_inv dbg c h0 K V s" "linear (dyn_compare dbg c) h0 K V s ts" "ins_any (dyn_compare dbg c) h0 K V s s'"
  then show "linear (dyn_compare dbg c) h0 K V s' ts \<or> (\<exists>ts'. atomic_step ts ts' \<and> linear (dyn_compare dbg c) h0 K V s' ts')"
    using linear_step unfolding ins_any_def atomic_step_def by blast
qed

text \<open>
  C8: Insertion is linearizable. For every interleaving of inserting threads there is an order of the threads that have
  linked their node such that the base level holds exactly the entries that sorted insertion, one thread after
  the other in that order, leaves; and as the run goes on the order is only extended at its end, so an
  insertion that returned before another one began comes before it.
\<close>

theorem skiplist_linearizable:
  assumes "(ins_any (dyn_compare dbg c) h0 K V)\<^sup>*\<^sup>* (ins_init h0 D) s" "(ins_any (dyn_compare dbg c) h0 K V)\<^sup>*\<^sup>* s s'"
    "h0 \<noteq> Null" "\<forall>t. key_valid c (K t)"
  shows "\<exists>ts us ns ns'. distinct (ts @ us) \<and> set ts = published s \<and> set (ts @ us) = published s' \<and>
    linked (k_nodes s) h0 0 ns \<and> entries (k_nodes s) ns = atomic_entries (dyn_compare dbg c) K V ts \<and>
    linked (k_nodes s') h0 0 ns' \<and> entries (k_nodes s') ns' = atomic_entries (dyn_compare dbg c) K V (ts @ us)"
proof -
  have st: "h0 \<noteq> Null \<and> (\<forall>t. key_valid c (K t)) \<and> (\<exists>D'. ins_init h0 D = ins_init h0 D')" using assms(3,4) by blast
  obtain ts where ts: "linear (dyn_compare dbg c) h0 K V s ts" using lin.reachable_simulated [OF assms(1) st] by blast
  obtain ts' where ts': "atomic_step\<^sup>*\<^sup>* ts ts'" "linear (dyn_compare dbg c) h0 K V s' ts'"
    using lin.steps_simulated [OF assms(2) lin.reachable_inv [OF assms(1) st] ts] by blast
  obtain us where "ts' = ts @ us" using atomic_steps_prefix [OF ts'(1)] by blast
  then show ?thesis using ts ts'(2) unfolding linear_def by blast
qed

theorem skiplist_linearizable_witness:
  "\<exists>ns. linked run_list run_head 0 ns \<and>
     entries run_list ns = atomic_entries (dyn_compare True DefaultComparator) run_key run_val [1]"
proof -
  let ?s = "run_state run_list run_seed 1 (IDone run_node 1) (ISearch GInit)"
  have p: "published ?s = {1}" using run_published by simp
  obtain ts us ns ns' where l: "distinct (ts @ us)" "set (ts @ us) = published ?s" "linked (k_nodes ?s) run_head 0 ns'"
    "entries (k_nodes ?s) ns' = atomic_entries (dyn_compare True DefaultComparator) run_key run_val (ts @ us)"
    using skiplist_linearizable [OF key_run_insert rtranclp.rtrancl_refl] by (auto simp del: dyn_compare.simps)
  have "ts @ us = [1]"
  proof (cases "ts @ us")
    case (Cons w vs)
    then show ?thesis using l(1,2) p by (cases vs) auto
  qed (use l(2) p in simp)
  then show ?thesis using l(3,4) by auto
qed

end
