(* ===== verification/Skip_List_Progress.thy ===== *)
theory Skip_List_Progress
  imports Skip_List_Solo Team_Rank
begin

text \<open>
  Insertion is lock-free. When finitely many threads insert at the same time, a swap fails only because another
  one succeeded in between, and there are finitely many swaps to be won. The rank of the whole team is, first, the
  number of swaps, allocations and bound updates the threads still have to win and, second, the multiset of the
  ranks of the threads as they would run alone: a step of the first kind lowers the first component, and every
  other step lowers the rank of its thread and leaves those of the others as they are.
\<close>

section \<open>Steps that other threads do not notice\<close>

text \<open>A store into a slot of a node that is not linked at that level yet.\<close>

lemma store_agrees:
  assumes own: "own_ok cmp h0 st mx LL k (p, h, l)" and l: "l < h" and st: "store_next st p l q = Inr st'"
    and x: "x = h0 \<or> x \<in> set (LL i)"
  shows "nxt st' i x = nxt st i x"
proof -
  have "l < node_height st p" using own l by (simp add: own_ok_def)
  then have "nxt st' = (nxt st)(l := (nxt st l)(p \<mapsto> q))"
    using store_next_view [of l st p q] st by (metis sum.inject(2))
  moreover have "i = l \<longrightarrow> x \<noteq> p" using own x by (auto simp: own_ok_def)
  ultimately show ?thesis by auto
qed

lemma agree_exact:
  assumes "\<And>i x. x = h0 \<or> x \<in> set (LL i) \<Longrightarrow> nxt st' i x = nxt st i x" "ctx_ok cmp h0 st LL k c"
  shows "exact st' c l = exact st c l"
proof -
  have "nxt st' i (predecessors c ! i) = nxt st i (predecessors c ! i)" if "i < MAX_HEAD_HEIGHT" for i
    using assms(2) that by (intro assms(1)) (auto simp: ctx_ok_def pred_ok_def)
  then show ?thesis by (auto simp: exact_def)
qed

lemma agree_fresh:
  assumes ag: "\<And>i x. x = h0 \<or> x \<in> set (LL i) \<Longrightarrow> nxt st' i x = nxt st i x" and at: "at_pc cmp h0 st mx LL k pc"
  shows "fresh h0 st' pc = fresh h0 st pc"
proof -
  have h: "nxt st' i h0 = nxt st i h0" for i by (rule ag) simp
  note ex = agree_exact [of h0 LL st' st cmp k, OF ag]
  have opt: "pred_option (\<lambda>c. exact st' c 0) o' = pred_option (\<lambda>c. exact st c 0) o'" if "pred_option (ctx_ok cmp h0 st LL k) o'" for o'
    using that ex by (cases o') auto
  show ?thesis
  proof (cases pc)
    case (IWalk g l pred cur c)
    then have "nxt st' l pred = nxt st l pred" using at by (intro ag) (auto simp: pred_ok_def)
    then show ?thesis using IWalk at ex by simp
  qed (use at ex opt h in simp_all)
qed

lemma path_agree: "path f p xs q \<Longrightarrow> (\<And>x. x \<in> set xs \<Longrightarrow> g x = f x) \<Longrightarrow> path g p xs q"
  by (induction xs arbitrary: p) auto

lemma agree_rank:
  assumes ag: "\<And>i x. x = h0 \<or> x \<in> set (LL i) \<Longrightarrow> nxt st' i x = nxt st i x" and at: "at_pc cmp h0 st mx LL k pc"
    and lev: "levels_ok cmp valid h0 st mx LL"
  shows "pc_rank h0 st' mx pc = pc_rank h0 st mx pc"
proof -
  have "ahead st' h0 l cur = ahead st h0 l cur" if "l < MAX_HEAD_HEIGHT" for l cur
  proof -
    have k: "linked st h0 l (LL l)" using levels_okD(7) [OF lev that] .
    then have "linked st' h0 l (LL l)" unfolding linked_def by (rule path_agree) (use ag in auto)
    then show ?thesis using k by (simp add: ahead_def linked_unique)
  qed
  then show ?thesis using at by (cases pc) simp_all
qed

section \<open>The rank of a team\<close>

text \<open>What a thread still has to win: the bound and a node, then a swap for every level.\<close>

fun wins_left :: "ins_pc \<Rightarrow> nat" where
  "wins_left (IAlloc o' h) = MAX_HEAD_HEIGHT + 1"
| "wins_left IFull = 0"
| "wins_left pc = (case owned pc of None \<Rightarrow> MAX_HEAD_HEIGHT + 2 | Some (p, h, n) \<Rightarrow> h - n)"

definition team_rank :: "ptr \<Rightarrow> nat set \<Rightarrow> ins_state \<Rightarrow> nat \<times> (nat \<times> (nat \<times> nat) \<times> nat \<times> nat \<times> nat) multiset" where
  "team_rank h0 T s = team_measure T 0 (\<lambda>t. wins_left (k_pc s t)) (\<lambda>t. ins_rank h0 t s)"

definition team_step ::
    "compare \<Rightarrow> ptr \<Rightarrow> (nat \<Rightarrow> bytes) \<Rightarrow> (nat \<Rightarrow> bytes) \<Rightarrow> nat set \<Rightarrow> ins_state \<Rightarrow> ins_state \<Rightarrow> bool" where
  "team_step cmp h0 K V T s s' \<longleftrightarrow> (\<exists>t \<in> T. solo_step cmp h0 K V t s s')"

lemma step_others: "ins_step cmp h0 K V t s s' \<Longrightarrow> u \<noteq> t \<Longrightarrow> k_pc s' u = k_pc s u"
  by (cases rule: ins_step.cases) auto

context key_comparator
begin

lemma step_wins:
  assumes step: "ins_step cmp h0 K V t s s'" and inv: "ins_inv cmp valid h0 K s LL"
  shows "wins_left (k_pc s' t) < wins_left (k_pc s t) \<or>
    wins_left (k_pc s' t) = wins_left (k_pc s t) \<and> (\<forall>u. u \<noteq> t \<longrightarrow> ins_rank h0 u s' = ins_rank h0 u s)"
  using step
proof cases
  case (new_node o' h p)
  have "h \<le> MAX_HEAD_HEIGHT" using ins_inv_at [OF inv, of t] new_node(2) levels_okD(3) [OF ins_inv_levels [OF inv]] by simp
  then show ?thesis using new_node by (auto split: option.splits)
next
  case (swap_ok p h l c st)
  then have "l < h" using ins_inv_at [OF inv, of t] by simp
  then show ?thesis using swap_ok by auto
next
  case (store_slot p h l c st)
  have own: "own_ok cmp h0 (k_nodes s) (k_max s) LL (K t) (p, h, l)" using ins_inv_own [OF inv, of t] store_slot(2) by simp
  have "l < h" using ins_inv_at [OF inv, of t] store_slot(2) by simp
  note ag = store_agrees [OF own this store_slot(4)]
  have "ins_rank h0 u s' = ins_rank h0 u s" if "u \<noteq> t" for u
    using agree_fresh [OF ag ins_inv_at [OF inv]] agree_rank [OF ag ins_inv_at [OF inv] ins_inv_levels [OF inv]] store_slot(1) that
    by (simp add: ins_rank_def)
  then show ?thesis using store_slot(1,2) by simp
qed (simp_all add: ins_rank_def)

lemma team_step_rank:
  assumes "team_step cmp h0 K V T s s'" "ins_inv cmp valid h0 K s LL" "finite T"
  shows "team_rank h0 T s' < team_rank h0 T s"
proof -
  obtain t where t: "t \<in> T" "solo_step cmp h0 K V t s s'" using assms(1) by (auto simp: team_step_def)
  then have st: "ins_step cmp h0 K V t s s'" by (simp add: solo_step_def)
  show ?thesis
    unfolding team_rank_def
    by (rule team_measure_less [OF assms(3) t(1)])
      (use step_others [OF st] step_wins [OF st assms(2)] solo_rank [OF t(2) assms(2)] in auto)
qed

end

interpretation team_sys: terminating_system "team_step (dyn_compare dbg c) h0 K V T"
    "\<lambda>s. finite T \<and> h0 \<noteq> Null \<and> (\<forall>t. key_valid c (K t)) \<and> (\<exists>D. (ins_any (dyn_compare dbg c) h0 K V)\<^sup>*\<^sup>* (ins_init h0 D) s)"
    "\<lambda>s. finite T \<and> solo_inv dbg c h0 K s" "team_rank h0 T" for dbg c h0 K V T
proof unfold_locales
  show "finite T \<and> solo_inv dbg c h0 K s"
    if "finite T \<and> h0 \<noteq> Null \<and> (\<forall>t. key_valid c (K t)) \<and> (\<exists>D. (ins_any (dyn_compare dbg c) h0 K V)\<^sup>*\<^sup>* (ins_init h0 D) s)" for s
    using that solo_sys.start_inv by blast
  show "finite T \<and> solo_inv dbg c h0 K s'"
    if "finite T \<and> solo_inv dbg c h0 K s" "team_step (dyn_compare dbg c) h0 K V T s s'" for s s'
    using that solo_sys.step_inv unfolding team_step_def by blast
  show "team_rank h0 T s' < team_rank h0 T s"
    if "finite T \<and> solo_inv dbg c h0 K s" "team_step (dyn_compare dbg c) h0 K V T s s'" for s s'
    using that dyn_cmp.team_step_rank unfolding solo_inv_def by blast
qed

text \<open>The steps of a team for which the arena has room.\<close>

definition team_room_step ::
    "compare \<Rightarrow> ptr \<Rightarrow> (nat \<Rightarrow> bytes) \<Rightarrow> (nat \<Rightarrow> bytes) \<Rightarrow> nat set \<Rightarrow> ins_state \<Rightarrow> ins_state \<Rightarrow> bool" where
  "team_room_step cmp h0 K V T s s' \<longleftrightarrow> (\<exists>t \<in> T. room_step cmp h0 K V t s s')"

lemma team_room_step: "team_room_step cmp h0 K V T s s' \<Longrightarrow> team_step cmp h0 K V T s s'"
  by (auto simp: team_room_step_def team_step_def room_step_def)

lemma team_room_kept: "team_room_step cmp h0 K V T s s' \<Longrightarrow> k_pc s u \<noteq> IFull \<Longrightarrow> k_pc s' u \<noteq> IFull"
  unfolding team_room_step_def room_step_def solo_step_def using step_others by metis

interpretation team_room_sys: terminating_system "team_room_step (dyn_compare dbg c) h0 K V T"
    "\<lambda>s. finite T \<and> h0 \<noteq> Null \<and> (\<forall>t. key_valid c (K t)) \<and>
       (\<exists>D. (ins_any (dyn_compare dbg c) h0 K V)\<^sup>*\<^sup>* (ins_init h0 D) s) \<and> (\<forall>t \<in> T. k_pc s t \<noteq> IFull)"
    "\<lambda>s. (finite T \<and> solo_inv dbg c h0 K s) \<and> (\<forall>t \<in> T. k_pc s t \<noteq> IFull)" "team_rank h0 T" for dbg c h0 K V T
proof unfold_locales
  show "(finite T \<and> solo_inv dbg c h0 K s) \<and> (\<forall>t \<in> T. k_pc s t \<noteq> IFull)"
    if "finite T \<and> h0 \<noteq> Null \<and> (\<forall>t. key_valid c (K t)) \<and>
       (\<exists>D. (ins_any (dyn_compare dbg c) h0 K V)\<^sup>*\<^sup>* (ins_init h0 D) s) \<and> (\<forall>t \<in> T. k_pc s t \<noteq> IFull)" for s
    using that team_sys.start_inv by blast
  fix s s' assume i: "(finite T \<and> solo_inv dbg c h0 K s) \<and> (\<forall>t \<in> T. k_pc s t \<noteq> IFull)"
    and r: "team_room_step (dyn_compare dbg c) h0 K V T s s'"
  show "(finite T \<and> solo_inv dbg c h0 K s') \<and> (\<forall>t \<in> T. k_pc s' t \<noteq> IFull)"
    using team_sys.step_inv [OF conjunct1 [OF i] team_room_step [OF r]] team_room_kept [OF r] conjunct2 [OF i] by simp
  show "team_rank h0 T s' < team_rank h0 T s" by (rule team_sys.step_rank [OF conjunct1 [OF i] team_room_step [OF r]])
qed

text \<open>
  C10: Insertion is lock-free. From every state the threads can reach, let any finitely many of them go on, in any
  interleaving: every sequence of their steps that change the state is finite, and as long as one of them has neither
  returned nor panicked because the arena was full, some such step can be taken that is not a panic. So however they
  are scheduled all of them finish, in finitely many steps altogether, whatever the remaining threads were doing when
  they stopped, and all of them return if the arena has room.
\<close>

theorem skiplist_insert_lock_free:
  assumes "(ins_any (dyn_compare dbg c) h0 K V)\<^sup>*\<^sup>* (ins_init h0 D) s" "h0 \<noteq> Null" "\<forall>t. key_valid c (K t)"
    "finite T" "\<forall>t \<in> T. length (K t) < u16_limit \<and> length (V t) < u32_limit"
  shows "(\<forall>f. f 0 = s \<longrightarrow> (\<exists>i. \<not> team_step (dyn_compare dbg c) h0 K V T (f i) (f (Suc i)))) \<and>
    (\<forall>s'. (team_step (dyn_compare dbg c) h0 K V T)\<^sup>*\<^sup>* s s' \<longrightarrow>
       (\<forall>t \<in> T. (\<exists>p h. k_pc s' t = IDone p h) \<or> k_pc s' t = IFull) \<or>
       (\<exists>y. team_step (dyn_compare dbg c) h0 K V T s' y \<and> (\<forall>t \<in> T. k_pc y t = IFull \<longrightarrow> k_pc s' t = IFull)))"
proof -
  have inv: "finite T \<and> solo_inv dbg c h0 K s" using team_sys.start_inv assms(1-4) by blast
  have "\<exists>y. team_room_step (dyn_compare dbg c) h0 K V T s' y"
    if "(team_step (dyn_compare dbg c) h0 K V T)\<^sup>*\<^sup>* s s'" "t \<in> T" "\<forall>p h. k_pc s' t \<noteq> IDone p h" "k_pc s' t \<noteq> IFull" for s' t
  proof -
    have "length (K t) < u16_limit" "length (V t) < u32_limit" "key_valid c (K t)" using assms(3,5) that(2) by blast+
    then have "\<exists>y. room_step (dyn_compare dbg c) h0 K V t s' y"
      using team_sys.inv_steps [OF that(1) inv] dyn_cmp.solo_enabled that(3,4) unfolding solo_inv_def room_step_def by blast
    then show ?thesis using that(2) unfolding team_room_step_def by blast
  qed
  then have "(\<forall>t \<in> T. (\<exists>p h. k_pc s' t = IDone p h) \<or> k_pc s' t = IFull) \<or>
       (\<exists>y. team_step (dyn_compare dbg c) h0 K V T s' y \<and> (\<forall>t \<in> T. k_pc y t = IFull \<longrightarrow> k_pc s' t = IFull))"
    if "(team_step (dyn_compare dbg c) h0 K V T)\<^sup>*\<^sup>* s s'" for s' using that team_room_step team_room_kept by metis
  then show ?thesis using team_sys.no_infinite_run [of T dbg c h0 K _ V] inv by blast
qed

theorem skiplist_insert_lock_free_witness:
  "\<exists>s'. (team_step (dyn_compare True DefaultComparator) run_head run_key run_val {0, 1})\<^sup>*\<^sup>*
     (run_state run_list run_seed 1 (IDone run_node 1) (ISearch GInit)) s' \<and>
     (\<exists>p h. k_pc s' 0 = IDone p h) \<and> (\<exists>p h. k_pc s' 1 = IDone p h)"
proof -
  let ?T = "{0, 1} :: nat set" let ?s = "run_state run_list run_seed 1 (IDone run_node 1) (ISearch GInit)"
  let ?step = "team_step (dyn_compare True DefaultComparator) run_head run_key run_val ?T"
  have h: "run_head \<noteq> Null" "\<forall>t. key_valid DefaultComparator (run_key t)"
    "\<forall>t \<in> ?T. length (run_key t) < u16_limit \<and> length (run_val t) < u32_limit" "finite ?T" by simp_all
  let ?room = "team_room_step (dyn_compare True DefaultComparator) run_head run_key run_val ?T"
  have nf: "\<forall>t \<in> ?T. k_pc ?s t \<noteq> IFull" by simp
  then have "(finite ?T \<and> solo_inv True DefaultComparator run_head run_key ?s) \<and> (\<forall>t \<in> ?T. k_pc ?s t \<noteq> IFull)"
    using team_sys.start_inv [of ?T run_head DefaultComparator run_key True run_val ?s] key_run_insert h by blast
  from team_room_sys.runs_to_end [OF this] obtain s' where s': "?room\<^sup>*\<^sup>* ?s s'" "\<forall>t \<in> ?T. k_pc s' t \<noteq> IFull"
    "\<forall>y. \<not> ?room s' y" by blast
  have r: "?step\<^sup>*\<^sup>* ?s s'" using s'(1) team_room_step by (rule mono_rtranclp [rule_format, rotated])
  have ns: "\<not> (?step s' y \<and> (\<forall>t \<in> ?T. k_pc y t = IFull \<longrightarrow> k_pc s' t = IFull))" for y
    using s'(2,3) unfolding team_step_def team_room_step_def room_step_def by blast
  from conjunct2 [OF skiplist_insert_lock_free [OF key_run_insert h(1,2,4,3)], rule_format, OF r] ns s'(2)
  have "\<forall>t \<in> ?T. \<exists>p h. k_pc s' t = IDone p h" by blast
  then show ?thesis using r by (intro exI [of _ s']) simp
qed

end
