(* ===== verification/Memtable_Handle.thy ===== *)
theory Memtable_Handle
  imports Memtable_Versions Transition_Systems
begin

text \<open>
  The handles of \<^verbatim>\<open>memtable/memtable.rs\<close>: \<^verbatim>\<open>Memtable<S>\<close> and \<^verbatim>\<open>ReadableMemtable\<close> share one \<^verbatim>\<open>MemtableInner\<close> through
  an \<^verbatim>\<open>Arc\<close>. Tables live in a store indexed by the address of their counter. \<open>arc_clone\<close> and \<open>arc_drop\<close> are the
  standard library's counting; what is shown is what the repository's handles make of it: a clone or a view stands
  for the same table, so an insertion through any handle is read through every other one.
\<close>

section \<open>Handles and their store\<close>

record tables =
  ts_inner :: "nat \<Rightarrow> memtable option"
  ts_strong :: "nat \<Rightarrow> nat"
  ts_fresh :: nat

datatype handle = Handle memtable_state nat | Readable nat

fun inner_of :: "handle \<Rightarrow> nat" where
  "inner_of (Handle s a) = a"
| "inner_of (Readable a) = a"

text \<open>\<^verbatim>\<open>Arc::clone\<close> aborts when the counter passes half of its range.\<close>

definition arc_limit :: nat where "arc_limit = 2 ^ 63 - 1"

definition arc_clone :: "tables \<Rightarrow> nat \<Rightarrow> tables res" where
  "arc_clone st a = (case ts_inner st a of None \<Rightarrow> Inl InvalidAccess
     | Some m \<Rightarrow> if arc_limit < ts_strong st a then Inl ExplicitPanic
                 else Inr (st\<lparr>ts_strong := (ts_strong st)(a := ts_strong st a + 1)\<rparr>))"

definition arc_drop :: "tables \<Rightarrow> nat \<Rightarrow> tables res" where
  "arc_drop st a = (case ts_inner st a of None \<Rightarrow> Inl InvalidAccess
     | Some m \<Rightarrow> Inr (st\<lparr>ts_strong := (ts_strong st)(a := ts_strong st a - 1),
                        ts_inner := (if ts_strong st a = 1 then (ts_inner st)(a := None) else ts_inner st)\<rparr>))"

definition table_new ::
    "bool \<Rightarrow> tables \<Rightarrow> u64 \<Rightarrow> arena_policy \<Rightarrow> allocator \<Rightarrow> comparator \<Rightarrow> (handle \<times> tables) comp" where
  "table_new dbg st mid pol alc cmp = cbind (memtable_new dbg mid pol alc cmp) (\<lambda>m.
     ret (Handle Mutable (ts_fresh st),
          st\<lparr>ts_inner := (ts_inner st)(ts_fresh st \<mapsto> m), ts_strong := (ts_strong st)(ts_fresh st := 1),
             ts_fresh := ts_fresh st + 1\<rparr>))"

fun table_clone :: "tables \<Rightarrow> handle \<Rightarrow> (handle \<times> tables) res" where
  "table_clone st h = rbind (arc_clone st (inner_of h)) (\<lambda>st'. Inr (h, st'))"

definition readable_memtable :: "tables \<Rightarrow> handle \<Rightarrow> (handle \<times> tables) res" where
  "readable_memtable st h = rbind (arc_clone st (inner_of h)) (\<lambda>st'. Inr (Readable (inner_of h), st'))"

definition with_inner :: "tables \<Rightarrow> handle \<Rightarrow> (memtable \<Rightarrow> 'a comp) \<Rightarrow> 'a comp" where
  "with_inner st h f = (case ts_inner st (inner_of h) of None \<Rightarrow> Some (Inl InvalidAccess) | Some m \<Rightarrow> f m)"

definition table_insert :: "bool \<Rightarrow> tables \<Rightarrow> handle \<Rightarrow> bytes \<Rightarrow> bytes \<Rightarrow> tables comp" where
  "table_insert dbg st h key val = with_inner st h (\<lambda>m. cbind (mt_insert dbg m key val) (\<lambda>m'.
     ret (st\<lparr>ts_inner := (ts_inner st)(inner_of h \<mapsto> m')\<rparr>)))"

definition table_get :: "bool \<Rightarrow> tables \<Rightarrow> handle \<Rightarrow> bytes \<Rightarrow> mem_return comp" where
  "table_get dbg st h key = with_inner st h (\<lambda>m. mt_get dbg m key)"

definition table_iter :: "tables \<Rightarrow> handle \<Rightarrow> memtable_iterator comp" where
  "table_iter st h = with_inner st h (\<lambda>m. Some (mt_iter m))"

definition encode_key :: "tables \<Rightarrow> handle \<Rightarrow> unit res" where
  "encode_key st h = Inl TodoPanic"

text \<open>
  What code that holds handles can do. A live handle carries the address of the table that \<^verbatim>\<open>Memtable::new\<close> made for it
  or for the handle it was derived from, and \<open>w_log\<close> records for each table made the entries that were inserted
  through handles descending from it, in order. Clients insert keys that the comparator of the table accepts and
  whose length, like that of the value, fits the fields of a node; an insertion that panics is not a step.
\<close>

record world =
  w_tables :: tables
  w_live :: "(handle \<times> nat) list"
  w_log :: "nat \<Rightarrow> entry list"
  w_cmp :: "nat \<Rightarrow> comparator"

inductive handle_step :: "bool \<Rightarrow> world \<Rightarrow> world \<Rightarrow> bool" for dbg where
  make: "table_new dbg (w_tables w) mid pol System cmp = ret (h, st) \<Longrightarrow> policy_ok pol \<Longrightarrow> r = inner_of h \<Longrightarrow>
    handle_step dbg w (w\<lparr>w_tables := st, w_live := (h, r) # w_live w, w_log := (w_log w)(r := []), w_cmp := (w_cmp w)(r := cmp)\<rparr>)"
| clone: "(h, r) \<in> set (w_live w) \<Longrightarrow> h = Handle s a \<Longrightarrow> table_clone (w_tables w) h = Inr (h', st) \<Longrightarrow>
    handle_step dbg w (w\<lparr>w_tables := st, w_live := (h', r) # w_live w\<rparr>)"
| view: "(h, r) \<in> set (w_live w) \<Longrightarrow> h = Handle Mutable a \<Longrightarrow> readable_memtable (w_tables w) h = Inr (h', st) \<Longrightarrow>
    handle_step dbg w (w\<lparr>w_tables := st, w_live := (h', r) # w_live w\<rparr>)"
| put: "(h, r) \<in> set (w_live w) \<Longrightarrow> h = Handle Mutable a \<Longrightarrow> key_valid (w_cmp w r) key \<Longrightarrow> small_entry key val \<Longrightarrow>
    table_insert dbg (w_tables w) h key val = ret st \<Longrightarrow>
    handle_step dbg w (w\<lparr>w_tables := st, w_log := (w_log w)(r := w_log w r @ [(key, val)])\<rparr>)"
| discard: "w_live w = as @ (h, r) # bs \<Longrightarrow> arc_drop (w_tables w) (inner_of h) = Inr st \<Longrightarrow>
    handle_step dbg w (w\<lparr>w_tables := st, w_live := as @ bs\<rparr>)"

definition no_tables :: world where
  "no_tables = \<lparr>w_tables = \<lparr>ts_inner = Map.empty, ts_strong = (\<lambda>_. 0), ts_fresh = 0\<rparr>, w_live = [], w_log = (\<lambda>_. []),
     w_cmp = (\<lambda>_. DefaultComparator)\<rparr>"

section \<open>All handles of a table read what any of them inserted\<close>

text \<open>The entries of a table after a sequence of insertions.\<close>

definition logged :: "bool \<Rightarrow> comparator \<Rightarrow> entry list \<Rightarrow> entry list" where
  "logged dbg c log = foldl (\<lambda>es (k, v). ins_entry (dyn_compare dbg c) k v es) [] log"

definition holders :: "world \<Rightarrow> nat \<Rightarrow> nat" where
  "holders w a = length (filter (\<lambda>(h, r). inner_of h = a) (w_live w))"

definition handle_ok :: "bool \<Rightarrow> world \<Rightarrow> handle \<Rightarrow> nat \<Rightarrow> bool" where
  "handle_ok dbg w h r \<longleftrightarrow> inner_of h = r \<and> r < ts_fresh (w_tables w) \<and>
     (\<exists>m. ts_inner (w_tables w) r = Some m \<and> mt_rep dbg (w_cmp w r) m (logged dbg (w_cmp w r) (w_log w r)))"

definition world_ok :: "bool \<Rightarrow> world \<Rightarrow> bool" where
  "world_ok dbg w \<longleftrightarrow> (\<forall>h r. (h, r) \<in> set (w_live w) \<longrightarrow> handle_ok dbg w h r) \<and>
     (\<forall>a. holders w a \<noteq> 0 \<longrightarrow> ts_strong (w_tables w) a = holders w a)"

lemma world_okD:
  assumes "world_ok dbg w" "(h, r) \<in> set (w_live w)"
  shows "handle_ok dbg w h r" "inner_of h = r" "ts_strong (w_tables w) r = holders w r" "holders w r \<noteq> 0"
proof -
  show h: "handle_ok dbg w h r" using assms unfolding world_ok_def by blast
  then show i: "inner_of h = r" unfolding handle_ok_def by (rule conjunct1)
  then show "holders w r \<noteq> 0" using assms(2) by (auto simp: holders_def filter_empty_conv)
  then show "ts_strong (w_tables w) r = holders w r" using assms(1) unfolding world_ok_def by blast
qed

lemma memtable_new_rep:
  assumes "memtable_new dbg mid pol System c = ret m" "policy_ok pol"
  shows "mt_rep dbg c m []"
proof -
  obtain a where a: "arena_new pol System = Inr a" "arena_inv a" using arena_new_inv [OF assms(2)] by blast
  then obtain sl h where "skiplist_new dbg (empty_heap a) = ret (sl, h)" "mt_skiplist m = sl" "mt_heap m = h" "mt_comparator m = c"
    using assms(1) by (auto simp: memtable_new_def cbind_eq_ret_iff)
  then show ?thesis
    using skiplist_new_ok [OF empty_heap_ok [OF a(2)], of dbg "dyn_compare dbg c" "key_valid c"] by (auto simp: mt_rep_def ret_def)
qed

text \<open>A handle derived from a live one.\<close>

lemma world_ok_cloned:
  assumes ok: "world_ok dbg w" and h: "(h, r) \<in> set (w_live w)" and c: "arc_clone (w_tables w) (inner_of h) = Inr st"
    and i: "inner_of h' = inner_of h"
  shows "world_ok dbg (w\<lparr>w_tables := st, w_live := (h', r) # w_live w\<rparr>)"
proof -
  note d = world_okD [OF ok h]
  have st: "st = (w_tables w)\<lparr>ts_strong := (ts_strong (w_tables w))(r := ts_strong (w_tables w) r + 1)\<rparr>"
    using c d(2) by (auto simp: arc_clone_def split: option.splits if_splits)
  let ?w = "w\<lparr>w_tables := st, w_live := (h', r) # w_live w\<rparr>"
  have same: "handle_ok dbg ?w g q \<longleftrightarrow> handle_ok dbg w g q" for g q by (simp add: handle_ok_def st)
  have "handle_ok dbg w h' r" using d(1) i by (simp add: handle_ok_def)
  then have "\<forall>g q. (g, q) \<in> set (w_live ?w) \<longrightarrow> handle_ok dbg ?w g q" using ok unfolding same world_ok_def by auto
  moreover have "ts_strong (w_tables ?w) a = holders ?w a" if "holders ?w a \<noteq> 0" for a
    using that ok d(2-4) i unfolding world_ok_def by (cases "a = r") (auto simp: st holders_def)
  ultimately show ?thesis unfolding world_ok_def by blast
qed

lemma world_ok_step:
  assumes "handle_step dbg w w'" "world_ok dbg w"
  shows "world_ok dbg w'"
  using assms(1)
proof cases
  case (make mid pol cmp h st r)
  then obtain m where m: "memtable_new dbg mid pol System cmp = ret m" "h = Handle Mutable (ts_fresh (w_tables w))"
    "st = (w_tables w)\<lparr>ts_inner := (ts_inner (w_tables w))(r \<mapsto> m), ts_strong := (ts_strong (w_tables w))(r := 1),
        ts_fresh := ts_fresh (w_tables w) + 1\<rparr>" "r = ts_fresh (w_tables w)"
    by (auto simp: table_new_def cbind_eq_ret_iff)
  have old: "handle_ok dbg w g q" if "(g, q) \<in> set (w_live w)" for g q by (rule world_okD(1) [OF assms(2) that])
  have lt: "q < r" "inner_of g = q" if "(g, q) \<in> set (w_live w)" for g q using old [OF that] m(4) by (simp_all add: handle_ok_def)
  then have "holders w r = 0" by (fastforce simp: holders_def filter_empty_conv)
  then have "ts_strong (w_tables w') a = holders w' a" if "holders w' a \<noteq> 0" for a
    using that assms(2) m(2,4) unfolding world_ok_def by (auto simp: make(1) m(3) holders_def)
  moreover have "handle_ok dbg w' h r"
    using memtable_new_rep [OF m(1) make(3)] m(2,4) by (simp add: handle_ok_def make(1) m(3) logged_def)
  moreover have "handle_ok dbg w' g q" if "(g, q) \<in> set (w_live w)" for g q
    using old [OF that] lt(1) [OF that] by (auto simp: handle_ok_def make(1) m(3))
  ultimately show ?thesis unfolding world_ok_def by (auto simp: make(1))
next
  case (clone h r s a h' st)
  then have "arc_clone (w_tables w) (inner_of h) = Inr st" "h' = h" by (auto simp: rbind_eq_Inr_iff)
  then show ?thesis using world_ok_cloned [OF assms(2) clone(2)] clone(1) by simp
next
  case (view h r a h' st)
  then have "arc_clone (w_tables w) (inner_of h) = Inr st" "inner_of h' = inner_of h"
    by (auto simp: readable_memtable_def rbind_eq_Inr_iff)
  then show ?thesis using world_ok_cloned [OF assms(2) view(2)] view(1) by simp
next
  case (put h r a key val st)
  note d = world_okD [OF assms(2) put(2)]
  obtain m where m: "ts_inner (w_tables w) r = Some m" "mt_rep dbg (w_cmp w r) m (logged dbg (w_cmp w r) (w_log w r))"
    using d(1) unfolding handle_ok_def by blast
  obtain m' where m': "mt_insert dbg m key val = ret m'" "st = (w_tables w)\<lparr>ts_inner := (ts_inner (w_tables w))(r \<mapsto> m')\<rparr>"
    using put(6) m(1) d(2) by (auto simp: table_insert_def with_inner_def cbind_eq_ret_iff)
  have r: "mt_rep dbg (w_cmp w r) m' (logged dbg (w_cmp w r) (w_log w r @ [(key, val)]))"
    using mt.put_rep [OF m(2) put(4,5) m'(1)] by (simp add: logged_def)
  have "handle_ok dbg w' g q" if "handle_ok dbg w g q" for g q
    using that r by (cases "q = r") (simp_all add: handle_ok_def put(1) m'(2))
  then show ?thesis using assms(2) unfolding world_ok_def by (simp add: put(1) m'(2) holders_def)
next
  case (discard as h r bs st)
  have h: "(h, r) \<in> set (w_live w)" using discard(2) by simp
  note d = world_okD [OF assms(2) h]
  have n: "holders w a = holders w' a + (if a = r then 1 else 0)" for a
    using d(2) by (auto simp: holders_def discard(1,2))
  have st: "st = (w_tables w)\<lparr>ts_strong := (ts_strong (w_tables w))(r := ts_strong (w_tables w) r - 1),
      ts_inner := (if ts_strong (w_tables w) r = 1 then (ts_inner (w_tables w))(r := None) else ts_inner (w_tables w))\<rparr>"
    using discard(3) d(2) by (auto simp: arc_drop_def split: option.splits)
  have "handle_ok dbg w' g q" if g: "(g, q) \<in> set (as @ bs)" for g q
  proof -
    have o': "handle_ok dbg w g q" using g by (intro world_okD(1) [OF assms(2)]) (auto simp: discard(2))
    then have "holders w' q \<noteq> 0" using g by (auto simp: handle_ok_def holders_def filter_empty_conv discard(1))
    then have "ts_inner st q = ts_inner (w_tables w) q" using d(3) n [of r] by (auto simp: st)
    then show ?thesis using o' by (simp add: handle_ok_def discard(1) st)
  qed
  moreover have "ts_strong st a = holders w' a" if "holders w' a \<noteq> 0" for a
    using that n [of a] d(3) assms(2) unfolding world_ok_def by (cases "a = r") (auto simp: st)
  ultimately show ?thesis unfolding world_ok_def by (simp add: discard(1))
qed

interpretation handle_sys: invariant_system "handle_step dbg" "\<lambda>w. w = no_tables" "world_ok dbg" for dbg
proof unfold_locales
  show "world_ok dbg w" if "w = no_tables" for w using that by (simp add: world_ok_def no_tables_def holders_def)
qed (rule world_ok_step)

text \<open>
  C26: All handles of a table read what any of them inserted. Whatever sequence of creations, clones, readable views,
  insertions and drops a program performs, the table behind every live handle is there, and its entries are, in
  key order and newest first among equal keys, exactly those inserted through the handles that descend from the
  same \<^verbatim>\<open>Memtable::new\<close>, dropped ones included, and through no other. So \<^verbatim>\<open>get\<close> through a handle answers from the
  first of those entries that is not below the key, or with \<^verbatim>\<open>NotFound\<close> when there is none.
\<close>

theorem memtable_handles_share:
  assumes "(handle_step dbg)\<^sup>*\<^sup>* no_tables w" "(h, r) \<in> set (w_live w)" "key_valid (w_cmp w r) key"
  shows "(\<exists>m. ts_inner (w_tables w) (inner_of h) = Some m \<and> mt_rep dbg (w_cmp w r) m (logged dbg (w_cmp w r) (w_log w r))) \<and>
    mset (logged dbg (w_cmp w r) (w_log w r)) = mset (w_log w r) \<and>
    table_get dbg (w_tables w) h key =
      (case filter (\<lambda>e. dyn_compare dbg (w_cmp w r) (fst e) key \<noteq> Inr Less) (logged dbg (w_cmp w r) (w_log w r)) of
         [] \<Rightarrow> ret NotFound | e # _ \<Rightarrow> Some (get_entry dbg key (fst e) (snd e)))"
proof -
  have "world_ok dbg w" using handle_sys.reachable_inv [OF assms(1)] by simp
  from world_okD(1) [OF this assms(2)] obtain m where m: "inner_of h = r" "ts_inner (w_tables w) r = Some m"
    "mt_rep dbg (w_cmp w r) m (logged dbg (w_cmp w r) (w_log w r))" unfolding handle_ok_def by blast
  note f = mt.find_filter [OF m(3) assms(3)]
  have "mset (logged dbg (w_cmp w r) (w_log w r)) = mset (w_log w r)" by (simp add: logged_def mset_foldl_ins)
  moreover have "table_get dbg (w_tables w) h key =
      (case filter (\<lambda>e. dyn_compare dbg (w_cmp w r) (fst e) key \<noteq> Inr Less) (logged dbg (w_cmp w r) (w_log w r)) of
         [] \<Rightarrow> ret NotFound | e # _ \<Rightarrow> Some (get_entry dbg key (fst e) (snd e)))"
    using m(1,2) by (simp add: table_get_def with_inner_def mt_get_def f split: list.splits prod.splits)
  ultimately show ?thesis using m by blast
qed

text \<open>A handle is cloned, the clone inserts and is dropped, and the first handle reads.\<close>

theorem memtable_handles_share_witness:
  "\<exists>w. (handle_step True)\<^sup>*\<^sup>* no_tables w \<and> w_live w = [(Handle Mutable 0, 0)] \<and>
     table_get True (w_tables w) (Handle Mutable 0) (encoded_key [7] 5 Max) = ret (Value [11])"
proof -
  let ?h = "Handle Mutable 0" and ?k = "encoded_key [7] 1 Put" and ?c = InternalKeyComparator
  obtain m where m: "memtable_new True 0 wit_policy System ?c = ret m" "mt_versions True m []"
    "policy (h_arena (mt_heap m)) = wit_policy" "blocks_left (mt_heap m) 6"
    using wit_memtable by blast
  have rep: "mt_rep True ?c m []" using m(2) by (simp add: mt_versions_def)
  have kv: "key_valid ?c ?k" "small_entry ?k [11]" "fits_and_room (mt_heap m) ?k [11]"
    using m(3,4) by (simp_all add: key_valid_fun small_entry_def fits_and_room_def room_def blocks_left_def wit_policy_def)
  obtain m' where m': "mt_insert True m ?k [11] = ret m'" using mt_insert_ok [OF rep kv(1,2)] kv(3) by blast
  let ?t = "\<lambda>n m. \<lparr>ts_inner = [0 \<mapsto> m], ts_strong = (\<lambda>_. 0)(0 := n), ts_fresh = 1\<rparr>"
  let ?w = "\<lambda>n m l e. \<lparr>w_tables = ?t n m, w_live = l, w_log = (\<lambda>_. [])(0 := e), w_cmp = (\<lambda>_. DefaultComparator)(0 := ?c)\<rparr>"
  have "table_new True (w_tables no_tables) 0 wit_policy System ?c = ret (?h, ?t 1 m)"
    using m(1) by (simp add: table_new_def no_tables_def)
  then have 1: "handle_step True no_tables (?w 1 m [(?h, 0)] [])"
    using make [of True no_tables 0 wit_policy ?c ?h "?t 1 m" 0] by (simp add: no_tables_def wit_policy_def policy_ok_def)
  have "table_clone (?t 1 m) ?h = Inr (?h, ?t 2 m)" by (simp add: arc_clone_def arc_limit_def rbind_def, simp add: numeral_2_eq_2)
  then have 2: "handle_step True (?w 1 m [(?h, 0)] []) (?w 2 m [(?h, 0), (?h, 0)] [])"
    using clone [of ?h 0 "?w 1 m [(?h, 0)] []" Mutable 0 ?h "?t 2 m" True] by simp
  have "table_insert True (?t 2 m) ?h ?k [11] = ret (?t 2 m')" using m' by (simp add: table_insert_def with_inner_def)
  then have 3: "handle_step True (?w 2 m [(?h, 0), (?h, 0)] []) (?w 2 m' [(?h, 0), (?h, 0)] [(?k, [11])])"
    using put [of ?h 0 "?w 2 m [(?h, 0), (?h, 0)] []" 0 ?k "[11]" True "?t 2 m'"] kv(1,2) by simp
  have "arc_drop (?t 2 m') (inner_of ?h) = Inr (?t 1 m')" by (simp add: arc_drop_def)
  then have 4: "handle_step True (?w 2 m' [(?h, 0), (?h, 0)] [(?k, [11])]) (?w 1 m' [(?h, 0)] [(?k, [11])])"
    using discard [of "?w 2 m' [(?h, 0), (?h, 0)] [(?k, [11])]" "[]" ?h 0 "[(?h, 0)]" "?t 1 m'" True] by simp
  define w where "w = ?w 1 m' [(?h, 0)] [(?k, [11])]"
  have r: "(handle_step True)\<^sup>*\<^sup>* no_tables w" unfolding w_def using 1 2 3 4 by (meson converse_rtranclp_into_rtranclp rtranclp.rtrancl_refl)
  have w: "(?h, 0) \<in> set (w_live w)" "w_cmp w 0 = ?c" "w_log w 0 = [(?k, [11])]" by (simp_all add: w_def)
  have l: "logged True ?c [(?k, [11])] = [(?k, [11])]" by (simp add: logged_def ins_entry_def)
  have c: "dyn_compare True ?c ?k (encoded_key [7] 5 Max) \<noteq> Inr Less"
    using enc_less [of "\<lparr>v_user = [7], v_seq = 1, v_op = Put, v_val = [11]\<rparr>" 5 True "[7]" Max] by (simp add: enc_def not_newer_def op_order)
  have g: "get_entry True (encoded_key [7] 5 Max) ?k [11] = Inr (Value [11])"
    using get_entry_version [of "\<lparr>v_user = [7], v_seq = 1, v_op = Put, v_val = [11]\<rparr>" 5 True "[7]" Max] by (simp add: enc_def version_ok_def)
  have "key_valid (w_cmp w 0) (encoded_key [7] 5 Max)" by (simp add: w(2) key_valid_fun)
  from conjunct2 [OF conjunct2 [OF memtable_handles_share [OF r w(1) this]]]
  have "table_get True (w_tables w) ?h (encoded_key [7] 5 Max) = ret (Value [11])"
    unfolding w l using c g by (simp add: ret_def del: dyn_compare.simps)
  then show ?thesis using r by (intro exI [of _ w]) (simp add: w_def)
qed

end
