(* ===== verification/Thread_Context.thy ===== *)
theory Thread_Context
  imports Hazard Transition_Systems
begin

text \<open>
  Thread-local state. \<^verbatim>\<open>thread_ctx/scratch.rs\<close>: a global registry, built once, that every thread adds its local
  counter to when it first touches its thread-local handle; the registry and the thread point to the same
  counter. \<^verbatim>\<open>versioning/superversion.rs\<close>: the cache of a thread holds a hazard pointer of the global domain.
\<close>

section \<open>The registry\<close>

type_synonym local_handle = nat

record gs =
  gs_cell :: "local_handle list"
  g_count :: nat

record registry =
  rg_global :: "gs option"
  rg_locals :: "local_handle \<Rightarrow> nat option"
  rg_fresh :: local_handle
  rg_tls :: "nat \<Rightarrow> local_handle option"

text \<open>\<^verbatim>\<open>OnceLock::get_or_init\<close>.\<close>

definition build :: "registry \<Rightarrow> gs \<times> registry" where
  "build r = (case rg_global r of
       Some g \<Rightarrow> (g, r)
     | None \<Rightarrow> let g = \<lparr>gs_cell = [], g_count = 0\<rparr> in (g, r\<lparr>rg_global := Some g\<rparr>))"

definition local_register :: "registry \<Rightarrow> gs \<Rightarrow> local_handle \<times> registry" where
  "local_register r g = (let l = rg_fresh r in
     (l, r\<lparr>rg_locals := (rg_locals r)(l \<mapsto> 0), rg_fresh := l + 1,
           rg_global := Some (g\<lparr>gs_cell := gs_cell g @ [l]\<rparr>)\<rparr>))"

definition gs_register :: "registry \<Rightarrow> gs \<Rightarrow> local_handle \<times> registry" where
  "gs_register r g = local_register r g"

text \<open>The thread-local handle, made when thread \<open>t\<close> first uses it.\<close>

definition tls_handle :: "registry \<Rightarrow> nat \<Rightarrow> local_handle \<times> registry" where
  "tls_handle r t = (case rg_tls r t of
       Some l \<Rightarrow> (l, r)
     | None \<Rightarrow> let (g, r1) = build r; (l, r2) = gs_register r1 g in (l, r2\<lparr>rg_tls := (rg_tls r2)(t \<mapsto> l)\<rparr>))"

text \<open>
  \<^verbatim>\<open>Cell::set\<close> of the standard library on a registered counter. Of the repository only the tests of
  \<^verbatim>\<open>scratch.rs\<close> set one; it is modelled as what a user of the registry does.
\<close>

definition local_set :: "registry \<Rightarrow> local_handle \<Rightarrow> nat \<Rightarrow> registry res" where
  "local_set r l n = (case rg_locals r l of None \<Rightarrow> Inl InvalidAccess
     | Some _ \<Rightarrow> Inr (r\<lparr>rg_locals := (rg_locals r)(l \<mapsto> n)\<rparr>))"

text \<open>What the registry shows of all threads.\<close>

definition local_counts :: "registry \<Rightarrow> nat option list" where
  "local_counts r = (case rg_global r of None \<Rightarrow> [] | Some g \<Rightarrow> map (rg_locals r) (gs_cell g))"

inductive registry_step :: "nat \<Rightarrow> registry \<Rightarrow> registry \<Rightarrow> bool" for t r where
  access: "tls_handle r t = (l, r') \<Longrightarrow> registry_step t r r'"
| set_count: "tls_handle r t = (l, r1) \<Longrightarrow> local_set r1 l n = Inr r' \<Longrightarrow> registry_step t r r'"
| count_global: "build r = (g, r1) \<Longrightarrow>
    registry_step t r (r1\<lparr>rg_global := Some (g\<lparr>g_count := (g_count g + 1) mod usize_limit\<rparr>)\<rparr>)"

definition registry_any :: "registry \<Rightarrow> registry \<Rightarrow> bool" where
  "registry_any r r' \<longleftrightarrow> (\<exists>t. registry_step t r r')"

definition registry_init :: registry where
  "registry_init = \<lparr>rg_global = None, rg_locals = Map.empty, rg_fresh = 0, rg_tls = Map.empty\<rparr>"

definition cells :: "registry \<Rightarrow> local_handle list" where
  "cells r = (case rg_global r of None \<Rightarrow> [] | Some g \<Rightarrow> gs_cell g)"

definition registry_ok :: "registry \<Rightarrow> bool" where
  "registry_ok r \<longleftrightarrow> distinct (cells r) \<and> set (cells r) = ran (rg_tls r) \<and> dom (rg_locals r) = set (cells r) \<and>
     (\<forall>l \<in> set (cells r). l < rg_fresh r) \<and>
     (\<forall>t u l. rg_tls r t = Some l \<longrightarrow> rg_tls r u = Some l \<longrightarrow> t = u)"

lemma build_ok:
  assumes "registry_ok r" "build r = (g, r')"
  shows "registry_ok r'" "rg_global r' = Some g" "rg_tls r' = rg_tls r" "rg_locals r' = rg_locals r" "cells r' = cells r"
  using assms by (auto simp: build_def registry_ok_def cells_def Let_def split: option.splits)

lemma tls_handle_ok:
  assumes ok: "registry_ok r" and t: "tls_handle r t = (l, r')"
  shows "registry_ok r'" "rg_tls r' t = Some l" "\<And>u. u \<noteq> t \<Longrightarrow> rg_tls r' u = rg_tls r u"
    "\<And>l'. rg_locals r l' \<noteq> None \<Longrightarrow> rg_locals r' l' = rg_locals r l'"
proof -
  have "registry_ok r' \<and> rg_tls r' t = Some l \<and> (\<forall>u. u \<noteq> t \<longrightarrow> rg_tls r' u = rg_tls r u) \<and>
      (\<forall>l'. rg_locals r l' \<noteq> None \<longrightarrow> rg_locals r' l' = rg_locals r l')"
  proof (cases "rg_tls r t")
    case (Some a)
    then show ?thesis using ok t by (simp add: tls_handle_def)
  next
    case None
    obtain g r1 where b: "build r = (g, r1)" by (cases "build r")
    note bo = build_ok [OF ok b]
    have l: "l = rg_fresh r1" and r': "r' = r1\<lparr>rg_locals := (rg_locals r1)(l \<mapsto> 0), rg_fresh := l + 1,
        rg_global := Some (g\<lparr>gs_cell := gs_cell g @ [l]\<rparr>), rg_tls := (rg_tls r1)(t \<mapsto> l)\<rparr>"
      using t None b by (auto simp: tls_handle_def gs_register_def local_register_def Let_def)
    have c: "cells r' = cells r1 @ [l]" using bo(2) by (simp add: cells_def r')
    have fr: "l \<notin> set (cells r1)" "rg_locals r1 l = None" using bo(1) l by (auto simp: registry_ok_def)
    have ra: "ran (rg_tls r') = insert l (ran (rg_tls r1))" using None bo(3) by (simp add: r')
    have "registry_ok r'"
      using bo(1) fr c ra unfolding registry_ok_def by (auto simp: r' l ran_def less_Suc_eq split: if_splits)
    then show ?thesis using bo(3,4) fr(2) by (auto simp: r')
  qed
  then show "registry_ok r'" "rg_tls r' t = Some l" "\<And>u. u \<noteq> t \<Longrightarrow> rg_tls r' u = rg_tls r u"
    "\<And>l'. rg_locals r l' \<noteq> None \<Longrightarrow> rg_locals r' l' = rg_locals r l'" by blast+
qed

lemma registry_ok_cong:
  assumes "registry_ok r" "cells r' = cells r" "rg_tls r' = rg_tls r" "dom (rg_locals r') = dom (rg_locals r)" "rg_fresh r' = rg_fresh r"
  shows "registry_ok r'"
  using assms by (simp add: registry_ok_def)

lemma local_set_ok:
  assumes "registry_ok r" "local_set r l n = Inr r'"
  shows "registry_ok r'"
  by (rule registry_ok_cong [OF assms(1)]) (use assms(2) in \<open>auto simp: local_set_def cells_def domIff split: option.splits if_splits\<close>)

lemma registry_ok_step:
  assumes "registry_step t r r'" "registry_ok r"
  shows "registry_ok r'"
  using assms(1)
proof cases
  case (access l)
  then show ?thesis using tls_handle_ok(1) [OF assms(2)] by blast
next
  case (set_count l r1 n)
  then show ?thesis using tls_handle_ok(1) [OF assms(2)] local_set_ok by blast
next
  case (count_global g r1)
  note b = build_ok [OF assms(2) count_global(2)]
  show ?thesis by (rule registry_ok_cong [OF b(1)]) (use b(2) count_global(1) in \<open>simp_all add: cells_def\<close>)
qed

interpretation registry_sys: invariant_system registry_any "\<lambda>r. r = registry_init" registry_ok
proof unfold_locales
  show "registry_ok r" if "r = registry_init" for r using that by (simp add: registry_ok_def registry_init_def cells_def)
  show "registry_ok r'" if "registry_ok r" "registry_any r r'" for r r'
    using that registry_ok_step unfolding registry_any_def by blast
qed

lemma count_distinct: "distinct xs \<Longrightarrow> x \<in> set xs \<Longrightarrow> count_list xs x = 1"
  by (induction xs) auto

text \<open>
  C27: The registry and the threads share their counters. In every state the threads can reach, a thread that
  touches its thread-local handle has it registered exactly once; setting its counter succeeds, the registry
  shows the new value, and neither the handle nor the counter of any other thread changes.
\<close>

theorem registry_shares_counters:
  assumes "registry_any\<^sup>*\<^sup>* registry_init r" "tls_handle r t = (l, r1)"
  shows "\<exists>r'. local_set r1 l n = Inr r' \<and> count_list (cells r') l = 1 \<and> Some n \<in> set (local_counts r') \<and>
    rg_locals r' l = Some n \<and>
    (\<forall>u m. u \<noteq> t \<longrightarrow> rg_tls r u = Some m \<longrightarrow> rg_tls r' u = Some m \<and> m \<noteq> l \<and> rg_locals r' m = rg_locals r m)"
proof -
  have ok: "registry_ok r" using registry_sys.reachable_inv [OF assms(1)] by simp
  note h = tls_handle_ok [OF ok assms(2)]
  have l: "l \<in> set (cells r1)" using h(1,2) by (auto simp: registry_ok_def ran_def)
  then obtain a where a: "rg_locals r1 l = Some a" using h(1) unfolding registry_ok_def by blast
  define r' where "r' = r1\<lparr>rg_locals := (rg_locals r1)(l \<mapsto> n)\<rparr>"
  have c: "cells r' = cells r1" by (simp add: cells_def r'_def)
  have "count_list (cells r') l = 1" using h(1) l c by (simp add: registry_ok_def count_distinct)
  moreover have "Some n \<in> set (local_counts r')"
    using l by (auto simp: local_counts_def r'_def cells_def image_iff split: option.splits intro!: bexI [of _ l])
  moreover have "rg_tls r' u = Some m \<and> m \<noteq> l \<and> rg_locals r' m = rg_locals r m" if u: "u \<noteq> t" "rg_tls r u = Some m" for u m
  proof -
    have m: "rg_tls r1 u = Some m" using h(3) [OF u(1)] u(2) by simp
    then have "m \<noteq> l" using h(1,2) u(1) unfolding registry_ok_def by blast
    moreover have "rg_locals r m \<noteq> None" using ok u(2) by (auto simp: registry_ok_def ran_def)
    ultimately show ?thesis using m h(4) by (simp add: r'_def)
  qed
  moreover have "local_set r1 l n = Inr r'" "rg_locals r' l = Some n" using a by (simp_all add: local_set_def r'_def)
  ultimately show ?thesis by blast
qed

theorem registry_shares_counters_witness:
  "\<exists>r1 r'. tls_handle registry_init 4 = (0, r1) \<and> local_set r1 0 9 = Inr r' \<and> Some 9 \<in> set (local_counts r')"
proof -
  obtain r1 where r1: "tls_handle registry_init 4 = (0, r1)"
    by (simp add: tls_handle_def gs_register_def build_def local_register_def registry_init_def Let_def)
  then show ?thesis using registry_shares_counters [OF rtranclp.rtrancl_refl r1, of 9] by blast
qed

section \<open>The superversion cache of a thread\<close>

record sv_cache =
  sv_hzd :: nat
  sv_generation :: u64
  sv_sv :: optr

text \<open>\<^verbatim>\<open>HzdPtr::new\<close> acquires from the global domain.\<close>

definition hzd_ptr_new :: "bool \<Rightarrow> domain \<Rightarrow> (nat \<times> domain) comp" where
  "hzd_ptr_new dbg global = new_in_domain dbg global"

definition sv_cache_new :: "bool \<Rightarrow> domain \<Rightarrow> (sv_cache \<times> domain) comp" where
  "sv_cache_new dbg global = cbind (hzd_ptr_new dbg global) (\<lambda>(r, global').
     ret (\<lparr>sv_hzd = r, sv_generation = 0, sv_sv = None\<rparr>, global'))"

fun sv_caches :: "bool \<Rightarrow> domain \<Rightarrow> nat \<Rightarrow> (sv_cache list \<times> domain) comp" where
  "sv_caches dbg d 0 = ret ([], d)"
| "sv_caches dbg d (Suc n) = cbind (sv_cache_new dbg d) (\<lambda>(c, d').
     cbind (sv_caches dbg d' n) (\<lambda>(cs, d''). ret (c # cs, d'')))"

lemma sv_cache_new_ok:
  assumes inv: "dom_inv d xs" and own: "own \<subseteq> dom (d_recs d)" "own \<inter> set xs = {}"
  shows "\<exists>r d'. sv_cache_new dbg d = ret (\<lparr>sv_hzd = r, sv_generation = 0, sv_sv = None\<rparr>, d') \<and> r \<notin> own \<and>
    dom_inv d' (tl xs) \<and> insert r own \<subseteq> dom (d_recs d') \<and> insert r own \<inter> set (tl xs) = {}"
proof -
  let ?rs = "take 1 xs @ [d_fresh d..<d_fresh d + (1 - length xs)]"
  obtain d' where d': "acquire_many dbg d 1 = ret (?rs, d')" "dom_inv d' (drop 1 xs)"
    "avail_chain (d_recs d') (Some (hd ?rs)) ?rs None" "dom (d_recs d) \<subseteq> dom (d_recs d')"
    using acquire_many_ok [OF inv, of 1 dbg] by blast
  have rs: "?rs = [?rs ! 0]" by (cases xs) simp_all
  have dist: "distinct xs" and fr: "\<forall>r. d_fresh d \<le> r \<longrightarrow> d_recs d r = None" using inv by (simp_all add: dom_inv_def)
  have "?rs ! 0 \<in> dom (d_recs d')" using avail_chain_dom [OF d'(3), of "?rs ! 0"] rs by (metis domIff list.set_intros(1))
  moreover have "?rs ! 0 \<notin> own" using own fr by (cases xs) auto
  moreover have "?rs ! 0 \<notin> set (tl xs)" using dist by (cases xs) auto
  moreover have "own \<inter> set (tl xs) = {}" using own(2) by (cases xs) auto
  moreover have "sv_cache_new dbg d = ret (\<lparr>sv_hzd = ?rs ! 0, sv_generation = 0, sv_sv = None\<rparr>, d')"
    using d'(1) by (simp add: sv_cache_new_def hzd_ptr_new_def new_in_domain_def acquire_def)
  ultimately show ?thesis using d'(2,4) own(1) by (intro exI [of _ "?rs ! 0"] exI [of _ d']) (auto simp: drop_Suc)
qed

text \<open>
  Every thread's superversion cache has its own hazard record: any number of caches made on one domain, one
  after the other, start empty at generation 0 and hold pairwise different records that nobody else owns.
\<close>

theorem sv_caches_exclusive:
  assumes "dom_inv d xs" "own \<subseteq> dom (d_recs d)" "own \<inter> set xs = {}"
  shows "\<exists>cs d'. sv_caches dbg d n = ret (cs, d') \<and> length cs = n \<and> distinct (map sv_hzd cs) \<and>
    set (map sv_hzd cs) \<inter> own = {} \<and> (\<forall>c \<in> set cs. sv_generation c = 0 \<and> sv_sv c = None)"
  using assms
proof (induction n arbitrary: d xs own)
  case (Suc n)
  obtain r d1 where r: "sv_cache_new dbg d = ret (\<lparr>sv_hzd = r, sv_generation = 0, sv_sv = None\<rparr>, d1)" "r \<notin> own"
    "dom_inv d1 (tl xs)" "insert r own \<subseteq> dom (d_recs d1)" "insert r own \<inter> set (tl xs) = {}"
    using sv_cache_new_ok [OF Suc.prems] by blast
  obtain cs d2 where cs: "sv_caches dbg d1 n = ret (cs, d2)" "length cs = n" "distinct (map sv_hzd cs)"
    "set (map sv_hzd cs) \<inter> insert r own = {}" "\<forall>c \<in> set cs. sv_generation c = 0 \<and> sv_sv c = None"
    using Suc.IH [OF r(3-5)] by blast
  then show ?case using r(1,2) by auto
qed simp

theorem sv_caches_exclusive_witness:
  "\<exists>cs d'. sv_caches True domain_new 3 = ret (cs, d') \<and> length cs = 3 \<and> distinct (map sv_hzd cs)"
  using sv_caches_exclusive [OF domain_new_inv, of "{}" True 3] by auto

end
