(* ===== verification/Spec2Isabelle.thy ===== *)
theory Spec2Isabelle
  imports Memtable_Memory Memtable_Iter Key_Buffers Write_Progress Arena_Progress Hazard_Concurrent
    Memtable_Concurrent Skip_List_Linear Skip_List_Progress Memtable_Handle Thread_Context
begin

text \<open>
  A verification development for VictoryDB, the beginnings of an LSM storage engine in Rust. The crate \<^verbatim>\<open>mem\<close>
  has the arena allocator and hazard pointers; the crate \<^verbatim>\<open>engine\<close> has keys and comparators, the skip list and
  the memtable on top of the arena, and the write path (batches, writers and the group-commit queue). Sources
  are named relative to \<^verbatim>\<open>crates/engine/src\<close> and \<^verbatim>\<open>crates/mem/src\<close>.

  \<^bold>\<open>How code is modelled.\<close> A function whose loops all end is a HOL function into \<open>'a res\<close>, that is
  \<open>fault + 'a\<close>: every panic, failed assertion, overflow check and access outside the memory the code owns is a
  value of \<open>fault\<close>. (An out-of-range tower slot is one in both builds: a failed assertion with debug
  assertions, an access outside the node without; no theorem depends on the difference.) A function with a retry loop is a \<^verbatim>\<open>partial_function\<close> into \<open>'a comp = 'a res option\<close>, where
  \<open>None\<close> is \<open>does not return\<close>; that it returns is part of every theorem about it, so no fuel is needed.
  Debug assertions are switched by a parameter \<open>dbg\<close>. Machine integers are words where bits matter and naturals
  with the wrap-around or the truncation written out elsewhere. Raw pointers are \<open>Null\<close> or a chunk and an
  offset, and nodes live in a store indexed by them. Endianness, the growth of a vector and the values another
  thread stores into a protected source are parameters.

  \<^bold>\<open>Theories, bottom up.\<close>
  \<^item> \<open>VDB_Prelude\<close>: results, faults, three-way comparison, byte encodings of words, list lemmas.
  \<^item> \<open>Byte_Codec\<close> (\<^verbatim>\<open>utils/mod.rs\<close>, \<^verbatim>\<open>utils/var_int.rs\<close>): fixed-width accesses and \<^verbatim>\<open>VarInt\<close>; round trips and
    the exact set of values that panic.
  \<^item> \<open>Internal_Key\<close> (\<^verbatim>\<open>key/internal_key.rs\<close>, \<^verbatim>\<open>key/mod.rs\<close>, \<^verbatim>\<open>key/comparator.rs\<close>): trailers, encoded keys and
    their decoding, both comparators. The locale \<open>key_comparator\<close> is the contract the skip list needs (a total
    preorder on valid keys that does not panic); it is interpreted on both comparators and on \<open>dyn_compare\<close>.
  \<^item> \<open>Key_Buffers\<close> (\<^verbatim>\<open>key/inner_key.rs\<close>, \<^verbatim>\<open>key/lookup_key.rs\<close>, \<^verbatim>\<open>key/iter_key.rs\<close>): inline and external key
    buffers; what was set is read back, and where the reused buffer of \<^verbatim>\<open>IterKey\<close> is overrun.
  \<^item> \<open>Arena\<close> (\<^verbatim>\<open>arena.rs\<close>, \<^verbatim>\<open>allocator.rs\<close>, \<^verbatim>\<open>options.rs\<close>): policies, chunks, \<^verbatim>\<open>alloc_raw\<close> and
    \<^verbatim>\<open>try_new_chunk\<close>; allocations return, are aligned in their chunk, in bounds and disjoint.
  \<^item> \<open>Transition_Systems\<close>: the locale \<open>invariant_system\<close>, interpreted on every step relation of the development, and
    its extensions \<open>terminating_system\<close> (a rank every step reduces) and \<open>simulation\<close> (of an atomic system).
  \<^item> \<open>Arena_Concurrent\<close>: the same functions as atomic steps of many threads, with the invariant that gives
    disjointness under every interleaving. \<open>Arena_Progress\<close>: finitely many allocating threads finish, by the team
    rank of \<open>Team_Rank\<close>; a compare-and-swap that fails without cause is excluded there.
  \<^item> \<open>Skip_List\<close> (\<^verbatim>\<open>memtable/skip_list.rs\<close>): node layout, level generator, search, \<^verbatim>\<open>insert\<close>,
    \<^verbatim>\<open>insert_with\<close>, iterators. \<open>Skip_List_Correct\<close> has the well-formedness invariant and the correctness of search,
    \<open>Skip_List_Insert\<close> of both insertions, \<open>Skip_List_Read\<close> of iterators and range scans; all are proved inside
    the locale \<open>key_comparator\<close>. \<open>Skip_List_Spec\<close> states the results: insertion refines sorted insertion.
  \<^item> \<open>Skip_List_Concurrent\<close>: \<^verbatim>\<open>insert\<close> and \<^verbatim>\<open>insert_with\<close> as atomic steps of many threads; the levels stay sorted
    chains, no thread gets stuck, and a finished insertion is seen by every later search. How full the arena is, is
    left open there: any allocation may panic. \<open>Skip_List_Solo\<close>: a thread that runs alone stops, by a rank its
    steps reduce. \<open>Skip_List_Progress\<close>: any finitely many threads finish together, however they are scheduled, and
    return where the arena has room. \<open>Skip_List_Scan\<close>: iteration while others insert.
    \<open>Skip_List_Linear\<close>: insertion is linearizable, by simulation of the list with atomic sorted insertion.
  \<^item> \<open>Node_Memory\<close>: nodes as bytes in raw memory, accessed with the address arithmetic of the code; the records
    of \<open>Skip_List\<close> are what that memory holds as long as nodes are apart. \<open>Skip_List_Memory\<close>: the arena keeps them
    apart, every operation is a sequence of such accesses, and iterating over raw memory after any insertions
    delivers the sorted entries; a key that is too long is shown to overwrite the byte behind its node. The addresses of chunks are a parameter, assumed positive, inside the address
    space and disjoint.
  \<^item> \<open>Memtable\<close> (\<^verbatim>\<open>memtable/memtable.rs\<close>): state, both insertions, \<^verbatim>\<open>get\<close>, the internal iterator; the locales
    \<open>ordered_store\<close> and \<open>mutable_store\<close> are its interface to the list. \<open>Memtable_Versions\<close> is its abstract
    specification as a multi-version store, refined by \<^verbatim>\<open>insert_direct\<close> and \<^verbatim>\<open>get\<close>; \<open>Memtable_Iter\<close> is about the
    iterator. \<open>Memtable_Concurrent\<close>: interleaved readers and writers on one table; reads see completed writes.
    \<open>Memtable_Memory\<close>: \<^verbatim>\<open>search\<close> and \<^verbatim>\<open>get\<close> with addresses for pointers and every load from the bytes of memory; the
    locale \<open>store_image\<close> is what they rely on, the memory written by \<^verbatim>\<open>insert_direct\<close> provides it, and the answers are
    the last writes. \<open>Memtable_Handle\<close>: clones and readable views share one table, so that what is inserted through
    any handle is read through all; the counters are those of the standard library's \<^verbatim>\<open>Arc\<close>.
  \<^item> \<open>Write_Batch\<close> (\<^verbatim>\<open>db/write_batch.rs\<close>): the batch format, with a reader written from its documentation.
  \<^item> \<open>Write_Thread\<close> (\<^verbatim>\<open>db/writer.rs\<close>, \<^verbatim>\<open>db/write_thread.rs\<close>): the queue, group formation and \<^verbatim>\<open>join\<close> of one
    thread; \<open>Write_Concurrent\<close>: interleaved \<^verbatim>\<open>link_writer\<close> calls, and a waiter against its signallers.
    With debug assertions \<^verbatim>\<open>link_writer\<close> panics unless the writer has its INIT bit. \<open>Write_Progress\<close>: finitely many
    joining threads all end, those that pass the assertion linked under one leader; as in \<open>Arena_Progress\<close>, a swap
    that fails without cause is excluded.
  \<^item> \<open>Hazard\<close> (\<^verbatim>\<open>hazard/domain.rs\<close>, \<^verbatim>\<open>hazard/hazard_ptr.rs\<close>): acquisition, release and protection of one
    thread; \<open>Hazard_Concurrent\<close>: interleaved \<^verbatim>\<open>acquire_many\<close> and \<^verbatim>\<open>release_many\<close> for any number of
    records, the lock bit, the stale head and the list of all records.
  \<^item> \<open>Thread_Context\<close> (\<^verbatim>\<open>thread_ctx/scratch.rs\<close>, \<^verbatim>\<open>versioning/superversion.rs\<close>): the registry of thread-local counters
    and the superversion cache of a thread, which holds a hazard pointer of the global domain.

  \<^bold>\<open>What is not modelled.\<close> Step relations are sequentially consistent: the weaker orderings the code asks for
  are not represented. Nodes and chunks are never freed, so their
  drops are absent, and so are \<^verbatim>\<open>size\<close> and allocation failure of the host. Of superversions only
  the cache is modelled; \<^verbatim>\<open>ThreadCtx\<close>, column families, database iterators and the database facade have no operations
  with a body yet; \<^verbatim>\<open>Memtable::encode_key\<close> is \<^verbatim>\<open>todo!()\<close> and \<^verbatim>\<open>Batch::apply_batch\<close> is empty.
\<close>

section \<open>Lookup keys and the memtable together\<close>

text \<open>
  C4: Reading through a lookup key: for every table, every user key within the size limit and every sequence
  number below 2^56, \<^verbatim>\<open>LookUpKey::new\<close> succeeds, inline or boxed, and \<^verbatim>\<open>get\<close> with its bytes answers as the
  newest version of the user key that is visible at that sequence number and operation.
\<close>

theorem lookup_key_reads_version:
  assumes "mt_versions dbg m vs" "unat s < 2 ^ 56" "length uk + 8 \<le> MAX_KEY_SIZE"
  shows "\<exists>k b. lookup_key_new N dbg uk s p = Inr k \<and> lookup_key_as_ref k = Inr b \<and>
    mt_get dbg m b = ret (read_version uk s p vs)"
  using lookup_key_roundtrip [OF assms(2,3), of N dbg p] mt_get_ok [OF assms(1,2), of uk p] by blast

theorem lookup_key_reads_version_witness:
  "\<exists>m m' k b. memtable_new True 0 wit_policy System InternalKeyComparator = ret m \<and>
     write_all True m wit_versions = ret m' \<and> lookup_key_new INLINE_IK_SIZE True [7] 2 Max = Inr k \<and>
     lookup_key_as_ref k = Inr b \<and> mt_get True m' b = ret (Value [12])"
proof -
  obtain m m' where w: "memtable_new True 0 wit_policy System InternalKeyComparator = ret m"
    "write_all True m wit_versions = ret m'" "mt_versions True m' (rev wit_versions)"
    using wit_written by blast
  have "read_version [7] 2 Max (rev wit_versions) = Value [12]"
    by (simp add: read_version_def visible_def wit_versions_def not_newer_def op_order)
  with lookup_key_reads_version [OF w(3), of 2 "[7]" INLINE_IK_SIZE Max] w(1,2) show ?thesis
    by (auto simp: MAX_KEY_SIZE_def)
qed

end
